(* ===== verification/Ostrich_Prelude.thy ===== *)
theory Ostrich_Prelude
  imports Main "HOL-Library.Word"
begin

text \<open>
  Shared vocabulary of the development: the machine types of the source, the errors its
  operations can end in, the vector and ordered-map primitives the code takes from the C++
  standard library, and the interface of a byte codec with the decoding loop every
  \<open>deserialize\<close> of the source runs.
\<close>

section \<open>Machine types and errors\<close>

type_synonym byte = "8 word"
type_synonym u64 = "64 word"

text \<open>
  \<open>Runtime_error\<close> and \<open>Invalid_argument\<close> are the standard exceptions the source throws;
  \<open>Undefined_behaviour\<close> stands for an operation the C++ standard leaves undefined (moving an
  iterator before \<open>begin()\<close>, reading past the end of a buffer); \<open>Diverges\<close> for a loop that
  makes no progress.
\<close>

datatype cpp_error = Runtime_error | Invalid_argument | Undefined_behaviour | Out_of_range | Length_error | Diverges

type_synonym 'a outcome = "cpp_error + 'a"

definition bind_outcome :: "'a outcome \<Rightarrow> ('a \<Rightarrow> 'b outcome) \<Rightarrow> 'b outcome" where
  "bind_outcome r f = (case r of Inl e \<Rightarrow> Inl e | Inr x \<Rightarrow> f x)"

lemma bind_outcome_simps [simp]:
  "bind_outcome (Inl e) f = Inl e"
  "bind_outcome (Inr x) f = f x"
  by (simp_all add: bind_outcome_def)

lemma bind_outcome_eq_Inr:
  "bind_outcome r f = Inr y \<longleftrightarrow> (\<exists>x. r = Inr x \<and> f x = Inr y)"
  by (cases r) auto

lemma bind_outcome_cong [fundef_cong]:
  "r = r' \<Longrightarrow> (\<And>x. r' = Inr x \<Longrightarrow> f x = g x) \<Longrightarrow> bind_outcome r f = bind_outcome r' g"
  by (cases r') auto

lemma ex_flag [simp]: "(\<exists>b. b)" "(\<exists>b. \<not> b)"
  by blast+

definition INT_MAX :: int where "INT_MAX = 2147483647"
definition INT_MIN :: int where "INT_MIN = - 2147483648"

abbreviation int32_range :: "int \<Rightarrow> bool" where
  "int32_range x \<equiv> INT_MIN \<le> x \<and> x \<le> INT_MAX"

abbreviation int64_range :: "int \<Rightarrow> bool" where
  "int64_range x \<equiv> - (2 ^ 63) \<le> x \<and> x < 2 ^ 63"

text \<open>The narrowing conversion from \<open>int64_t\<close> to a 32-bit \<open>int\<close>.\<close>

definition to_int32 :: "int \<Rightarrow> int" where
  "to_int32 x = signed_take_bit 31 x"

lemma to_int32_id [simp]: "int32_range x \<Longrightarrow> to_int32 x = x"
  unfolding to_int32_def INT_MAX_def INT_MIN_def
  by (rule signed_take_bit_int_eq_self) auto

section \<open>Vectors\<close>

text \<open>
  \<open>std::lower_bound\<close> on a range partitioned by \<open>lt\<close> (\<open>lt x\<close>: the element is less than the
  sought value): the number of elements before the first one that is not less.
\<close>

definition lower_bound :: "('a \<Rightarrow> bool) \<Rightarrow> 'a list \<Rightarrow> nat" where
  "lower_bound lt xs = length (takeWhile lt xs)"

definition insert_at :: "nat \<Rightarrow> 'a \<Rightarrow> 'a list \<Rightarrow> 'a list" where
  "insert_at i x xs = take i xs @ x # drop i xs"

definition erase_at :: "nat \<Rightarrow> 'a list \<Rightarrow> 'a list" where
  "erase_at i xs = take i xs @ drop (Suc i) xs"

lemma lower_bound_le_length: "lower_bound lt xs \<le> length xs"
  by (simp add: lower_bound_def length_takeWhile_le)

lemma lower_bound_append:
  assumes "\<forall>x\<in>set xs. lt x" "ys = [] \<or> \<not> lt (hd ys)"
  shows "lower_bound lt (xs @ ys) = length xs"
proof -
  have "takeWhile lt (xs @ ys) = xs @ takeWhile lt ys"
    using assms(1) by (simp add: takeWhile_append2)
  moreover have "takeWhile lt ys = []" using assms(2) by (cases ys) auto
  ultimately show ?thesis by (simp add: lower_bound_def)
qed

text \<open>Every list splits at its lower bound; the proofs about sorted vectors start here.\<close>

lemma lower_bound_split:
  obtains us vs where "xs = us @ vs" "\<forall>x\<in>set us. lt x" "vs = [] \<or> \<not> lt (hd vs)"
    "lower_bound lt xs = length us"
proof
  show "xs = takeWhile lt xs @ dropWhile lt xs" by simp
  show "\<forall>x\<in>set (takeWhile lt xs). lt x" by (auto dest: set_takeWhileD)
  show "dropWhile lt xs = [] \<or> \<not> lt (hd (dropWhile lt xs))"
    using hd_dropWhile [of lt xs] by blast
  show "lower_bound lt xs = length (takeWhile lt xs)" by (simp add: lower_bound_def)
qed

lemma insert_at_append [simp]: "insert_at (length us) x (us @ vs) = us @ x # vs"
  by (simp add: insert_at_def)

lemma erase_at_append [simp]: "erase_at (length us) (us @ v # vs) = us @ vs"
  by (simp add: erase_at_def)

lemma erase_at_append_last [simp]: "erase_at (length us) (us @ [v, w] @ vs) = us @ w # vs"
  by (simp add: erase_at_def)

section \<open>Ordered maps\<close>

text \<open>
  A \<open>std::map\<close> is the list of its entries in key order. \<open>map_insert\<close> is \<open>insert\<close>, which keeps
  an entry that is already there; \<open>map_assign\<close> is the assignment \<open>m[k] = v\<close>, which replaces it.
\<close>

fun map_insert :: "int \<Rightarrow> 'v \<Rightarrow> (int \<times> 'v) list \<Rightarrow> (int \<times> 'v) list" where
  "map_insert k v [] = [(k, v)]"
| "map_insert k v ((a, b) # m) =
     (if k < a then (k, v) # (a, b) # m else if k = a then (a, b) # m
      else (a, b) # map_insert k v m)"

fun map_assign :: "int \<Rightarrow> 'v \<Rightarrow> (int \<times> 'v) list \<Rightarrow> (int \<times> 'v) list" where
  "map_assign k v [] = [(k, v)]"
| "map_assign k v ((a, b) # m) =
     (if k < a then (k, v) # (a, b) # m else if k = a then (k, v) # m
      else (a, b) # map_assign k v m)"

abbreviation key_lt :: "int \<Rightarrow> int \<times> 'v \<Rightarrow> bool" where
  "key_lt k \<equiv> \<lambda>p. fst p < k"

lemma map_insert_split:
  "\<forall>p\<in>set us. fst p < k \<Longrightarrow> vs = [] \<or> k < fst (hd vs) \<Longrightarrow>
   map_insert k v (us @ vs) = us @ (k, v) # vs"
proof (induction us)
  case Nil
  then show ?case by (cases vs) (auto split: prod.splits)
next
  case (Cons u us)
  then show ?case by (cases u) auto
qed

lemma map_assign_split:
  "\<forall>p\<in>set us. fst p < k \<Longrightarrow> vs = [] \<or> k < fst (hd vs) \<Longrightarrow>
   map_assign k v (us @ vs) = us @ (k, v) # vs"
proof (induction us)
  case Nil
  then show ?case by (cases vs) (auto split: prod.splits)
next
  case (Cons u us)
  then show ?case by (cases u) auto
qed

lemma map_assign_hit:
  "\<forall>p\<in>set us. fst p < k \<Longrightarrow> map_assign k v (us @ (k, w) # vs) = us @ (k, v) # vs"
  by (induction us) auto

lemma map_of_map_assign: "map_of (map_assign k v m) = (map_of m)(k \<mapsto> v)"
  if "sorted (map fst m)"
  using that
proof (induction m)
  case (Cons p m)
  then show ?case
    by (cases p) (auto simp: fun_eq_iff map_of_eq_None_iff)
qed auto

lemma set_map_insert: "fst ` set (map_insert k v m) = insert k (fst ` set m)"
  by (induction k v m rule: map_insert.induct) auto

lemma sorted_map_insert: "sorted (map fst m) \<Longrightarrow> sorted (map fst (map_insert k v m))"
proof (induction k v m rule: map_insert.induct)
  case (2 k v a b m)
  then show ?case using set_map_insert [of k v m] by (auto simp flip: set_map)
qed simp

lemma map_of_map_insert:
  "sorted (map fst m) \<Longrightarrow>
   map_of (map_insert k v m) a = (case map_of m a of None \<Rightarrow> if a = k then Some v else None | Some x \<Rightarrow> Some x)"
proof (induction k v m rule: map_insert.induct)
  case (2 k v c b m)
  consider "k < c" | "k = c" | "c < k" by linarith
  then show ?case
  proof cases
    case 1
    then have "k \<notin> fst ` set m" using 2(2) by auto
    then have "map_of m k = None" by (simp add: map_of_eq_None_iff)
    then show ?thesis using 1 by (auto split: option.split)
  next
    case 3
    then show ?thesis using 2 by (auto split: option.split)
  qed (auto split: option.split)
qed simp

lemma set_map_assign: "fst ` set (map_assign k v m) = insert k (fst ` set m)"
  by (induction k v m rule: map_assign.induct) auto

lemma sorted_map_assign: "sorted (map fst m) \<Longrightarrow> sorted (map fst (map_assign k v m))"
proof (induction k v m rule: map_assign.induct)
  case (2 k v a b m)
  then show ?case using set_map_assign [of k v m] by (auto simp flip: set_map)
qed simp

section \<open>Codecs\<close>

text \<open>
  The loop \<open>while (offset < size) offset += decode (data + offset)\<close> of the \<open>deserialize\<close>
  functions, on the bytes that are left. The fuel is the number of bytes: a decoder that
  consumes at least one byte per round never runs out of it.
\<close>

fun decode_all :: "(byte list \<Rightarrow> ('a \<times> nat) outcome) \<Rightarrow> nat \<Rightarrow> byte list \<Rightarrow> 'a list outcome" where
  "decode_all dec fuel [] = Inr []"
| "decode_all dec 0 (b # bs) = Inl Diverges"
| "decode_all dec (Suc fuel) (b # bs) =
     bind_outcome (dec (b # bs)) (\<lambda>(x, n).
       bind_outcome (decode_all dec fuel (drop n (b # bs))) (\<lambda>xs. Inr (x # xs)))"

fun decode_n :: "(byte list \<Rightarrow> ('a \<times> nat) outcome) \<Rightarrow> nat \<Rightarrow> byte list \<Rightarrow> ('a list \<times> nat) outcome" where
  "decode_n dec 0 bs = Inr ([], 0)"
| "decode_n dec (Suc k) bs =
     bind_outcome (dec bs) (\<lambda>(x, n).
       bind_outcome (decode_n dec k (drop n bs)) (\<lambda>(xs, m). Inr (x # xs, n + m)))"

definition dec_pair :: "(byte list \<Rightarrow> ('a \<times> nat) outcome) \<Rightarrow> (byte list \<Rightarrow> ('b \<times> nat) outcome)
    \<Rightarrow> byte list \<Rightarrow> (('a \<times> 'b) \<times> nat) outcome" where
  "dec_pair d1 d2 bs = bind_outcome (d1 bs) (\<lambda>(a, n).
     bind_outcome (d2 (drop n bs)) (\<lambda>(b, m). Inr ((a, b), n + m)))"

definition enc_pair :: "('a \<Rightarrow> byte list) \<Rightarrow> ('b \<Rightarrow> byte list) \<Rightarrow> 'a \<times> 'b \<Rightarrow> byte list" where
  "enc_pair e1 e2 p = e1 (fst p) @ e2 (snd p)"

locale codec =
  fixes enc :: "'a \<Rightarrow> byte list"
    and dec :: "byte list \<Rightarrow> ('a \<times> nat) outcome"
    and ok :: "'a \<Rightarrow> bool"
  assumes dec_enc: "ok x \<Longrightarrow> dec (enc x @ rest) = Inr (x, length (enc x))"
    and enc_nonempty: "ok x \<Longrightarrow> enc x \<noteq> []"
begin

lemma dec_enc_nil: "ok x \<Longrightarrow> dec (enc x) = Inr (x, length (enc x))"
  using dec_enc [of x "[]"] by simp

lemma enc_inj: "ok x \<Longrightarrow> ok y \<Longrightarrow> enc x = enc y \<Longrightarrow> x = y"
  by (metis dec_enc_nil Inr_inject prod.inject)

lemma decode_n_concat:
  "\<forall>x\<in>set xs. ok x \<Longrightarrow>
   decode_n dec (length xs) (concat (map enc xs) @ rest) = Inr (xs, length (concat (map enc xs)))"
proof (induction xs)
  case (Cons x xs)
  then show ?case by (simp add: dec_enc)
qed simp

lemma decode_all_concat:
  "\<forall>x\<in>set xs. ok x \<Longrightarrow> length (concat (map enc xs)) \<le> fuel \<Longrightarrow>
   decode_all dec fuel (concat (map enc xs)) = Inr xs"
proof (induction xs arbitrary: fuel)
  case (Cons x xs)
  from Cons.prems have okx: "ok x" by simp
  obtain b bs where e: "enc x = b # bs"
    using enc_nonempty [OF okx] by (cases "enc x") auto
  with Cons.prems obtain fuel' where f: "fuel = Suc fuel'" by (cases fuel) auto
  have "decode_all dec fuel' (concat (map enc xs)) = Inr xs"
    using Cons e f by simp
  moreover have "dec (b # bs @ concat (map enc xs)) = Inr (x, Suc (length bs))"
    using dec_enc [OF okx, of "concat (map enc xs)"] by (simp add: e)
  ultimately show ?case by (simp add: e f)
qed simp

end

lemma codec_pair:
  assumes "codec e1 d1 ok1" "codec e2 d2 ok2"
  shows "codec (enc_pair e1 e2) (dec_pair d1 d2) (\<lambda>p. ok1 (fst p) \<and> ok2 (snd p))"
proof (rule codec.intro, goal_cases)
  case (1 x rest)
  then show ?case
    using codec.dec_enc [OF assms(1), of "fst x" "e2 (snd x) @ rest"]
      codec.dec_enc [OF assms(2), of "snd x" rest]
    by (simp add: enc_pair_def dec_pair_def)
next
  case (2 x)
  then show ?case using codec.enc_nonempty [OF assms(1)] by (simp add: enc_pair_def)
qed

end
