(* ===== verification/Variable_Size_Integer.thy ===== *)
theory Variable_Size_Integer
  imports Ostrich_Prelude
begin

text \<open>
  The LEB128 encodings of \<open>patch/variable_size_integer.h\<close>. Unsigned values are 64-bit words.
  A signed value is an \<open>int\<close> (an \<open>int64_t\<close>, so in the 64-bit range) on the encoding side, where
  \<open>value >>= 7\<close> is the arithmetic shift \<open>div 128\<close> and \<open>value & 0x7f\<close> is \<open>mod 128\<close>; the decoders
  accumulate in a 64-bit word as the code does. A decoder that would read past its buffer is
  undefined, and so is \<open>slice << shift\<close> for a shift by the whole width or more.
\<close>

unbundle bit_operations_syntax

section \<open>Unsigned values\<close>

function get_ULEB128_size :: "u64 \<Rightarrow> nat" where
  "get_ULEB128_size value =
     (let value' = drop_bit 7 value in if value' \<noteq> 0 then 1 + get_ULEB128_size value' else 1)"
  by pat_completeness auto

lemma unat_drop_bit_7: "unat (drop_bit 7 (v :: u64)) = unat v div 128"
  by (subst unat_drop_bit_eq) (simp add: drop_bit_eq_div)

lemma drop_bit_7_less: "drop_bit 7 (v :: u64) \<noteq> 0 \<Longrightarrow> unat (drop_bit 7 v) < unat v"
proof -
  assume "drop_bit 7 v \<noteq> 0"
  then have "0 < unat v" by (cases "v = 0") (simp_all add: unat_gt_0)
  then have "unat v div 128 < unat v" by (rule div_less_dividend [rotated]) simp
  then show ?thesis by (subst unat_drop_bit_7)
qed

termination get_ULEB128_size
  by (relation "measure unat") (auto simp: drop_bit_7_less)

function encode_ULEB128 :: "u64 \<Rightarrow> byte list" where
  "encode_ULEB128 value =
     (let b = ucast (value AND 0x7f); value' = drop_bit 7 value
      in if value' \<noteq> 0 then (b OR 0x80) # encode_ULEB128 value' else [b])"
  by pat_completeness auto

termination encode_ULEB128
  by (relation "measure unat") (auto simp: drop_bit_7_less)

declare get_ULEB128_size.simps [simp del] encode_ULEB128.simps [simp del]

fun decode_ULEB128_loop :: "u64 \<Rightarrow> nat \<Rightarrow> nat \<Rightarrow> byte list \<Rightarrow> (u64 \<times> nat) outcome" where
  "decode_ULEB128_loop value shift n [] = Inl Undefined_behaviour"
| "decode_ULEB128_loop value shift n (b # p) =
     (let slice = ucast (b AND 0x7f) :: u64
      in if shift \<ge> 64 \<or> drop_bit shift (push_bit shift slice) \<noteq> slice then Inl Runtime_error
         else let value' = value + push_bit shift slice
              in if b \<ge> 128 then decode_ULEB128_loop value' (shift + 7) (Suc n) p
                 else Inr (value', Suc n))"

definition decode_ULEB128 :: "byte list \<Rightarrow> (u64 \<times> nat) outcome" where
  "decode_ULEB128 p = decode_ULEB128_loop 0 0 0 p"

section \<open>Signed values\<close>

definition sleb_more :: "int \<Rightarrow> bool" where
  "sleb_more value =
     (let b = value mod 128; value' = value div 128
      in \<not> ((value' = 0 \<and> \<not> bit b 6) \<or> (value' = - 1 \<and> bit b 6)))"

function get_SLEB128_size :: "int \<Rightarrow> nat" where
  "get_SLEB128_size value =
     (if sleb_more value then 1 + get_SLEB128_size (value div 128) else 1)"
  by pat_completeness auto

lemma sleb_more_decreases:
  "sleb_more v \<Longrightarrow> nat (if v div 128 < 0 then - (v div 128) - 1 else v div 128)
     < nat (if v < 0 then - v - 1 else v)"
proof -
  assume m: "sleb_more v"
  have "v \<noteq> 0" "v \<noteq> - 1"
    using m by (auto simp: sleb_more_def bit_iff_odd)
  then show ?thesis by (auto simp: div_neg_pos_less0 split: if_splits) 
qed

termination get_SLEB128_size
  by (relation "measure (\<lambda>v. nat (if v < 0 then - v - 1 else v))")
    (auto dest: sleb_more_decreases split: if_splits)

function encode_SLEB128 :: "int \<Rightarrow> byte list" where
  "encode_SLEB128 value =
     (let b = word_of_int (value mod 128) :: byte
      in if sleb_more value then (b OR 0x80) # encode_SLEB128 (value div 128) else [b])"
  by pat_completeness auto

termination encode_SLEB128
  by (relation "measure (\<lambda>v. nat (if v < 0 then - v - 1 else v))")
    (auto dest: sleb_more_decreases split: if_splits)

declare get_SLEB128_size.simps [simp del] encode_SLEB128.simps [simp del]

fun decode_SLEB128_loop :: "u64 \<Rightarrow> nat \<Rightarrow> nat \<Rightarrow> byte list \<Rightarrow> (int \<times> nat) outcome" where
  "decode_SLEB128_loop value shift offset [] = Inl Undefined_behaviour"
| "decode_SLEB128_loop value shift offset (b # p) =
     (let slice = ucast (b AND 0x7f) :: u64
      in if (shift \<ge> 64 \<and> slice \<noteq> (if sint value < 0 then 0x7f else 0)) \<or>
            (shift = 63 \<and> slice \<noteq> 0 \<and> slice \<noteq> 0x7f)
         then Inl Runtime_error
         else if shift \<ge> 64 then Inl Undefined_behaviour
         else let value' = value OR push_bit shift slice; shift' = shift + 7
              in if b AND 0x80 \<noteq> 0 then decode_SLEB128_loop value' shift' (Suc offset) p
                 else if shift' < 64 \<and> b AND 0x40 \<noteq> 0
                 then Inr (sint (value' OR push_bit shift' (- 1)), Suc offset)
                 else Inr (sint value', Suc offset))"

definition decode_SLEB128 :: "byte list \<Rightarrow> (int \<times> nat) outcome" where
  "decode_SLEB128 p = decode_SLEB128_loop 0 0 0 p"

section \<open>Bit patterns of the group bytes\<close>

lemma bit_127_int: "bit (127 :: int) n \<longleftrightarrow> n < 7"
proof -
  have "(127 :: int) = mask 7" by (simp add: mask_eq_exp_minus_1)
  then show ?thesis by (simp only: bit_mask_iff) (auto simp: possible_bit_def)
qed

lemma bit_128_int: "bit (128 :: int) n \<longleftrightarrow> n = 7"
proof -
  have "(128 :: int) = push_bit 7 1" by simp
  then show ?thesis by (simp only: bit_push_bit_iff) (auto simp: bit_1_iff)
qed

lemma bit_64_int: "bit (64 :: int) n \<longleftrightarrow> n = 6"
proof -
  have "(64 :: int) = push_bit 6 1" by simp
  then show ?thesis by (simp only: bit_push_bit_iff) (auto simp: bit_1_iff)
qed

lemmas leb_bits = bit_127_int bit_128_int bit_64_int

lemma byte_payload: "(ucast ((ucast (v AND 0x7f) :: byte) AND 0x7f) :: u64) = v AND 0x7f" for v :: u64
  by (rule bit_word_eqI) (auto simp: bit_simps leb_bits)

lemma byte_payload_more: "(ucast (((ucast (v AND 0x7f) :: byte) OR 0x80) AND 0x7f) :: u64) = v AND 0x7f" for v :: u64
  by (rule bit_word_eqI) (auto simp: bit_simps leb_bits)

lemma byte_ge_128: "(128 \<le> b) = bit b 7" for b :: byte
proof -
  have "bit b 7 = bit (unat b) 7" by (simp add: bit_unsigned_iff)
  then have "bit b 7 \<longleftrightarrow> odd (unat b div 128)" by (simp only: bit_iff_odd) simp
  moreover have "unat b < 256" using unsigned_less [of b] by simp
  ultimately have "unat b div 128 < 2" by (simp add: less_mult_imp_div_less)
  then have "odd (unat b div 128) \<longleftrightarrow> 0 < unat b div 128"
    by (cases "unat b div 128 = 0") (auto simp: less_2_cases_iff)
  then show ?thesis
    using \<open>bit b 7 \<longleftrightarrow> odd (unat b div 128)\<close>
    by (simp add: word_le_nat_alt div_greater_zero_iff)
qed

lemma and_0x80: "(b AND 0x80 \<noteq> 0) = bit b 7" for b :: byte
proof -
  have "b AND 0x80 = (if bit b 7 then 0x80 else 0)"
    by (rule bit_word_eqI) (auto simp: bit_simps leb_bits)
  then show ?thesis by simp
qed

lemma and_0x40: "(b AND 0x40 \<noteq> 0) = bit b 6" for b :: byte
proof -
  have "b AND 0x40 = (if bit b 6 then 0x40 else 0)"
    by (rule bit_word_eqI) (auto simp: bit_simps leb_bits)
  then show ?thesis by simp
qed


lemma length_encode_ULEB128: "length (encode_ULEB128 v) = get_ULEB128_size v"
  by (induction v rule: encode_ULEB128.induct)
    (subst encode_ULEB128.simps, subst get_ULEB128_size.simps, simp add: Let_def)

lemma encode_ULEB128_nonempty: "encode_ULEB128 v \<noteq> []"
  by (subst encode_ULEB128.simps) (simp add: Let_def)

lemma encode_SLEB128_nonempty: "encode_SLEB128 v \<noteq> []"
  by (subst encode_SLEB128.simps) (simp add: Let_def)

section \<open>Unsigned round trip\<close>

lemma uleb_slice_sum: "(v AND 0x7f) + push_bit 7 (drop_bit 7 v) = v" for v :: u64
proof -
  have "v AND 0x7f = take_bit 7 v" by (rule bit_word_eqI) (auto simp: bit_simps leb_bits)
  then show ?thesis by (metis add.commute bits_ident)
qed

lemma unat_and_0x7f: "unat (v AND 0x7f) = unat v mod 128" for v :: u64
proof -
  have "v AND 0x7f = take_bit 7 v" by (rule bit_word_eqI) (auto simp: bit_simps leb_bits)
  then show ?thesis by (simp only: unsigned_take_bit_eq) (simp only: take_bit_eq_mod, simp)
qed

lemma shift_no_loss:
  "unat s * 2 ^ k < 2 ^ 64 \<Longrightarrow> k < 64 \<Longrightarrow> drop_bit k (push_bit k s) = s" for s :: u64
proof -
  assume a: "unat s * 2 ^ k < 2 ^ 64" and k: "k < 64"
  have "unat (push_bit k s) = unat s * 2 ^ k"
    using a by (simp only: unsigned_push_bit_eq) (simp only: push_bit_eq_mult take_bit_eq_mod, simp)
  then have "unat (drop_bit k (push_bit k s)) = unat s"
    by (subst unat_drop_bit_eq) (simp add: drop_bit_eq_div)
  then show ?thesis by (rule word_unat_eq_iff [THEN iffD2])
qed

lemma decode_encode_ULEB128_loop:
  assumes "unat v * 2 ^ sh < 2 ^ 64" "sh < 64"
  shows "decode_ULEB128_loop acc sh n (encode_ULEB128 v @ rest)
     = Inr (acc + push_bit sh v, n + length (encode_ULEB128 v))"
  using assms
proof (induction v arbitrary: acc sh n rule: encode_ULEB128.induct)
  case (1 v)
  define s where "s = v AND 0x7f"
  define v' where "v' = drop_bit 7 v"
  have us: "unat s = unat v mod 128" by (simp add: s_def unat_and_0x7f)
  have uv': "unat v' = unat v div 128" by (simp add: v'_def unat_drop_bit_7)
  have "unat s \<le> unat v" by (simp add: us)
  then have "unat s * 2 ^ sh < 2 ^ 64" using 1(2) by (meson le_less_trans mult_le_mono1)
  then have nl: "drop_bit sh (push_bit sh s) = s" using 1(3) by (rule shift_no_loss)
  have sum: "push_bit sh s + push_bit (sh + 7) v' = push_bit sh v"
  proof -
    have "push_bit sh (s + push_bit 7 v') = push_bit sh v"
      using uleb_slice_sum [of v] by (simp only: s_def v'_def)
    then show ?thesis by (simp only: push_bit_add push_bit_push_bit)
  qed
  show ?case
  proof (cases "v' = 0")
    case True
    have "decode_ULEB128_loop acc sh n (ucast s # rest) = Inr (acc + push_bit sh s, Suc n)"
      using 1(3) nl byte_payload [of v] by (simp add: byte_ge_128 s_def Let_def bit_simps leb_bits)
    moreover have "encode_ULEB128 v = [ucast s]"
      using True by (subst encode_ULEB128.simps) (simp add: s_def v'_def Let_def)
    ultimately show ?thesis using sum True by simp
  next
    case False
    then have "unat v' \<ge> 1" by (metis One_nat_def Suc_leI unat_gt_0)
    then have v128: "unat v \<ge> 128" using uv' by (simp add: div_greater_zero_iff)
    have p: "unat v' * 2 ^ (sh + 7) < 2 ^ 64"
    proof -
      have "unat v' * 2 ^ (sh + 7) = unat v div 128 * 128 * 2 ^ sh" by (simp add: uv' power_add)
      also have "\<dots> \<le> unat v * 2 ^ sh" by simp
      finally show ?thesis using 1(2) by linarith
    qed
    have sh7: "sh + 7 < 64"
    proof (rule ccontr)
      assume "\<not> sh + 7 < 64"
      then have "(2::nat) ^ 64 \<le> 2 ^ (sh + 7)" by (intro power_increasing) auto
      also have "\<dots> \<le> unat v' * 2 ^ (sh + 7)" using \<open>unat v' \<ge> 1\<close> by simp
      finally show False using p by simp
    qed
    have e: "encode_ULEB128 v = (ucast s OR 0x80) # encode_ULEB128 v'"
      using False by (subst encode_ULEB128.simps) (simp add: s_def v'_def Let_def)
    have "decode_ULEB128_loop acc sh n (((ucast s :: byte) OR 0x80) # encode_ULEB128 v' @ rest)
        = decode_ULEB128_loop (acc + push_bit sh s) (sh + 7) (Suc n) (encode_ULEB128 v' @ rest)"
      using 1(3) nl byte_payload_more [of v] by (simp add: byte_ge_128 s_def Let_def bit_simps leb_bits)
    also have "\<dots> = Inr (acc + push_bit sh s + push_bit (sh + 7) v', Suc n + length (encode_ULEB128 v'))"
      using 1(1) [OF refl refl, folded v'_def, OF False p sh7] .
    finally show ?thesis using e sum by (simp add: add.assoc)
  qed
qed

lemma decode_encode_ULEB128:
  "decode_ULEB128 (encode_ULEB128 v @ rest) = Inr (v, length (encode_ULEB128 v))"
  using decode_encode_ULEB128_loop [of v 0 0 0 rest] unsigned_less [of v] by (simp add: decode_ULEB128_def)


section \<open>Signed round trip\<close>

lemma length_encode_SLEB128: "length (encode_SLEB128 v) = get_SLEB128_size v"
  by (induction v rule: encode_SLEB128.induct)
    (subst encode_SLEB128.simps, subst get_SLEB128_size.simps, simp add: Let_def)

lemma sleb_more_range:
  "- (2 ^ k) \<le> v \<Longrightarrow> v < 2 ^ k \<Longrightarrow> sleb_more v \<Longrightarrow> 6 < k"
proof (rule ccontr)
  assume r: "- (2 ^ k) \<le> v" "v < 2 ^ k" "sleb_more v" "\<not> 6 < k"
  then have "(2 :: int) ^ k \<le> 2 ^ 6" by (intro power_increasing) auto
  then have "- 64 \<le> v" "v < 64" using r by auto
  then consider "0 \<le> v" "v < 64" | "v < 0" "- 64 \<le> v" by linarith
  then show False
  proof cases
    case 1
    then have "v mod 128 = v" "v div 128 = 0" "v div 64 = 0" by auto
    then show False using r(3) by (simp add: sleb_more_def bit_iff_odd)
  next
    case 2
    then have q: "v div 128 = - 1" by (intro int_div_pos_eq [of v 128 "- 1" "v + 128"]) auto
    then have m: "v mod 128 = v + 128" using mult_div_mod_eq [of 128 v] by simp
    have "(v + 128) div 64 = 1"
      using 2 by (intro int_div_pos_eq [of "v + 128" 64 1 "v + 64"]) auto
    then show False using r(3) q m by (simp add: sleb_more_def bit_iff_odd)
  qed
qed

lemma sleb_div_range:
  assumes "- (2 ^ (k + 7)) \<le> v" "v < 2 ^ (k + 7)"
  shows "- (2 ^ k) \<le> v div 128" "v div 128 < (2 ^ k :: int)"
proof -
  have "v = 128 * (v div 128) + v mod 128" "0 \<le> v mod 128" "v mod 128 < 128" by auto
  moreover have "(2 :: int) ^ (k + 7) = 128 * 2 ^ k" by (simp add: power_add)
  ultimately show "- (2 ^ k) \<le> v div 128" "v div 128 < (2 ^ k :: int)" using assms by linarith+
qed

text \<open>The seven payload bits and the rest of a value, as 64-bit patterns.\<close>

lemma sleb_split:
  "(word_of_int (v mod 128) :: u64) OR push_bit 7 (word_of_int (v div 128)) = word_of_int v"
proof -
  have m: "v mod 128 = take_bit 7 v" "v div 128 = drop_bit 7 v"
    by (simp_all add: take_bit_eq_mod drop_bit_eq_div)
  show ?thesis unfolding m by (rule bit_word_eqI) (auto simp: bit_simps)
qed

lemma sleb_payload: 
  "(ucast ((word_of_int (v mod 128) :: byte) AND 0x7f) :: u64) = word_of_int (v mod 128)"
  "(ucast (((word_of_int (v mod 128) :: byte) OR 0x80) AND 0x7f) :: u64) = word_of_int (v mod 128)"
proof -
  have m: "v mod 128 = take_bit 7 v" by (simp add: take_bit_eq_mod)
  show "(ucast ((word_of_int (v mod 128) :: byte) AND 0x7f) :: u64) = word_of_int (v mod 128)"
    unfolding m by (rule bit_word_eqI) (auto simp: bit_simps leb_bits)
  show "(ucast (((word_of_int (v mod 128) :: byte) OR 0x80) AND 0x7f) :: u64) = word_of_int (v mod 128)"
    unfolding m by (rule bit_word_eqI) (auto simp: bit_simps leb_bits)
qed


lemma decode_encode_SLEB128_loop:
  assumes "- (2 ^ (63 - sh)) \<le> v" "v < 2 ^ (63 - sh)" "sh \<le> 63"
  shows "decode_SLEB128_loop w sh n (encode_SLEB128 v @ rest)
     = Inr (sint (w OR push_bit sh (word_of_int v)), n + length (encode_SLEB128 v))"
  using assms
proof (induction v arbitrary: w sh n rule: encode_SLEB128.induct)
  case (1 v)
  define b where "b = (word_of_int (v mod 128) :: byte)"
  define s where "s = (word_of_int (v mod 128) :: u64)"
  have pay: "(ucast (b AND 0x7f) :: u64) = s" "(ucast ((b OR 0x80) AND 0x7f) :: u64) = s"
    by (simp_all only: b_def s_def sleb_payload)
  have split: "push_bit sh s OR push_bit (sh + 7) (word_of_int (v div 128))
      = push_bit sh (word_of_int v)"
    using sleb_split [of v] by (simp only: s_def flip: push_bit_or push_bit_push_bit)
  have last: "s = 0 \<or> s = 0x7f" if "sh = 63"
  proof -
    have "v = 0 \<or> v = - 1" using 1(2,3) that by auto
    then show ?thesis by (auto simp: s_def)
  qed
  have nothrow: "\<not> ((sh \<ge> 64 \<and> s \<noteq> (if sint w < 0 then 0x7f else 0)) \<or> (sh = 63 \<and> s \<noteq> 0 \<and> s \<noteq> 0x7f))"
    using 1(4) last by auto
  have sh: "\<not> 64 \<le> sh" using 1(4) by simp
  have b67: "\<not> bit b 7" "bit (b OR 0x80) 7" "bit b 6 = bit (v mod 128) 6"
  proof -
    have m: "v mod 128 = take_bit 7 v" by (simp add: take_bit_eq_mod)
    show "\<not> bit b 7" "bit (b OR 0x80) 7" "bit b 6 = bit (v mod 128) 6"
      unfolding b_def m by (auto simp: bit_simps leb_bits)
  qed
  show ?case
  proof (cases "sleb_more v")
    case False
    have e: "encode_SLEB128 v = [b]"
      using False by (subst encode_SLEB128.simps) (simp add: b_def Let_def)
    have top: "push_bit (sh + 7) (word_of_int (v div 128)) = (if sh + 7 < 64 \<and> bit b 6 then push_bit (sh + 7) (- 1) else (0 :: u64))"
    proof -
      from False have "v div 128 = 0 \<and> \<not> bit b 6 \<or> v div 128 = - 1 \<and> bit b 6"
        unfolding sleb_more_def Let_def b67(3) by blast
      moreover have "push_bit k x = (0 :: u64)" if "64 \<le> k" for k x
        using that by (intro bit_word_eqI) (auto simp: bit_simps)
      ultimately show ?thesis
        by (cases "sh + 7 < 64") (auto simp del: push_bit_minus_one_eq_not_mask)
    qed
    show ?thesis
    proof (cases "sh + 7 < 64 \<and> bit b 6")
      case True
      then have W: "push_bit sh s OR push_bit (sh + 7) (- 1) = push_bit sh (word_of_int v)"
        using split top by (simp del: push_bit_minus_one_eq_not_mask)
      from True nothrow sh pay(1) b67(1) show ?thesis
        by (simp add: e Let_def and_0x80 and_0x40 or.assoc W del: push_bit_minus_one_eq_not_mask)
    next
      case False
      then have W: "push_bit sh s = push_bit sh (word_of_int v)"
        using split top by (simp split: if_splits)
      have "sint (w OR push_bit sh s) = sint (w OR push_bit sh (word_of_int v))"
        by (simp only: W)
      moreover have "decode_SLEB128_loop w sh n (b # rest) = Inr (sint (w OR push_bit sh s), Suc n)"
      proof (cases "bit b 6")
        case True
        with False have "\<not> sh + 7 < 64" by simp
        with True nothrow sh pay(1) b67(1) show ?thesis
          by (simp add: Let_def and_0x80 and_0x40 del: push_bit_minus_one_eq_not_mask)
      next
        case False
        with nothrow sh pay(1) b67(1) show ?thesis
          by (simp add: Let_def and_0x80 and_0x40 del: push_bit_minus_one_eq_not_mask)
      qed
      ultimately show ?thesis by (simp add: e)
    qed
  next
    case True
    have e: "encode_SLEB128 v = (b OR 0x80) # encode_SLEB128 (v div 128)"
      using True by (subst encode_SLEB128.simps) (simp add: b_def Let_def)
    have k: "6 < 63 - sh" using sleb_more_range 1(2,3) True by blast
    then have q: "63 - (sh + 7) + 7 = 63 - sh" and k': "\<not> 64 \<le> sh" "sh \<noteq> 63" by simp_all
    note r = sleb_div_range [of "63 - (sh + 7)" v, unfolded q, OF 1(2,3)]
    have "decode_SLEB128_loop w sh n ((b OR 0x80) # encode_SLEB128 (v div 128) @ rest)
       = decode_SLEB128_loop (w OR push_bit sh s) (sh + 7) (Suc n) (encode_SLEB128 (v div 128) @ rest)"
      using k' pay(2) b67(2) by (simp add: Let_def and_0x80)
    also have "\<dots> = Inr (sint ((w OR push_bit sh s) OR push_bit (sh + 7) (word_of_int (v div 128))),
        Suc n + length (encode_SLEB128 (v div 128)))"
      using 1(1) [OF refl True r] k by simp
    finally show ?thesis using split by (simp add: e or.assoc)
  qed
qed

lemma decode_encode_SLEB128:
  assumes "int64_range v"
  shows "decode_SLEB128 (encode_SLEB128 v @ rest) = Inr (v, length (encode_SLEB128 v))"
proof -
  have "sint (word_of_int v :: u64) = v"
    using assms by (simp add: sint_sbintrunc' signed_take_bit_int_eq_self)
  then show ?thesis
    using decode_encode_SLEB128_loop [of 0 v 0 0 rest] assms by (simp add: decode_SLEB128_def)
qed


section \<open>Sizes\<close>

lemma get_ULEB128_size_bound: "unat v < 128 ^ Suc k \<Longrightarrow> get_ULEB128_size v \<le> Suc k"
proof (induction k arbitrary: v)
  case 0
  then have "unat (drop_bit 7 v) = 0" by (simp add: unat_drop_bit_7)
  then have "drop_bit 7 v = 0" by (simp only: unat_eq_0)
  then show ?case by (subst get_ULEB128_size.simps) (simp add: Let_def)
next
  case (Suc k)
  then have "unat (drop_bit 7 v) < 128 ^ Suc k"
    by (simp add: unat_drop_bit_7 less_mult_imp_div_less mult.commute)
  then show ?case using Suc.IH [of "drop_bit 7 v"]
    by (subst get_ULEB128_size.simps) (simp add: Let_def)
qed

lemma get_SLEB128_size_bound:
  "- (2 ^ (7 * k + 6)) \<le> v \<Longrightarrow> v < 2 ^ (7 * k + 6) \<Longrightarrow> get_SLEB128_size v \<le> Suc k"
proof (induction k arbitrary: v)
  case 0
  then have "\<not> sleb_more v" using sleb_more_range [of 6 v] by auto
  then show ?case by (subst get_SLEB128_size.simps) simp
next
  case (Suc k)
  have "7 * Suc k + 6 = 7 * k + 6 + 7" by simp
  then have "- (2 ^ (7 * k + 6)) \<le> v div 128" "v div 128 < 2 ^ (7 * k + 6)"
    using sleb_div_range [of "7 * k + 6" v] Suc.prems by simp_all
  then show ?case using Suc.IH [of "v div 128"] by (subst get_SLEB128_size.simps) simp
qed

lemma get_ULEB128_size_max: "get_ULEB128_size (- 1) = 10"
  by code_simp

lemma get_SLEB128_size_INT_MAX: "get_SLEB128_size INT_MAX = 5"
  by code_simp

lemma get_SLEB128_size_LONG_MAX: "get_SLEB128_size (2 ^ 63 - 1) = 10"
  by code_simp

section \<open>The codecs\<close>

interpretation uleb: codec encode_ULEB128 decode_ULEB128 "\<lambda>_. True"
  by unfold_locales (simp_all add: decode_encode_ULEB128 encode_ULEB128_nonempty)

interpretation sleb: codec encode_SLEB128 decode_SLEB128 int64_range
  by unfold_locales (simp_all add: decode_encode_SLEB128 encode_SLEB128_nonempty)

definition decode_int :: "byte list \<Rightarrow> (int \<times> nat) outcome" where
  "decode_int p = bind_outcome (decode_SLEB128 p) (\<lambda>(v, n). Inr (to_int32 v, n))"

interpretation sleb32: codec encode_SLEB128 decode_int int32_range
proof
  fix v rest assume r: "int32_range v"
  then have "int64_range v" by (auto simp: INT_MAX_def INT_MIN_def)
  then show "decode_int (encode_SLEB128 v @ rest) = Inr (v, length (encode_SLEB128 v))"
    using r by (simp add: decode_int_def sleb.dec_enc)
  show "encode_SLEB128 v \<noteq> []" by (rule encode_SLEB128_nonempty)
qed


section \<open>Decoding never wraps\<close>

text \<open>The number a group of bytes denotes: seven bits per byte, least significant first, up to the
  first byte without the continuation bit.\<close>

fun uleb_value :: "byte list \<Rightarrow> nat" where
  "uleb_value [] = 0"
| "uleb_value (b # p) = unat b mod 128 + (if b \<ge> 128 then 128 * uleb_value p else 0)"

lemma unat_slice: "unat (ucast (b AND 0x7f) :: u64) = unat b mod 128" for b :: byte
proof -
  have "b AND 0x7f = take_bit 7 b" by (rule bit_word_eqI) (auto simp: bit_simps leb_bits)
  then have "unat (b AND 0x7f) = unat b mod 128"
    by (simp only: unsigned_take_bit_eq) (simp only: take_bit_eq_mod, simp)
  then show ?thesis by (simp add: unsigned_ucast_eq take_bit_nat_eq_self_iff)
qed

lemma unat_push_bit_no_loss:
  fixes s :: u64
  assumes "drop_bit k (push_bit k s) = s" "k < 64"
  shows "unat (push_bit k s) = unat s * 2 ^ k" "unat s * 2 ^ k < 2 ^ 64"
proof -
  have p: "unat (push_bit k s) = (unat s * 2 ^ k) mod 2 ^ 64"
    by (simp only: unsigned_push_bit_eq) (simp only: push_bit_eq_mult take_bit_eq_mod, simp)
  then have le: "unat (push_bit k s) \<le> unat s * 2 ^ k" by (metis mod_less_eq_dividend)
  have "unat s = unat (push_bit k s) div 2 ^ k"
    using assms(1) by (metis unat_drop_bit_eq drop_bit_eq_div)
  then have "unat s * 2 ^ k \<le> unat (push_bit k s)" by (metis div_times_less_eq_dividend)
  with le show e: "unat (push_bit k s) = unat s * 2 ^ k" by simp
  have "unat (push_bit k s) < 2 ^ 64" using unsigned_less [of "push_bit k s"] by simp
  with e show "unat s * 2 ^ k < 2 ^ 64" by simp
qed

lemma decode_ULEB128_loop_value:
  assumes "decode_ULEB128_loop acc sh n p = Inr (v, m)" "unat acc < 2 ^ sh"
  shows "unat v = unat acc + 2 ^ sh * uleb_value p"
  using assms
proof (induction acc sh n p rule: decode_ULEB128_loop.induct)
  case (2 acc sh n b p)
  define s where "s = (ucast (b AND 0x7f) :: u64)"
  have us: "unat s = unat b mod 128" by (simp only: s_def unat_slice)
  from 2(2) have k: "sh < 64" "drop_bit sh (push_bit sh s) = s"
    by (auto simp: s_def Let_def split: if_splits)
  note pb = unat_push_bit_no_loss [OF k(2,1)]
  have "Suc (unat s) * 2 ^ sh \<le> 2 ^ 64"
  proof -
    have e: "(2 :: nat) ^ 64 = 2 ^ (64 - sh) * 2 ^ sh"
      using k(1) by (simp only: flip: power_add) simp
    then have "unat s < 2 ^ (64 - sh)" using pb(2) by (simp only: mult_less_cancel2)
    then show ?thesis unfolding e by (intro mult_right_mono) auto
  qed
  then have "unat acc + unat (push_bit sh s) < 2 ^ 64" using 2(3) pb(1) by simp
  then have ua: "unat (acc + push_bit sh s) = unat acc + unat s * 2 ^ sh"
    using pb(1) by (simp add: unat_word_ariths)
  show ?case
  proof (cases "b \<ge> 128")
    case True
    have "Suc (unat s) \<le> 128" by (simp add: us Suc_leI)
    then have "Suc (unat s) * 2 ^ sh \<le> 128 * 2 ^ sh" by (rule mult_right_mono) simp
    moreover have "(2 :: nat) ^ (sh + 7) = 128 * 2 ^ sh" by (simp add: power_add)
    moreover have "Suc (unat s) * 2 ^ sh = 2 ^ sh + unat s * 2 ^ sh" by simp
    ultimately have "unat (acc + push_bit sh s) < 2 ^ (sh + 7)" using 2(3) ua by linarith
    moreover have "decode_ULEB128_loop (acc + push_bit sh s) (sh + 7) (Suc n) p = Inr (v, m)"
      using 2(2) True k by (simp add: s_def Let_def)
    ultimately have "unat v = unat (acc + push_bit sh s) + 2 ^ (sh + 7) * uleb_value p"
      using 2(1) [OF refl _ refl True] k unfolding s_def by auto
    then show ?thesis using True ua us by (simp add: power_add algebra_simps)
  next
    case False
    then have "v = acc + push_bit sh s" using 2(2) k by (simp add: s_def Let_def)
    then show ?thesis using False ua us by simp
  qed
qed simp

section \<open>Properties\<close>

text \<open>C1: Unsigned LEB128: decoding what \<open>encode_ULEB128\<close> pushed returns the value and the number
  of bytes, which is \<open>get_ULEB128_size\<close>; no 64-bit value takes more bytes than
  \<open>get_ULEB128_size(std::numeric_limits<size_t>::max())\<close>, the size every buffer is allocated with.\<close>

theorem ULEB128_roundtrip:
  "decode_ULEB128 (encode_ULEB128 v @ rest) = Inr (v, get_ULEB128_size v) \<and>
   length (encode_ULEB128 v) = get_ULEB128_size v \<and> get_ULEB128_size v \<le> get_ULEB128_size (- 1)"
proof -
  have "unat v < 2 ^ 64" using unsigned_less [of v] by simp
  also have "(2 :: nat) ^ 64 \<le> 128 ^ Suc 9" by simp
  finally show ?thesis
    using get_ULEB128_size_bound [of v 9]
    by (simp add: decode_encode_ULEB128 length_encode_ULEB128 get_ULEB128_size_max)
qed

text \<open>C2: Signed LEB128: every \<open>int64_t\<close> survives the round trip, its size is \<open>get_SLEB128_size\<close>,
  and an \<open>int\<close> never takes more than the \<open>get_SLEB128_size(INT_MAX)\<close> bytes buffers reserve.\<close>

theorem SLEB128_roundtrip:
  assumes "int64_range v"
  shows "decode_SLEB128 (encode_SLEB128 v @ rest) = Inr (v, get_SLEB128_size v) \<and>
    (int32_range v \<longrightarrow> get_SLEB128_size v \<le> get_SLEB128_size INT_MAX)"
  unfolding get_SLEB128_size_INT_MAX
  using decode_encode_SLEB128 [OF assms] get_SLEB128_size_bound [of 4 v]
  by (auto simp: length_encode_SLEB128 INT_MAX_def INT_MIN_def)

theorem SLEB128_roundtrip_witness:
  "decode_SLEB128 (encode_SLEB128 (- 123456) @ [0]) = Inr (- 123456, get_SLEB128_size (- 123456))"
  using SLEB128_roundtrip [of "- 123456" "[0]"] by simp

text \<open>C3: The unsigned decoder never wraps: on any bytes, whenever it returns a value, that value is
  the mathematical number the groups denote (too large a number is the \<open>runtime_error\<close>).\<close>

theorem decode_ULEB128_exact:
  assumes "decode_ULEB128 p = Inr (v, n)"
  shows "unat v = uleb_value p"
  using decode_ULEB128_loop_value [of 0 0 0 p v n] assms by (simp add: decode_ULEB128_def)

theorem decode_ULEB128_exact_witness:
  "decode_ULEB128 [0xe5, 0x8e, 0x26, 7] = Inr (624485, 3) \<and> unat (624485 :: u64) = uleb_value [0xe5, 0x8e, 0x26, 7]"
proof -
  have "decode_ULEB128 [0xe5, 0x8e, 0x26, 7] = Inr (624485, 3)" by code_simp
  then show ?thesis using decode_ULEB128_exact by blast
qed

end
