(* ===== verification/Triple.thy ===== *)
theory Triple
  imports Variable_Size_Integer "HOL-Library.List_Lexorder" "HOL-Library.Char_ord"
begin

text \<open>
  The triples of \<open>patch/triple.{h,cc}\<close>: \<open>Triple\<close> (three dictionary ids, 0 is the blank of a
  pattern), its byte format, pattern matching and hash; \<open>TripleVersion\<close>, \<open>StringTriple\<close>,
  \<open>TripleVersions\<close> and \<open>TripleDelta\<close>. A pointer to a dictionary is a value of a type parameter
  \<open>'d\<close>, with \<open>None\<close> for \<open>nullptr\<close>.
\<close>

section \<open>Identifier triples\<close>

record triple =
  subject :: u64
  predicate :: u64
  object :: u64

definition default_triple :: triple where
  "default_triple = \<lparr> subject = 0, predicate = 0, object = 0 \<rparr>"

definition mk_triple :: "u64 \<Rightarrow> u64 \<Rightarrow> u64 \<Rightarrow> triple" where
  "mk_triple s p ob = \<lparr> subject = s, predicate = p, object = ob \<rparr>"

lemma mk_triple_sel [simp]:
  "subject (mk_triple s p ob) = s" "predicate (mk_triple s p ob) = p" "object (mk_triple s p ob) = ob"
  by (simp_all add: mk_triple_def)

lemma mk_triple_inject [simp]:
  "mk_triple s p ob = mk_triple s' p' ob' \<longleftrightarrow> s = s' \<and> p = p' \<and> ob = ob'"
  by (auto simp: mk_triple_def)

lemma mk_triple_collapse [simp]: "mk_triple (subject t) (predicate t) (object t) = t"
  by (simp add: mk_triple_def)

lemma triple_cases [cases type: triple_ext]:
  obtains s p ob where "t = mk_triple s p ob"
  by (metis mk_triple_collapse)

definition triple_eq :: "triple \<Rightarrow> triple \<Rightarrow> bool" where
  "triple_eq lhs rhs \<longleftrightarrow> subject lhs = subject rhs \<and> predicate lhs = predicate rhs \<and> object lhs = object rhs"

lemma triple_eq_iff: "triple_eq a b \<longleftrightarrow> a = b"
  by (auto simp: triple_eq_def)

definition pattern_match_triple :: "triple \<Rightarrow> triple \<Rightarrow> bool" where
  "pattern_match_triple t triple_pattern \<longleftrightarrow>
     (subject triple_pattern = 0 \<or> subject triple_pattern = subject t) \<and>
     (predicate triple_pattern = 0 \<or> predicate triple_pattern = predicate t) \<and>
     (object triple_pattern = 0 \<or> object triple_pattern = object t)"

definition is_all_matching_pattern :: "triple \<Rightarrow> bool" where
  "is_all_matching_pattern triple_pattern \<longleftrightarrow>
     subject triple_pattern = 0 \<and> predicate triple_pattern = 0 \<and> object triple_pattern = 0"

definition triple_hash :: "triple \<Rightarrow> u64" where
  "triple_hash t = drop_bit 1 (subject t XOR push_bit 1 (predicate t)) XOR push_bit 1 (object t)"

lemma pattern_match_default [simp]: "pattern_match_triple t (mk_triple 0 0 0)"
  by (simp add: pattern_match_triple_def)

lemma pattern_match_self [simp]: "pattern_match_triple t t"
  by (simp add: pattern_match_triple_def)

lemma is_all_matching_pattern_alt: "is_all_matching_pattern p \<longleftrightarrow> p = mk_triple 0 0 0"
  by (cases p) (auto simp: is_all_matching_pattern_def)

text \<open>Lexicographic order of the components, the one \<open>SPO\<close> order compares in.\<close>

instantiation triple_ext :: (linorder) linorder
begin

definition less_eq_triple_ext :: "'a triple_ext \<Rightarrow> 'a triple_ext \<Rightarrow> bool" where
  "less_eq_triple_ext a b \<longleftrightarrow>
     subject a < subject b \<or> subject a = subject b \<and>
     (predicate a < predicate b \<or> predicate a = predicate b \<and>
     (object a < object b \<or> object a = object b \<and> more a \<le> more b))"

definition less_triple_ext :: "'a triple_ext \<Rightarrow> 'a triple_ext \<Rightarrow> bool" where
  "less_triple_ext a b \<longleftrightarrow>
     subject a < subject b \<or> subject a = subject b \<and>
     (predicate a < predicate b \<or> predicate a = predicate b \<and>
     (object a < object b \<or> object a = object b \<and> more a < more b))"

instance
  by intro_classes (auto simp: less_eq_triple_ext_def less_triple_ext_def)

end

section \<open>Byte format\<close>

definition serialize_triple :: "triple \<Rightarrow> byte list" where
  "serialize_triple t =
     encode_ULEB128 (subject t) @ encode_ULEB128 (predicate t) @ encode_ULEB128 (object t)"

definition triple_alloc_size :: nat where
  "triple_alloc_size = get_ULEB128_size (- 1) * 3"

text \<open>The decoded triple with the number of bytes read; \<open>deserialize_triple\<close> keeps the triple.\<close>

definition decode_triple :: "byte list \<Rightarrow> (triple \<times> nat) outcome" where
  "decode_triple data =
     bind_outcome (decode_ULEB128 data) (\<lambda>(s, n1).
     bind_outcome (decode_ULEB128 (drop n1 data)) (\<lambda>(p, n2).
     bind_outcome (decode_ULEB128 (drop (n1 + n2) data)) (\<lambda>(ob, n3).
       Inr (mk_triple s p ob, n1 + n2 + n3))))"

definition deserialize_triple :: "byte list \<Rightarrow> triple outcome" where
  "deserialize_triple data = bind_outcome (decode_triple data) (\<lambda>(t, n). Inr t)"

lemma decode_serialize_triple:
  "decode_triple (serialize_triple t @ rest) = Inr (t, length (serialize_triple t))"
  by (simp add: serialize_triple_def decode_triple_def decode_encode_ULEB128)

interpretation triple_bytes: codec serialize_triple decode_triple "\<lambda>_. True"
proof
  show "serialize_triple t \<noteq> []" for t
    by (simp add: serialize_triple_def encode_ULEB128_nonempty)
qed (rule decode_serialize_triple)

lemma get_ULEB128_size_le_10: "get_ULEB128_size v \<le> 10"
proof -
  have "unat v < 2 ^ 64" using unsigned_less [of v] by simp
  also have "(2 :: nat) ^ 64 \<le> 128 ^ Suc 9" by simp
  finally show ?thesis using get_ULEB128_size_bound [of v 9] by simp
qed

lemma serialize_triple_length: "length (serialize_triple t) \<le> triple_alloc_size"
  using get_ULEB128_size_le_10 [of "subject t"] get_ULEB128_size_le_10 [of "predicate t"]
    get_ULEB128_size_le_10 [of "object t"]
  by (simp add: serialize_triple_def triple_alloc_size_def get_ULEB128_size_max length_encode_ULEB128)

section \<open>Triples annotated with a version\<close>

record triple_version =
  tv_patch_id :: int
  tv_triple :: triple

definition default_triple_version :: triple_version where
  "default_triple_version = \<lparr> tv_patch_id = 0, tv_triple = default_triple \<rparr>"

definition serialize_triple_version :: "triple_version \<Rightarrow> byte list" where
  "serialize_triple_version v = encode_SLEB128 (tv_patch_id v) @ serialize_triple (tv_triple v)"

definition triple_version_alloc_size :: nat where
  "triple_version_alloc_size = get_SLEB128_size INT_MAX + get_ULEB128_size (- 1) * 3"

definition deserialize_triple_version :: "byte list \<Rightarrow> triple_version outcome" where
  "deserialize_triple_version data =
     bind_outcome (decode_int data) (\<lambda>(patch_id, offset).
     bind_outcome (deserialize_triple (drop offset data)) (\<lambda>t.
       Inr \<lparr> tv_patch_id = patch_id, tv_triple = t \<rparr>))"

lemma get_SLEB128_size_le_5: "int32_range v \<Longrightarrow> get_SLEB128_size v \<le> 5"
  using get_SLEB128_size_bound [of 4 v] by (auto simp: INT_MAX_def INT_MIN_def)

section \<open>Strings\<close>

text \<open>\<open>std::to_string\<close> of an unsigned number, and the sign of \<open>std::string::compare\<close>.\<close>

fun show_nat :: "nat \<Rightarrow> string" where
  "show_nat n = (if n < 10 then [char_of (48 + n)] else show_nat (n div 10) @ [char_of (48 + n mod 10)])"

declare show_nat.simps [simp del]

definition string_compare :: "string \<Rightarrow> string \<Rightarrow> int" where
  "string_compare a b = (if a < b then - 1 else if a = b then 0 else 1)"

definition triple_to_string :: "triple \<Rightarrow> string" where
  "triple_to_string t =
     show_nat (unat (subject t)) @ '' '' @ show_nat (unat (predicate t)) @ '' '' @
     show_nat (unat (object t)) @ ''.''"

record string_triple =
  st_subject :: string
  st_predicate :: string
  st_object :: string

definition default_string_triple :: string_triple where
  "default_string_triple = \<lparr> st_subject = [], st_predicate = [], st_object = [] \<rparr>"

definition string_triple_to_string :: "string_triple \<Rightarrow> string" where
  "string_triple_to_string t = st_subject t @ '' '' @ st_predicate t @ '' '' @ st_object t @ ''.''"

definition string_triple_eq :: "string_triple \<Rightarrow> string_triple \<Rightarrow> bool" where
  "string_triple_eq t other \<longleftrightarrow>
     st_subject t = st_subject other \<and> st_predicate t = st_predicate other \<and> st_object t = st_object other"

definition string_triple_neq :: "string_triple \<Rightarrow> string_triple \<Rightarrow> bool" where
  "string_triple_neq t other \<longleftrightarrow> \<not> string_triple_eq t other"

definition string_triple_less :: "string_triple \<Rightarrow> string_triple \<Rightarrow> bool" where
  "string_triple_less t other \<longleftrightarrow> string_triple_to_string t < string_triple_to_string other"

lemma string_compare_less [simp]: "string_compare a b < 0 \<longleftrightarrow> a < b"
  by (simp add: string_compare_def)

lemma string_compare_zero [simp]: "string_compare a b = 0 \<longleftrightarrow> a = b"
  by (auto simp: string_compare_def)

lemma string_compare_swap: "string_compare b a = - string_compare a b"
  by (auto simp: string_compare_def)

section \<open>Query results\<close>

record 'd triple_versions =
  tvs_triple :: triple
  tvs_versions :: "int list"
  tvs_dict :: "'d option"

definition default_triple_versions :: "'d triple_versions" where
  "default_triple_versions = \<lparr> tvs_triple = default_triple, tvs_versions = [], tvs_dict = None \<rparr>"

record triple_versions_string =
  tvss_triple :: string_triple
  tvss_versions :: "int list"

definition triple_versions_string_less :: "triple_versions_string \<Rightarrow> triple_versions_string \<Rightarrow> bool" where
  "triple_versions_string_less t other \<longleftrightarrow> string_triple_less (tvss_triple t) (tvss_triple other)"

record 'd triple_delta =
  td_triple :: triple
  td_addition :: bool
  td_dict :: "'d option"

definition default_triple_delta :: "'d triple_delta" where
  "default_triple_delta = \<lparr> td_triple = default_triple, td_addition = True, td_dict = None \<rparr>"

section \<open>Properties\<close>

text \<open>C4: \<open>Triple::deserialize\<close> reads back what \<open>Triple::serialize\<close> wrote, whatever bytes
  follow, and \<open>serialize\<close> never writes past the buffer of \<open>alloc_size\<close> bytes it allocates.\<close>

theorem triple_roundtrip:
  "deserialize_triple (serialize_triple t @ rest) = Inr t \<and>
   length (serialize_triple t) \<le> triple_alloc_size"
  by (simp add: deserialize_triple_def decode_serialize_triple serialize_triple_length)

text \<open>\<open>TripleVersion\<close> round trip: for every 32-bit patch id and triple, \<open>deserialize\<close> returns the
  value that was serialized, and the bytes fit in the allocated buffer.\<close>

theorem triple_version_roundtrip:
  assumes "int32_range (tv_patch_id v)"
  shows "deserialize_triple_version (serialize_triple_version v @ rest) = Inr v \<and>
    length (serialize_triple_version v) \<le> triple_version_alloc_size"
  using assms get_SLEB128_size_le_5 [OF assms] serialize_triple_length [of "tv_triple v"]
  by (simp add: deserialize_triple_version_def serialize_triple_version_def sleb32.dec_enc
      deserialize_triple_def decode_serialize_triple length_encode_SLEB128
      triple_version_alloc_size_def triple_alloc_size_def get_SLEB128_size_INT_MAX)

theorem triple_version_roundtrip_witness:
  "deserialize_triple_version (serialize_triple_version
     \<lparr> tv_patch_id = - 7, tv_triple = mk_triple 300 2 3 \<rparr> @ [1]) =
     Inr \<lparr> tv_patch_id = - 7, tv_triple = mk_triple 300 2 3 \<rparr>"
  using triple_version_roundtrip [of "\<lparr> tv_patch_id = - 7, tv_triple = mk_triple 300 2 3 \<rparr>" "[1]"]
  by (simp add: INT_MAX_def INT_MIN_def)

end
