(* ===== verification/Dictionary_Manager.thy ===== *)
theory Dictionary_Manager
  imports Triple
begin

text \<open>
  \<open>DictionaryManager\<close> of \<open>dictionary/dictionary_manager.{h,cc}\<close>: the HDT dictionary of a snapshot
  and the dictionary of the terms its patches add, as one dictionary. Ids up to \<open>maxHdtId\<close> are ids of
  the HDT dictionary, the patch dictionary's ids are shifted by \<open>maxHdtId\<close>. HDT dictionaries are
  third-party code: they are records of the answers they give (\<open>hdt_dictionary\<close>), and the patch
  dictionary's \<open>insert\<close> is the argument \<open>ins\<close> of the operations; the laws the code relies on are
  \<open>hdt_laws\<close> and \<open>plain_laws\<close>.
\<close>

section \<open>The HDT interface\<close>

datatype role = SUBJECT | PREDICATE | OBJECT

datatype dict_section = NOT_SHARED_SUBJECT | NOT_SHARED_PREDICATE | NOT_SHARED_OBJECT

record hdt_dictionary =
  hd_id_to_string :: "u64 \<Rightarrow> role \<Rightarrow> string"
  hd_string_to_id :: "string \<Rightarrow> role \<Rightarrow> u64 outcome"
  hd_nshared :: u64
  hd_number_of_elements :: u64
  hd_size :: u64
  hd_count :: "role \<Rightarrow> u64"
  hd_objects_literals :: u64
  hd_objects_not_literals :: u64
  hd_max_id :: "role \<Rightarrow> u64"
  hd_terms :: "role \<Rightarrow> string list"
  hd_shared_terms :: "string list"

type_synonym dict_insert = "hdt_dictionary \<Rightarrow> string \<Rightarrow> dict_section \<Rightarrow> hdt_dictionary"

record dictionary_manager =
  dm_hdt_dict :: hdt_dictionary
  dm_patch_dict :: hdt_dictionary
  dm_max_hdt_id :: u64

section \<open>Operations\<close>

definition dm_update_max_hdt_id :: "dictionary_manager \<Rightarrow> dictionary_manager" where
  "dm_update_max_hdt_id m =
     (let max_s = hd_max_id (dm_hdt_dict m) SUBJECT;
          max_p = hd_max_id (dm_hdt_dict m) PREDICATE;
          max_o = hd_max_id (dm_hdt_dict m) OBJECT
      in m\<lparr> dm_max_hdt_id := max max_s (max max_p max_o) \<rparr>)"

text \<open>The constructor; \<open>patch_dict\<close> is the new \<open>PlainDictionary\<close> after \<open>load\<close>.\<close>

definition dm_new :: "hdt_dictionary \<Rightarrow> hdt_dictionary \<Rightarrow> dictionary_manager" where
  "dm_new hdt_dict patch_dict =
     dm_update_max_hdt_id \<lparr> dm_hdt_dict = hdt_dict, dm_patch_dict = patch_dict, dm_max_hdt_id = 0 \<rparr>"

definition dm_id_to_string :: "u64 \<Rightarrow> role \<Rightarrow> dictionary_manager \<Rightarrow> string" where
  "dm_id_to_string i position m =
     (if i = 0 then ''''
      else if i \<le> dm_max_hdt_id m then hd_id_to_string (dm_hdt_dict m) i position
      else hd_id_to_string (dm_patch_dict m) (i - dm_max_hdt_id m) position)"

text \<open>The HDT dictionary may throw for an unknown string; the exception is swallowed.\<close>

definition dm_hdt_lookup :: "string \<Rightarrow> role \<Rightarrow> dictionary_manager \<Rightarrow> u64 option" where
  "dm_hdt_lookup str position m =
     (case hd_string_to_id (dm_hdt_dict m) str position of
        Inr i \<Rightarrow> if i > 0 then Some i else None
      | Inl e \<Rightarrow> None)"

definition dm_string_to_id :: "string \<Rightarrow> role \<Rightarrow> dictionary_manager \<Rightarrow> u64 outcome" where
  "dm_string_to_id str position m =
     (if str = '''' then Inr 0
      else case dm_hdt_lookup str position m of
        Some i \<Rightarrow> Inr i
      | None \<Rightarrow>
          bind_outcome (hd_string_to_id (dm_patch_dict m) str position) (\<lambda>i.
            if i = 0 then Inl Runtime_error else Inr (i + dm_max_hdt_id m)))"

definition section_of :: "role \<Rightarrow> dict_section" where
  "section_of position =
     (if position = SUBJECT then NOT_SHARED_SUBJECT
      else if position = PREDICATE then NOT_SHARED_PREDICATE else NOT_SHARED_OBJECT)"

definition dm_insert :: "dict_insert \<Rightarrow> string \<Rightarrow> role \<Rightarrow> dictionary_manager \<Rightarrow> (u64 \<times> dictionary_manager) outcome" where
  "dm_insert ins str position m =
     (if str = '''' then Inr (0, m)
      else case dm_hdt_lookup str position m of
        Some i \<Rightarrow> Inr (i, m)
      | None \<Rightarrow>
          bind_outcome (hd_string_to_id (dm_patch_dict m) str position) (\<lambda>original_id.
            if original_id = 0
            then let patch_dict = ins (dm_patch_dict m) str (section_of position) in
                 bind_outcome (hd_string_to_id patch_dict str position) (\<lambda>new_id.
                   Inr (new_id + dm_max_hdt_id m, m\<lparr> dm_patch_dict := patch_dict \<rparr>))
            else Inr (original_id + dm_max_hdt_id m, m)))"

text \<open>\<open>static_cast<int>\<close> of a difference of unsigned ids: the low 32 bits, read as a signed number.\<close>

definition id_difference :: "u64 \<Rightarrow> u64 \<Rightarrow> int" where
  "id_difference a b = sint (ucast (a - b) :: 32 word)"

definition dm_compare_component :: "u64 \<Rightarrow> u64 \<Rightarrow> role \<Rightarrow> dictionary_manager \<Rightarrow> int" where
  "dm_compare_component id1 id2 r m =
     (let by_string = string_compare (dm_id_to_string id1 r m) (dm_id_to_string id2 r m) in
      if id1 \<le> dm_max_hdt_id m \<and> id2 \<le> dm_max_hdt_id m
      then let shared_count = hd_nshared (dm_hdt_dict m);
               shared1 = (id1 > shared_count); shared2 = (id2 > shared_count)
           in if shared1 = shared2 then id_difference id1 id2 else by_string
      else by_string)"

text \<open>The counts of the two dictionaries together.\<close>

definition dm_number_of_elements :: "dictionary_manager \<Rightarrow> u64" where
  "dm_number_of_elements m = hd_number_of_elements (dm_hdt_dict m) + hd_number_of_elements (dm_patch_dict m)"

definition dm_size :: "dictionary_manager \<Rightarrow> u64" where
  "dm_size m = hd_size (dm_hdt_dict m) + hd_size (dm_patch_dict m)"

definition dm_count :: "role \<Rightarrow> dictionary_manager \<Rightarrow> u64" where
  "dm_count r m = hd_count (dm_hdt_dict m) r + hd_count (dm_patch_dict m) r"

definition dm_objects_literals :: "dictionary_manager \<Rightarrow> u64" where
  "dm_objects_literals m = hd_objects_literals (dm_hdt_dict m) + hd_objects_literals (dm_patch_dict m)"

definition dm_objects_not_literals :: "dictionary_manager \<Rightarrow> u64" where
  "dm_objects_not_literals m =
     hd_objects_not_literals (dm_hdt_dict m) + hd_objects_not_literals (dm_patch_dict m)"

definition dm_nshared :: "dictionary_manager \<Rightarrow> u64" where
  "dm_nshared m = hd_nshared (dm_hdt_dict m) + hd_nshared (dm_patch_dict m)"

definition dm_max_id :: "role \<Rightarrow> dictionary_manager \<Rightarrow> u64" where
  "dm_max_id r m = hd_max_id (dm_patch_dict m) r"

text \<open>\<open>DictManagerIterator\<close>: the terms left in the two iterators.\<close>

type_synonym dict_iterator = "string list \<times> string list"

definition dm_terms :: "role \<Rightarrow> dictionary_manager \<Rightarrow> dict_iterator" where
  "dm_terms r m = (hd_terms (dm_hdt_dict m) r, hd_terms (dm_patch_dict m) r)"

definition dm_shared_terms :: "dictionary_manager \<Rightarrow> dict_iterator" where
  "dm_shared_terms m = (hd_shared_terms (dm_hdt_dict m), hd_shared_terms (dm_patch_dict m))"

definition dmi_has_next :: "dict_iterator \<Rightarrow> bool" where
  "dmi_has_next it \<longleftrightarrow> fst it \<noteq> [] \<or> fst it \<noteq> []"

definition dmi_next :: "dict_iterator \<Rightarrow> (string \<times> dict_iterator) outcome" where
  "dmi_next it =
     (case it of
        (t # first, second) \<Rightarrow> Inr (t, (first, second))
      | ([], t # second) \<Rightarrow> Inr (t, ([], second))
      | ([], []) \<Rightarrow> Inl Undefined_behaviour)"

lemma sgn_difference:
  "m < n \<Longrightarrow> sgn (int m - int n) = - 1"
  "n < m \<Longrightarrow> sgn (int m - int n) = 1"
  by simp_all

lemma id_difference_exact:
  assumes "unat a < 2 ^ 31" "unat b < 2 ^ 31"
  shows "id_difference a b = int (unat a) - int (unat b)"
proof -
  define y where "y = uint a - uint b"
  have u: "int (unat a) = uint a" "int (unat b) = uint b" by simp_all
  have "int (unat a) < 2 ^ 31" "int (unat b) < 2 ^ 31"
    using assms by (metis of_nat_less_iff of_nat_numeral of_nat_power)+
  then have r: "- (2 ^ 31) \<le> y" "y < 2 ^ 31" unfolding y_def u using uint_ge_0 [of a] uint_ge_0 [of b] by linarith+
  have "id_difference a b = signed_take_bit (LENGTH(32) - Suc 0) (take_bit 64 y)"
    unfolding id_difference_def signed_ucast_eq uint_word_ariths y_def take_bit_eq_mod by simp
  also have "\<dots> = signed_take_bit 31 y" by (simp add: signed_take_bit_take_bit)
  also have "\<dots> = y" using r by (rule signed_take_bit_int_eq_self)
  finally show ?thesis using u by (simp add: y_def)
qed

section \<open>Triples of strings\<close>

text \<open>\<open>Triple(const string\&, const string\&, const string\&, dict)\<close> inserts the three terms in order.\<close>

definition insert_component ::
  "dict_insert \<Rightarrow> string \<Rightarrow> role \<Rightarrow> dictionary_manager \<Rightarrow> (u64 \<times> dictionary_manager) outcome" where
  "insert_component ins str r m = (if str \<noteq> '''' then dm_insert ins str r m else Inr (0, m))"

definition triple_of_strings ::
  "dict_insert \<Rightarrow> string \<Rightarrow> string \<Rightarrow> string \<Rightarrow> dictionary_manager \<Rightarrow> (triple \<times> dictionary_manager) outcome" where
  "triple_of_strings ins s p ob m =
     bind_outcome (insert_component ins s SUBJECT m) (\<lambda>(si, m1).
     bind_outcome (insert_component ins p PREDICATE m1) (\<lambda>(pi, m2).
     bind_outcome (insert_component ins ob OBJECT m2) (\<lambda>(oi, m3).
       Inr (mk_triple si pi oi, m3))))"

definition get_as_triple :: "dict_insert \<Rightarrow> string_triple \<Rightarrow> dictionary_manager \<Rightarrow> (triple \<times> dictionary_manager) outcome" where
  "get_as_triple ins t m = triple_of_strings ins (st_subject t) (st_predicate t) (st_object t) m"

definition subject_string :: "dictionary_manager \<Rightarrow> triple \<Rightarrow> string" where
  "subject_string m t = dm_id_to_string (subject t) SUBJECT m"

definition predicate_string :: "dictionary_manager \<Rightarrow> triple \<Rightarrow> string" where
  "predicate_string m t = dm_id_to_string (predicate t) PREDICATE m"

definition object_string :: "dictionary_manager \<Rightarrow> triple \<Rightarrow> string" where
  "object_string m t = dm_id_to_string (object t) OBJECT m"

definition triple_dict_string :: "dictionary_manager \<Rightarrow> triple \<Rightarrow> string" where
  "triple_dict_string m t =
     subject_string m t @ '' '' @ predicate_string m t @ '' '' @ object_string m t @ ''.''"

section \<open>What the code relies on\<close>

text \<open>An HDT dictionary gives a string it knows an id between 1 and the largest id of the role that
  stands for this string; ids stay below \<open>2 ^ 63\<close>.\<close>

definition hdt_laws :: "hdt_dictionary \<Rightarrow> bool" where
  "hdt_laws d \<longleftrightarrow>
     (\<forall>s r i. hd_string_to_id d s r = Inr i \<and> i > 0 \<longrightarrow> hd_id_to_string d i r = s \<and> i \<le> hd_max_id d r) \<and>
     (\<forall>r. unat (hd_max_id d r) < 2 ^ 63)"

text \<open>A \<open>PlainDictionary\<close> never throws; it answers 0 for an unknown string, and \<open>insert\<close> gives an
  unknown string an id of its own and keeps the others. \<open>valid n\<close> are the states with room for \<open>n\<close> more
  insertions, as the id space is finite.\<close>

definition plain_laws :: "dict_insert \<Rightarrow> (nat \<Rightarrow> hdt_dictionary \<Rightarrow> bool) \<Rightarrow> bool" where
  "plain_laws ins valid \<longleftrightarrow>
     (\<forall>n d s r. valid n d \<longrightarrow>
       (\<exists>i. hd_string_to_id d s r = Inr i \<and> (i > 0 \<longrightarrow> hd_id_to_string d i r = s \<and> unat i < 2 ^ 63))) \<and>
     (\<forall>n d. valid (Suc n) d \<longrightarrow> valid n d) \<and>
     (\<forall>n d s r. valid (Suc n) d \<and> s \<noteq> '''' \<and> hd_string_to_id d s r = Inr 0 \<longrightarrow>
       valid n (ins d s (section_of r)) \<and>
       hd_string_to_id (ins d s (section_of r)) s r \<noteq> Inr 0 \<and>
       (\<forall>s' r' i. hd_string_to_id d s' r' = Inr i \<and> i > 0 \<longrightarrow>
          hd_string_to_id (ins d s (section_of r)) s' r' = Inr i))"

definition dm_ok :: "(hdt_dictionary \<Rightarrow> bool) \<Rightarrow> dictionary_manager \<Rightarrow> bool" where
  "dm_ok valid m \<longleftrightarrow> hdt_laws (dm_hdt_dict m) \<and> valid (dm_patch_dict m) \<and>
     unat (dm_max_hdt_id m) < 2 ^ 63 \<and> (\<forall>r. hd_max_id (dm_hdt_dict m) r \<le> dm_max_hdt_id m)"

lemma dm_new_ok:
  assumes "hdt_laws h" "valid p"
  shows "dm_ok valid (dm_new h p)"
proof -
  define x where "x = max (hd_max_id h SUBJECT) (max (hd_max_id h PREDICATE) (hd_max_id h OBJECT))"
  have le: "hd_max_id h r \<le> x" for r by (cases r) (simp_all add: x_def le_max_iff_disj)
  have "unat (hd_max_id h r) < 2 ^ 63" for r using assms(1) unfolding hdt_laws_def by blast
  then have "unat x < 2 ^ 63" unfolding x_def max_def by simp
  then show ?thesis using assms le
    by (simp add: dm_ok_def dm_new_def dm_update_max_hdt_id_def Let_def flip: x_def)
qed

lemma shifted_id:
  assumes "unat (m :: u64) < 2 ^ 63" "0 < i" "unat i < 2 ^ 63"
  shows "i + m \<noteq> 0" "\<not> i + m \<le> m" "i + m - m = i"
proof -
  have s: "unat i + unat m < 2 ^ 64" using assms by simp
  then have u: "unat (i + m) = unat i + unat m" by (simp add: unat_word_ariths)
  have p: "0 < unat i" using assms(2) by (simp add: word_less_nat_alt)
  show "i + m \<noteq> 0" using u p by (metis add_is_0 less_irrefl unat_0)
  show "\<not> i + m \<le> m" using u p by (simp add: word_le_nat_alt)
  show "i + m - m = i" by simp
qed

lemma plain_lookup:
  assumes "plain_laws ins valid" "valid n d"
  shows "\<exists>i. hd_string_to_id d s r = Inr i \<and> (i > 0 \<longrightarrow> hd_id_to_string d i r = s \<and> unat i < 2 ^ 63)"
  using conjunct1 [OF assms(1) [unfolded plain_laws_def]] assms(2) by blast

lemma plain_insert:
  assumes "plain_laws ins valid" "valid (Suc n) d" "s \<noteq> ''''" "hd_string_to_id d s r = Inr 0"
  shows "valid n (ins d s (section_of r))" "hd_string_to_id (ins d s (section_of r)) s r \<noteq> Inr 0"
    "\<forall>s' r' i. hd_string_to_id d s' r' = Inr i \<and> i > 0 \<longrightarrow>
       hd_string_to_id (ins d s (section_of r)) s' r' = Inr i"
  using conjunct2 [OF conjunct2 [OF assms(1) [unfolded plain_laws_def]], rule_format,
      OF conjI, OF assms(2) conjI, OF assms(3,4)]
  by blast+

lemma dm_hdt_lookup_Some:
  "dm_ok valid m \<Longrightarrow> dm_hdt_lookup s r m = Some i \<Longrightarrow> dm_id_to_string i r m = s"
  unfolding dm_hdt_lookup_def dm_ok_def hdt_laws_def dm_id_to_string_def
  by (auto split: sum.splits if_splits) (meson order_trans)

lemma dm_string_to_id_sound:
  assumes "plain_laws ins valid" "dm_ok (valid n) m" "dm_string_to_id s r m = Inr i"
  shows "dm_id_to_string i r m = s"
proof (cases "s = ''''")
  case True
  then show ?thesis using assms(3) by (simp add: dm_string_to_id_def dm_id_to_string_def)
next
  case False
  show ?thesis
  proof (cases "dm_hdt_lookup s r m")
    case (Some j)
    then show ?thesis using assms False dm_hdt_lookup_Some [OF assms(2)] by (simp add: dm_string_to_id_def)
  next
    case None
    then obtain j where j: "hd_string_to_id (dm_patch_dict m) s r = Inr j" "j \<noteq> 0" "i = j + dm_max_hdt_id m"
      using assms(3) False by (auto simp: dm_string_to_id_def bind_outcome_eq_Inr split: if_splits)
    have j0: "0 < j" using j(2) by (simp add: word_gt_0)
    have "\<exists>k. hd_string_to_id (dm_patch_dict m) s r = Inr k \<and>
        (k > 0 \<longrightarrow> hd_id_to_string (dm_patch_dict m) k r = s \<and> unat k < 2 ^ 63)"
      using plain_lookup [OF assms(1)] assms(2) unfolding dm_ok_def by blast
    then have "hd_id_to_string (dm_patch_dict m) j r = s" "unat j < 2 ^ 63" using j(1) j0 by auto
    then show ?thesis using shifted_id [of "dm_max_hdt_id m" j] assms(2) j(3) j0
      by (simp add: dm_id_to_string_def dm_ok_def)
  qed
qed

lemma dm_ok_weaken: "plain_laws ins valid \<Longrightarrow> dm_ok (valid (Suc n)) m \<Longrightarrow> dm_ok (valid n) m"
  unfolding dm_ok_def plain_laws_def by blast

lemma dm_insert_result:
  assumes "plain_laws ins valid" "dm_ok (valid (Suc n)) m" "s \<noteq> ''''"
  obtains i m' where "dm_insert ins s r m = Inr (i, m')" "dm_ok (valid n) m'" "dm_string_to_id s r m' = Inr i"
    "\<forall>s' r' j. dm_string_to_id s' r' m = Inr j \<longrightarrow> dm_string_to_id s' r' m' = Inr j"
proof (cases "dm_hdt_lookup s r m")
  case (Some i)
  show ?thesis
    by (rule that [of i m]) (use Some assms dm_ok_weaken [OF assms(1,2)] in \<open>auto simp: dm_insert_def dm_string_to_id_def\<close>)
next
  case None
  have v: "valid (Suc n) (dm_patch_dict m)" using assms(2) by (simp add: dm_ok_def)
  obtain j where j: "hd_string_to_id (dm_patch_dict m) s r = Inr j"
    using plain_lookup [OF assms(1) v] by blast
  show ?thesis
  proof (cases "j = 0")
    case False
    show ?thesis
      by (rule that [of "j + dm_max_hdt_id m" m])
        (use None assms j False dm_ok_weaken [OF assms(1,2)] in \<open>auto simp: dm_insert_def dm_string_to_id_def\<close>)
  next
    case True
    define d where "d = ins (dm_patch_dict m) s (section_of r)"
    define m' where "m' = m\<lparr> dm_patch_dict := d \<rparr>"
    have d: "valid n d" "hd_string_to_id d s r \<noteq> Inr 0"
      "\<forall>s' r' i. hd_string_to_id (dm_patch_dict m) s' r' = Inr i \<and> i > 0 \<longrightarrow> hd_string_to_id d s' r' = Inr i"
      unfolding d_def using plain_insert [OF assms(1) v assms(3)] j True by blast+
    obtain k where k: "hd_string_to_id d s r = Inr k" "k \<noteq> 0"
      using plain_lookup [OF assms(1) d(1)] d(2) by metis
    have l: "dm_hdt_lookup s' r' m' = dm_hdt_lookup s' r' m" for s' r'
      by (simp add: dm_hdt_lookup_def m'_def)
    show ?thesis
    proof (rule that [of "k + dm_max_hdt_id m" m'])
      show "dm_insert ins s r m = Inr (k + dm_max_hdt_id m, m')"
        using None assms(3) j True k(1) by (simp add: dm_insert_def m'_def Let_def flip: d_def)
      show "dm_ok (valid n) m'" using assms(2) d(1) by (simp add: dm_ok_def m'_def)
      show "dm_string_to_id s r m' = Inr (k + dm_max_hdt_id m)"
        using None assms(3) k l by (simp add: dm_string_to_id_def) (simp add: m'_def)
      show "\<forall>s' r' j. dm_string_to_id s' r' m = Inr j \<longrightarrow> dm_string_to_id s' r' m' = Inr j"
        using d(3) l
        by (auto simp: dm_string_to_id_def bind_outcome_eq_Inr m'_def word_gt_0 split: if_splits option.splits)
    qed
  qed
qed


lemma insert_component_result:
  assumes "plain_laws ins valid" "dm_ok (valid (Suc n)) m"
  obtains i m' where "insert_component ins s r m = Inr (i, m')" "dm_ok (valid n) m'"
    "dm_string_to_id s r m' = Inr i"
    "\<forall>s' r' j. dm_string_to_id s' r' m = Inr j \<longrightarrow> dm_string_to_id s' r' m' = Inr j"
proof (cases "s = ''''")
  case True
  show ?thesis
    by (rule that [of 0 m])
      (use True dm_ok_weaken [OF assms] in \<open>auto simp: insert_component_def dm_string_to_id_def\<close>)
next
  case False
  show ?thesis
    by (rule dm_insert_result [OF assms False, of r]) (rule that, use False in \<open>auto simp: insert_component_def\<close>)
qed

section \<open>A dictionary of term lists\<close>

text \<open>One dictionary with these laws: the terms of a role in the order of their ids.\<close>

definition list_dictionary :: "u64 \<Rightarrow> (role \<Rightarrow> string list) \<Rightarrow> hdt_dictionary" where
  "list_dictionary shared f =
     \<lparr> hd_id_to_string = (\<lambda>i r. if 0 < i \<and> unat i \<le> length (f r) then f r ! (unat i - 1) else ''''),
       hd_string_to_id = (\<lambda>s r. let k = length (takeWhile (\<lambda>t. t \<noteq> s) (f r)) in
         if k < length (f r) then Inr (of_nat (Suc k)) else Inr 0),
       hd_nshared = shared,
       hd_number_of_elements = of_nat (length (f SUBJECT) + length (f PREDICATE) + length (f OBJECT)),
       hd_size = 0, hd_count = (\<lambda>r. of_nat (length (f r))), hd_objects_literals = 0,
       hd_objects_not_literals = of_nat (length (f OBJECT)), hd_max_id = (\<lambda>r. of_nat (length (f r))),
       hd_terms = f, hd_shared_terms = [] \<rparr>"

definition list_dict_insert :: dict_insert where
  "list_dict_insert d s sec =
     (let r = (case sec of NOT_SHARED_SUBJECT \<Rightarrow> SUBJECT | NOT_SHARED_PREDICATE \<Rightarrow> PREDICATE
                 | NOT_SHARED_OBJECT \<Rightarrow> OBJECT)
      in list_dictionary (hd_nshared d) ((hd_terms d)(r := hd_terms d r @ [s])))"

definition list_dict_valid :: "nat \<Rightarrow> hdt_dictionary \<Rightarrow> bool" where
  "list_dict_valid n d \<longleftrightarrow> d = list_dictionary (hd_nshared d) (hd_terms d) \<and>
     (\<forall>r. length (hd_terms d r) + n < 2 ^ 63)"

lemma length_takeWhile_less: "x \<in> set xs \<Longrightarrow> \<not> P x \<Longrightarrow> length (takeWhile P xs) < length xs"
  by (induction xs) auto

lemma takeWhile_neq_nth:
  assumes "length (takeWhile (\<lambda>t. t \<noteq> s) xs) < length xs"
  shows "xs ! length (takeWhile (\<lambda>t. t \<noteq> s) xs) = s"
  using nth_length_takeWhile [OF assms] by simp

lemma list_dictionary_lookup:
  assumes "length (f r) < 2 ^ 63"
  shows "\<exists>i. hd_string_to_id (list_dictionary sh f) s r = Inr i \<and>
    (i > 0 \<longrightarrow> hd_id_to_string (list_dictionary sh f) i r = s \<and> unat i < 2 ^ 63 \<and> i \<le> of_nat (length (f r)))"
proof -
  define k where "k = length (takeWhile (\<lambda>t. t \<noteq> s) (f r))"
  have le: "k \<le> length (f r)" by (simp add: k_def length_takeWhile_le)
  show ?thesis
  proof (cases "k < length (f r)")
    case True
    have n: "length (f r) < 2 ^ 64" using assms by simp
    then have u: "unat (of_nat (Suc k) :: u64) = Suc k" "unat (of_nat (length (f r)) :: u64) = length (f r)"
      using True by (simp_all add: unat_of_nat take_bit_nat_eq_self del: of_nat_Suc)
    then have "(0 :: u64) < of_nat (Suc k)" by (simp add: word_gt_0_no word_less_nat_alt del: of_nat_Suc)
    moreover have "f r ! k = s" using takeWhile_neq_nth [of s "f r"] True by (simp add: k_def)
    moreover have "(of_nat (Suc k) :: u64) \<le> of_nat (length (f r))"
      using u True by (simp add: word_le_nat_alt del: of_nat_Suc)
    ultimately show ?thesis using True u assms
      by (simp add: list_dictionary_def Let_def del: of_nat_Suc flip: k_def)
  next
    case False
    then show ?thesis by (simp add: list_dictionary_def Let_def flip: k_def)
  qed
qed

lemma list_dictionary_known:
  assumes "hd_string_to_id (list_dictionary sh f) s r = Inr i" "i \<noteq> 0"
  shows "hd_string_to_id (list_dictionary sh (f(q := f q @ [t]))) s r = Inr i"
proof (cases "s \<in> set (f r)")
  case True
  then have "takeWhile (\<lambda>t. t \<noteq> s) (f r @ [t]) = takeWhile (\<lambda>t. t \<noteq> s) (f r)" by auto
  moreover have "length (takeWhile (\<lambda>t. t \<noteq> s) (f r)) < length (f r)"
    using length_takeWhile_less [OF True, of "\<lambda>t. t \<noteq> s"] by simp
  ultimately show ?thesis using assms by (cases "q = r") (simp_all add: list_dictionary_def Let_def)
next
  case False
  then have "takeWhile (\<lambda>t. t \<noteq> s) (f r) = f r" by (auto simp: takeWhile_eq_all_conv)
  then have "hd_string_to_id (list_dictionary sh f) s r = Inr 0"
    unfolding list_dictionary_def Let_def hdt_dictionary.simps by (simp only: order_less_irrefl if_False)
  then show ?thesis using assms by simp
qed

lemma list_dictionary_fresh:
  assumes "length (f r) + 1 < 2 ^ 63"
  shows "hd_string_to_id (list_dictionary sh (f(r := f r @ [s]))) s r \<noteq> Inr 0"
proof -
  define k where "k = length (takeWhile (\<lambda>t. t \<noteq> s) (f r @ [s]))"
  have "k < length (f r @ [s])" unfolding k_def by (rule length_takeWhile_less [of s]) simp_all
  then have "k < length (f r) + 1" "unat (of_nat (Suc k) :: u64) = Suc k"
    using assms by (simp_all add: unat_of_nat take_bit_nat_eq_self del: of_nat_Suc)
  then show ?thesis by (auto simp: list_dictionary_def Let_def simp del: of_nat_Suc simp flip: k_def)
qed

lemma list_plain_laws: "plain_laws list_dict_insert list_dict_valid"
  unfolding plain_laws_def
proof (intro conjI allI impI)
  fix n d s r
  assume "list_dict_valid n d"
  then have "d = list_dictionary (hd_nshared d) (hd_terms d)" "length (hd_terms d r) < 2 ^ 63"
    unfolding list_dict_valid_def by (blast, metis add_lessD1)
  then show "\<exists>i. hd_string_to_id d s r = Inr i \<and> (i > 0 \<longrightarrow> hd_id_to_string d i r = s \<and> unat i < 2 ^ 63)"
    using list_dictionary_lookup [of "hd_terms d" r "hd_nshared d" s] by auto
next
  fix n d
  assume "list_dict_valid (Suc n) d"
  then show "list_dict_valid n d" unfolding list_dict_valid_def by (metis Suc_lessD add_Suc_right)
next
  fix n d s r
  assume a: "list_dict_valid (Suc n) d \<and> s \<noteq> [] \<and> hd_string_to_id d s r = Inr 0"
  define f where "f = hd_terms d"
  have d: "d = list_dictionary (hd_nshared d) f" "\<And>r. length (f r) + Suc n < 2 ^ 63"
    using a unfolding list_dict_valid_def f_def by blast+
  have i: "list_dict_insert d s (section_of r) = list_dictionary (hd_nshared d) (f(r := f r @ [s]))"
    by (cases r) (simp_all add: list_dict_insert_def section_of_def f_def)
  have "length ((f(r := f r @ [s])) q) + n < 2 ^ 63" for q using d(2) [of q] by auto
  then show "list_dict_valid n (list_dict_insert d s (section_of r))"
    unfolding i list_dict_valid_def by (simp add: list_dictionary_def)
  have "length (f r) + 1 < 2 ^ 63" using d(2) [of r] by simp
  then show "hd_string_to_id (list_dict_insert d s (section_of r)) s r \<noteq> Inr 0"
    unfolding i by (rule list_dictionary_fresh)
  show "hd_string_to_id (list_dict_insert d s (section_of r)) s' r' = Inr j"
    if "hd_string_to_id d s' r' = Inr j \<and> 0 < j" for s' r' j
    using that d(1) list_dictionary_known [of "hd_nshared d" f s' r' j r s] unfolding i by auto
qed

lemma list_hdt_laws:
  assumes "\<And>r. length (f r) < 2 ^ 63"
  shows "hdt_laws (list_dictionary sh f)"
proof -
  have "unat (of_nat (length (f r)) :: u64) = length (f r)" for r
    using assms [of r] by (simp add: unat_of_nat take_bit_nat_eq_self)
  moreover have "hd_max_id (list_dictionary sh f) r = of_nat (length (f r))" for r
    by (simp add: list_dictionary_def)
  moreover have "hd_id_to_string (list_dictionary sh f) i r = s \<and> i \<le> of_nat (length (f r))"
    if "hd_string_to_id (list_dictionary sh f) s r = Inr i" "0 < i" for s r i
    using list_dictionary_lookup [of f r sh s, OF assms] that by auto
  ultimately show ?thesis unfolding hdt_laws_def using assms by auto
qed

text \<open>The terms of a role are sorted within the shared and within the unshared ids of the HDT dictionary;
  an id is one of the role when it is an HDT id of the role or a patch id.\<close>

definition role_sorted :: "dictionary_manager \<Rightarrow> role \<Rightarrow> bool" where
  "role_sorted m r \<longleftrightarrow> (\<forall>i j. 0 < i \<and> i < j \<and> j \<le> hd_max_id (dm_hdt_dict m) r \<and>
      (i > hd_nshared (dm_hdt_dict m)) = (j > hd_nshared (dm_hdt_dict m)) \<longrightarrow>
      hd_id_to_string (dm_hdt_dict m) i r < hd_id_to_string (dm_hdt_dict m) j r)"

definition role_id :: "dictionary_manager \<Rightarrow> role \<Rightarrow> u64 \<Rightarrow> bool" where
  "role_id m r i \<longleftrightarrow> 0 < i \<and> (i \<le> dm_max_hdt_id m \<longrightarrow> i \<le> hd_max_id (dm_hdt_dict m) r)"

lemma compare_component_string:
  assumes "role_sorted m r" "unat (dm_max_hdt_id m) < 2 ^ 31" "role_id m r i" "role_id m r j"
  shows "sgn (dm_compare_component i j r m) =
    string_compare (dm_id_to_string i r m) (dm_id_to_string j r m)"
proof -
  have sg: "sgn (string_compare a b) = string_compare a b" for a b by (simp add: string_compare_def)
  show ?thesis
  proof (cases "i \<le> dm_max_hdt_id m \<and> j \<le> dm_max_hdt_id m \<and>
      (i > hd_nshared (dm_hdt_dict m)) = (j > hd_nshared (dm_hdt_dict m))")
    case False
    then show ?thesis by (auto simp: dm_compare_component_def Let_def sg)
  next
    case True
    then have c: "dm_compare_component i j r m = id_difference i j"
      by (simp add: dm_compare_component_def Let_def)
    have d: "id_difference i j = int (unat i) - int (unat j)"
      using True assms(2) by (intro id_difference_exact) (auto simp: word_le_nat_alt)
    have ij: "0 < i" "0 < j" "i \<le> hd_max_id (dm_hdt_dict m) r" "j \<le> hd_max_id (dm_hdt_dict m) r"
      using assms(3,4) True by (auto simp: role_id_def)
    have o: "a < b \<Longrightarrow> a \<noteq> 0 \<Longrightarrow> a = i \<and> b = j \<or> a = j \<and> b = i \<Longrightarrow>
        dm_id_to_string a r m < dm_id_to_string b r m" for a b
      using assms(1) [unfolded role_sorted_def, rule_format, of a b] True ij by (auto simp: dm_id_to_string_def word_gt_0)
    consider "i < j" | "i = j" | "j < i" by fastforce
    then show ?thesis
    proof cases
      case 1
      then have "sgn (dm_compare_component i j r m) = - 1"
        unfolding c d by (intro sgn_difference) (simp add: word_less_nat_alt)
      then show ?thesis using o [of i j] 1 ij(1) by (simp add: string_compare_def)
    next
      case 3
      then have "sgn (dm_compare_component i j r m) = 1"
        unfolding c d by (intro sgn_difference) (simp add: word_less_nat_alt)
      moreover have "dm_id_to_string j r m < dm_id_to_string i r m" using o [of j i] 3 ij(2) by simp
      ultimately show ?thesis by (auto simp: string_compare_def)
    next
      case 2
      then show ?thesis using c d by (simp add: string_compare_def)
    qed
  qed
qed

section \<open>Properties\<close>

text \<open>C17: A triple built from three strings reads back as these strings: the constructor inserts each
  term that neither dictionary knows, the ids it stores translate to the given strings in the resulting
  dictionary, and every term known before keeps its id.\<close>

theorem string_triple_translation:
  assumes "plain_laws ins valid" "dm_ok (valid (n + 3)) m"
  shows "\<exists>t m'. get_as_triple ins st m = Inr (t, m') \<and> dm_ok (valid n) m' \<and>
    subject_string m' t = st_subject st \<and> predicate_string m' t = st_predicate st \<and>
    object_string m' t = st_object st \<and>
    (\<forall>s r j. dm_string_to_id s r m = Inr j \<longrightarrow> dm_string_to_id s r m' = Inr j)"
proof -
  have ok: "dm_ok (valid (Suc (Suc (Suc n)))) m" using assms(2) by (simp add: eval_nat_numeral)
  obtain i1 m1 where 1: "insert_component ins (st_subject st) SUBJECT m = Inr (i1, m1)"
    "dm_ok (valid (Suc (Suc n))) m1" "dm_string_to_id (st_subject st) SUBJECT m1 = Inr i1"
    "\<forall>s' r' j. dm_string_to_id s' r' m = Inr j \<longrightarrow> dm_string_to_id s' r' m1 = Inr j"
    by (rule insert_component_result [OF assms(1) ok])
  obtain i2 m2 where 2: "insert_component ins (st_predicate st) PREDICATE m1 = Inr (i2, m2)"
    "dm_ok (valid (Suc n)) m2" "dm_string_to_id (st_predicate st) PREDICATE m2 = Inr i2"
    "\<forall>s' r' j. dm_string_to_id s' r' m1 = Inr j \<longrightarrow> dm_string_to_id s' r' m2 = Inr j"
    by (rule insert_component_result [OF assms(1) 1(2)])
  obtain i3 m3 where 3: "insert_component ins (st_object st) OBJECT m2 = Inr (i3, m3)"
    "dm_ok (valid n) m3" "dm_string_to_id (st_object st) OBJECT m3 = Inr i3"
    "\<forall>s' r' j. dm_string_to_id s' r' m2 = Inr j \<longrightarrow> dm_string_to_id s' r' m3 = Inr j"
    by (rule insert_component_result [OF assms(1) 2(2)])
  note sound = dm_string_to_id_sound [OF assms(1) 3(2)]
  have "get_as_triple ins st m = Inr (mk_triple i1 i2 i3, m3)"
    using 1(1) 2(1) 3(1) by (simp add: get_as_triple_def triple_of_strings_def)
  moreover have "subject_string m3 (mk_triple i1 i2 i3) = st_subject st"
    "predicate_string m3 (mk_triple i1 i2 i3) = st_predicate st"
    "object_string m3 (mk_triple i1 i2 i3) = st_object st"
    using 1(3) 2(3,4) 3(3,4) sound
    by (simp_all add: subject_string_def predicate_string_def object_string_def)
  ultimately show ?thesis using 1(4) 2(4) 3(2,4) by blast
qed

definition example_terms :: "role \<Rightarrow> string list" where
  "example_terms r = (case r of SUBJECT \<Rightarrow> [''a'', ''c''] | PREDICATE \<Rightarrow> [''p''] | OBJECT \<Rightarrow> [''a'', ''b'', ''d''])"

definition example_manager :: dictionary_manager where
  "example_manager = dm_new (list_dictionary 1 example_terms) (list_dictionary 0 (\<lambda>r. []))"

lemma example_manager_ok: "n < 2 ^ 62 \<Longrightarrow> dm_ok (list_dict_valid n) example_manager"
  unfolding example_manager_def
  by (rule dm_new_ok; (rule list_hdt_laws)?)
    (auto simp: example_terms_def list_dict_valid_def list_dictionary_def split: role.split)

lemma example_bounds:
  "dm_max_hdt_id example_manager = 3" "hd_nshared (dm_hdt_dict example_manager) = 1"
  "hd_max_id (dm_hdt_dict example_manager) SUBJECT = 2" "hd_max_id (dm_hdt_dict example_manager) PREDICATE = 1"
  "hd_max_id (dm_hdt_dict example_manager) OBJECT = 3"
  by code_simp+

lemma example_sorted: "role_sorted example_manager r"
  unfolding role_sorted_def example_bounds(2)
proof (intro allI impI)
  fix i j :: u64
  assume a: "0 < i \<and> i < j \<and> j \<le> hd_max_id (dm_hdt_dict example_manager) r \<and> (1 < i) = (1 < j)"
  have small: "0 < k \<Longrightarrow> k \<le> 3 \<Longrightarrow> k = 1 \<or> k = 2 \<or> k = 3" for k :: u64
    unfolding word_less_nat_alt word_le_nat_alt by (auto simp: word_unat_eq_iff)
  have b: "hd_max_id (dm_hdt_dict example_manager) r \<le> 3" by (cases r) (simp_all add: example_bounds)
  then have "i = 1 \<or> i = 2 \<or> i = 3" "j = 1 \<or> j = 2 \<or> j = 3"
    using a small [of i] small [of j] by (meson less_le_trans order_less_imp_le order_trans)+
  then have ij: "i = 2 \<and> j = 3" using a by (auto simp: word_less_nat_alt)
  have "\<not> (3 :: u64) \<le> 1" "\<not> (3 :: u64) \<le> 2" by (simp_all add: word_le_nat_alt)
  then have "r = OBJECT" using a ij by (cases r) (auto simp: example_bounds)
  moreover have "hd_id_to_string (dm_hdt_dict example_manager) 2 OBJECT <
    hd_id_to_string (dm_hdt_dict example_manager) 3 OBJECT" by code_simp
  ultimately show "hd_id_to_string (dm_hdt_dict example_manager) i r <
    hd_id_to_string (dm_hdt_dict example_manager) j r" using ij by simp
qed

theorem string_triple_translation_witness:
  "\<exists>t m'. get_as_triple list_dict_insert \<lparr> st_subject = ''c'', st_predicate = ''q'', st_object = ''z'' \<rparr>
       example_manager = Inr (t, m') \<and>
     triple_dict_string m' t = ''c q z.''"
  using string_triple_translation [OF list_plain_laws example_manager_ok [of "0 + 3"],
      of "\<lparr> st_subject = ''c'', st_predicate = ''q'', st_object = ''z'' \<rparr>"]
  by (auto simp: triple_dict_string_def)

text \<open>C18: Ids compare as their strings do: when the terms of a role are sorted within the shared and the
  unshared ids of the HDT dictionary, and ids of that dictionary differ by less than \<open>2 ^ 31\<close>,
  \<open>compareComponent\<close> has the sign of the comparison of the two strings, for HDT ids, patch ids and one
  of each.\<close>

theorem compare_component_order:
  assumes "role_sorted m r" "unat (dm_max_hdt_id m) < 2 ^ 31" "role_id m r i" "role_id m r j"
  shows "sgn (dm_compare_component i j r m) =
    string_compare (dm_id_to_string i r m) (dm_id_to_string j r m)"
  using assms by (rule compare_component_string)

theorem compare_component_order_witness:
  "sgn (dm_compare_component 2 3 OBJECT example_manager) = - 1"
proof -
  have "sgn (dm_compare_component 2 3 OBJECT example_manager) =
      string_compare (dm_id_to_string 2 OBJECT example_manager) (dm_id_to_string 3 OBJECT example_manager)"
    by (rule compare_component_order [OF example_sorted])
      (simp_all add: example_bounds role_id_def)
  also have "\<dots> = - 1" by code_simp
  finally show ?thesis .
qed

end
