(* ===== verification/Interval_List.thy ===== *)
theory Interval_List
  imports Variable_Size_Integer
begin

text \<open>
  \<open>IntervalList<T>\<close> of \<open>patch/interval_list.h\<close> (used with \<open>T = int\<close>): a set of patch ids kept as
  the ordered map of its maximal runs \<open>[start, end)\<close>; an end equal to \<open>il_max\<close> is an open run.
  An iterator is the index of an entry, the index \<open>length\<close> is \<open>end()\<close>. \<open>pos--\<close> at \<open>begin()\<close> is
  undefined behaviour and an outcome of its own.
\<close>

section \<open>State and operations\<close>

record interval_list =
  il_max :: int
  il_intervals :: "(int \<times> int) list"

definition il_new :: "int \<Rightarrow> interval_list" where
  "il_new max_value = \<lparr> il_max = max_value, il_intervals = [] \<rparr>"

definition il_addition :: "int \<Rightarrow> interval_list \<Rightarrow> (bool \<times> interval_list) outcome" where
  "il_addition element l =
     (let m = il_intervals l; pos = lower_bound (key_lt element) m in
      if pos = length m then
        if pos \<noteq> 0 then
          (let (a, b) = m ! (pos - 1) in
           if a < element \<and> b = element
           then Inr (True, l\<lparr> il_intervals := map_assign a (il_max l) m \<rparr>)
           else if b < element then Inr (True, l\<lparr> il_intervals := map_insert element (il_max l) m \<rparr>)
           else Inr (False, l))
        else Inr (True, l\<lparr> il_intervals := map_insert element (il_max l) m \<rparr>)
      else
        (let (a', b') = m ! pos in
         if element < a' then
           if pos = 0 then Inl Undefined_behaviour
           else (let (a, b) = m ! (pos - 1) in
             if b < element
             then Inr (True, l\<lparr> il_intervals := map_insert element b' (erase_at pos m) \<rparr>)
             else if b = element then
               (let tmp_pos = Suc (pos - 1) in
                if tmp_pos \<noteq> length m
                then Inr (True, l\<lparr> il_intervals := (erase_at tmp_pos m)[pos - 1 := (a, snd (m ! tmp_pos))] \<rparr>)
                else Inr (False, l))
             else Inr (False, l))
         else Inr (False, l)))"

definition il_get_interval :: "int \<Rightarrow> interval_list \<Rightarrow> (int \<times> int) outcome" where
  "il_get_interval element l =
     (let m = il_intervals l; pos = lower_bound (key_lt element) m in
      if pos = length m \<and> pos = 0 then Inr (il_max l, il_max l)
      else
        (let pos' = (if pos = length m then pos - 1 else pos) in
         if element < fst (m ! pos') \<and> pos' = 0 then Inl Undefined_behaviour
         else
           (let pos'' = (if element < fst (m ! pos') then pos' - 1 else pos'); (a, b) = m ! pos'' in
            if b < element then Inr (il_max l, il_max l) else Inr (a, b))))"

definition il_lone_addition :: "int \<Rightarrow> interval_list \<Rightarrow> (bool \<times> interval_list) outcome" where
  "il_lone_addition element l =
     bind_outcome (il_get_interval element l) (\<lambda>(a, b).
       if a = il_max l \<and> b = il_max l
       then Inr (True, l\<lparr> il_intervals := map_assign element (element + 1) (il_intervals l) \<rparr>)
       else Inr (False, l))"

definition il_deletion :: "int \<Rightarrow> interval_list \<Rightarrow> (bool \<times> interval_list) outcome" where
  "il_deletion element l =
     (let m = il_intervals l in
      if m = [] then Inr (False, l)
      else
        (let pos = lower_bound (key_lt element) m in
         if (pos = length m \<or> element < fst (m ! pos)) \<and> pos = 0 then Inl Undefined_behaviour
         else
           (let pos' = (if pos = length m \<or> element < fst (m ! pos) then pos - 1 else pos);
                (a, b) = m ! pos' in
            if element < b then
              if a = element then Inr (True, l\<lparr> il_intervals := erase_at pos' m \<rparr>)
              else Inr (True, l\<lparr> il_intervals := m[pos' := (a, element)] \<rparr>)
            else Inr (False, l))))"

definition il_is_in :: "int \<Rightarrow> interval_list \<Rightarrow> bool outcome" where
  "il_is_in element l =
     (let m = il_intervals l; pos = lower_bound (key_lt element) m in
      if pos = length m \<and> pos = 0 then Inr False
      else if pos < length m \<and> element < fst (m ! pos) \<and> pos = 0 then Inl Undefined_behaviour
      else
        (let pos' = (if pos = length m \<or> element < fst (m ! pos) then pos - 1 else pos);
             (a, b) = m ! pos' in
         Inr (a \<le> element \<and> element < b)))"

fun il_get_index_loop :: "int \<Rightarrow> int \<Rightarrow> int \<Rightarrow> int \<Rightarrow> (int \<times> int) list \<Rightarrow> int" where
  "il_get_index_loop mx value outer_limit count [] = - 1"
| "il_get_index_loop mx value outer_limit count ((a, b) # m) =
     (let max_value = (if b = mx then outer_limit else b); range = max_value - a in
      if a \<le> value \<and> value < max_value then count + (value - a)
      else il_get_index_loop mx value outer_limit (count + range) m)"

definition il_get_index :: "int \<Rightarrow> int \<Rightarrow> interval_list \<Rightarrow> int" where
  "il_get_index value outer_limit l = il_get_index_loop (il_max l) value outer_limit 0 (il_intervals l)"

fun il_get_element_loop :: "int \<Rightarrow> int \<Rightarrow> int \<Rightarrow> int \<Rightarrow> (int \<times> int) list \<Rightarrow> int" where
  "il_get_element_loop mx i outer_limit index [] = mx"
| "il_get_element_loop mx i outer_limit index ((a, b) # m) =
     (let max_value = (if b = mx then outer_limit else b); range = max_value - a in
      if i < index + range then a + (i - index)
      else il_get_element_loop mx i outer_limit (index + range) m)"

definition il_get_element_at :: "int \<Rightarrow> int \<Rightarrow> interval_list \<Rightarrow> int" where
  "il_get_element_at i outer_limit l = il_get_element_loop (il_max l) i outer_limit 0 (il_intervals l)"

fun il_get_size_loop :: "int \<Rightarrow> int \<Rightarrow> int \<Rightarrow> (int \<times> int) list \<Rightarrow> int" where
  "il_get_size_loop mx outer_limit sz [] = sz"
| "il_get_size_loop mx outer_limit sz ((a, b) # m) =
     (let max_value = (if b = mx then outer_limit else b); range = max_value - a in
      il_get_size_loop mx outer_limit (sz + range) m)"

definition il_get_size :: "int \<Rightarrow> interval_list \<Rightarrow> int" where
  "il_get_size outer_limit l = il_get_size_loop (il_max l) outer_limit 0 (il_intervals l)"

definition il_serialize :: "interval_list \<Rightarrow> byte list" where
  "il_serialize l = concat (map (enc_pair encode_SLEB128 encode_SLEB128) (il_intervals l))"

definition il_deserialize :: "byte list \<Rightarrow> interval_list \<Rightarrow> interval_list outcome" where
  "il_deserialize data l =
     bind_outcome (decode_all (dec_pair decode_int decode_int) (length data) data) (\<lambda>ps.
       Inr (l\<lparr> il_intervals := foldl (\<lambda>m p. map_insert (fst p) (snd p) m) [] ps \<rparr>))"

definition il_clear :: "interval_list \<Rightarrow> interval_list" where
  "il_clear l = l\<lparr> il_intervals := [] \<rparr>"

definition il_set_max_value :: "int \<Rightarrow> interval_list \<Rightarrow> interval_list" where
  "il_set_max_value value l = l\<lparr> il_max := value \<rparr>"

section \<open>Meaning and well-formedness\<close>

definition intervals_mem :: "(int \<times> int) list \<Rightarrow> int \<Rightarrow> bool" where
  "intervals_mem m x \<longleftrightarrow> (\<exists>p\<in>set m. fst p \<le> x \<and> x < snd p)"

abbreviation il_mem :: "interval_list \<Rightarrow> int \<Rightarrow> bool" where
  "il_mem l \<equiv> intervals_mem (il_intervals l)"

text \<open>The runs are nonempty, ordered, end at most at the maximum, and are \<open>g\<close> apart: with \<open>g = 1\<close>
  adjacent runs are always merged, with \<open>g = 0\<close> they may touch.\<close>

fun intervals_ok :: "int \<Rightarrow> int \<Rightarrow> (int \<times> int) list \<Rightarrow> bool" where
  "intervals_ok g M [] = True"
| "intervals_ok g M ((a, b) # m) = (a < b \<and> b \<le> M \<and> (\<forall>p\<in>set m. b + g \<le> fst p) \<and> intervals_ok g M m)"

abbreviation il_ok :: "int \<Rightarrow> interval_list \<Rightarrow> bool" where
  "il_ok g l \<equiv> intervals_ok g (il_max l) (il_intervals l)"

text \<open>No entry, or the first entry is not above the element: the code never steps before \<open>begin()\<close>.\<close>

definition il_reachable :: "int \<Rightarrow> interval_list \<Rightarrow> bool" where
  "il_reachable element l \<longleftrightarrow> il_intervals l = [] \<or> fst (hd (il_intervals l)) \<le> element"

lemma intervals_mem_simps [simp]:
  "intervals_mem [] x = False"
  "intervals_mem (p # m) x \<longleftrightarrow> (fst p \<le> x \<and> x < snd p) \<or> intervals_mem m x"
  "intervals_mem (us @ vs) x \<longleftrightarrow> intervals_mem us x \<or> intervals_mem vs x"
  by (auto simp: intervals_mem_def)

lemma intervals_ok_append [simp]:
  "intervals_ok g M (us @ vs) \<longleftrightarrow> intervals_ok g M us \<and> intervals_ok g M vs \<and>
     (\<forall>u\<in>set us. \<forall>v\<in>set vs. snd u + g \<le> fst v)"
proof (induction us)
  case (Cons u us)
  then show ?case by (cases u) (simp add: ball_Un conj_ac)
qed simp

lemma intervals_ok_bounds:
  "intervals_ok g M m \<Longrightarrow> p \<in> set m \<Longrightarrow> fst p < snd p \<and> snd p \<le> M"
  by (induction m) auto

lemma intervals_mem_above:
  "intervals_mem m x \<Longrightarrow> \<forall>p\<in>set m. k \<le> fst p \<Longrightarrow> k \<le> x"
  by (force simp: intervals_mem_def)

lemma intervals_mem_below:
  "intervals_mem m x \<Longrightarrow> \<forall>p\<in>set m. snd p \<le> k \<Longrightarrow> x < k"
  by (force simp: intervals_mem_def)


section \<open>Operations on a split list\<close>

text \<open>The shapes of the map around an element: what is left of \<open>lower_bound\<close> and what is right.\<close>

lemma lower_bound_key:
  "\<forall>p\<in>set us. fst p < e \<Longrightarrow> vs = [] \<or> e \<le> fst (hd vs) \<Longrightarrow>
   lower_bound (key_lt e) (us @ vs) = length us"
  by (rule lower_bound_append) auto

lemma il_shape:
  fixes m :: "(int \<times> int) list"
  obtains (empty) "m = []"
    | (below) a b vs where "m = (a, b) # vs" "e < a"
    | (hit) us b vs where "m = us @ (e, b) # vs" "\<forall>p\<in>set us. fst p < e"
    | (last) us a b where "m = us @ [(a, b)]" "\<forall>p\<in>set us. fst p < e" "a < e"
    | (between) us a b a' b' vs where "m = us @ (a, b) # (a', b') # vs"
        "\<forall>p\<in>set us. fst p < e" "a < e" "e < a'"
proof -
  obtain us vs where s: "m = us @ vs" "\<forall>p\<in>set us. fst p < e" "vs = [] \<or> \<not> fst (hd vs) < e"
    by (rule lower_bound_split [of m "key_lt e"])
  show thesis
  proof (cases vs)
    case Nil
    then show thesis using s empty last by (cases us rule: rev_cases) auto
  next
    case (Cons v vs')
    obtain a' b' where v: "v = (a', b')" by (cases v)
    show thesis
    proof (cases "a' = e")
      case True
      then show thesis using hit [of us b' vs'] s Cons v by simp
    next
      case False
      then have "e < a'" using s(3) Cons v by auto
      then show thesis
        using s Cons v below between by (cases us rule: rev_cases) auto
    qed
  qed
qed

lemma lower_bound_shapes:
  "e < a \<Longrightarrow> lower_bound (key_lt e) ((a, b) # vs) = 0"
  "\<forall>p\<in>set us. fst p < e \<Longrightarrow> lower_bound (key_lt e) (us @ (e, b) # vs) = length us"
  "\<forall>p\<in>set us. fst p < e \<Longrightarrow> a < e \<Longrightarrow> lower_bound (key_lt e) (us @ [(a, b)]) = Suc (length us)"
  "\<forall>p\<in>set us. fst p < e \<Longrightarrow> a < e \<Longrightarrow> e < a' \<Longrightarrow>
     lower_bound (key_lt e) (us @ (a, b) # (a', b') # vs) = Suc (length us)"
  using lower_bound_key [of "[]" e "(a, b) # vs"] lower_bound_key [of us e "(e, b) # vs"]
    lower_bound_key [of "us @ [(a, b)]" e "[]"] lower_bound_key [of "us @ [(a, b)]" e "(a', b') # vs"]
  by auto

lemma nth_shapes [simp]:
  "(us @ x # vs) ! length us = x"
  "(us @ x # y # vs) ! Suc (length us) = y"
  "(us @ x # vs)[length us := z] = us @ z # vs"
  "erase_at (Suc (length us)) (us @ x # y # vs) = us @ x # vs"
  by (simp_all add: nth_append list_update_append erase_at_def)

lemma map_insert_shapes:
  "\<forall>p\<in>set us. fst p < e \<Longrightarrow> a < e \<Longrightarrow> map_insert e v (us @ [(a, b)]) = us @ [(a, b), (e, v)]"
  "\<forall>p\<in>set us. fst p < e \<Longrightarrow> a < e \<Longrightarrow> \<forall>p\<in>set vs. e < fst p \<Longrightarrow>
     map_insert e v (us @ (a, b) # vs) = us @ (a, b) # (e, v) # vs"
  "\<forall>p\<in>set us. fst p < e \<Longrightarrow> a < e \<Longrightarrow> \<forall>p\<in>set vs. e < fst p \<Longrightarrow>
     map_assign e v (us @ (a, b) # vs) = us @ (a, b) # (e, v) # vs"
  using map_insert_split [of "us @ [(a, b)]" e "[]" v] map_insert_split [of "us @ [(a, b)]" e vs v]
    map_assign_split [of "us @ [(a, b)]" e vs v]
  by (cases vs; simp)+

lemmas il_shapes = lower_bound_shapes map_insert_shapes map_assign_hit

lemma il_addition_shapes:
  "il_addition e (l\<lparr> il_intervals := [] \<rparr>) = Inr (True, l\<lparr> il_intervals := [(e, il_max l)] \<rparr>)"
  "e < a \<Longrightarrow> il_addition e (l\<lparr> il_intervals := (a, b) # vs \<rparr>) = Inl Undefined_behaviour"
  "\<forall>p\<in>set us. fst p < e \<Longrightarrow> il_addition e (l\<lparr> il_intervals := us @ (e, b) # vs \<rparr>) =
     Inr (False, l\<lparr> il_intervals := us @ (e, b) # vs \<rparr>)"
  by (simp_all add: il_addition_def lower_bound_shapes) (simp_all add: lower_bound_def)

lemma il_addition_last:
  assumes "\<forall>p\<in>set us. fst p < a" "a < e"
  shows "il_addition e (l\<lparr> il_intervals := us @ [(a, b)] \<rparr>) =
    (if b = e then Inr (True, l\<lparr> il_intervals := us @ [(a, il_max l)] \<rparr>)
     else if b < e then Inr (True, l\<lparr> il_intervals := us @ [(a, b), (e, il_max l)] \<rparr>)
     else Inr (False, l\<lparr> il_intervals := us @ [(a, b)] \<rparr>))"
proof -
  have us: "\<forall>p\<in>set us. fst p < e" using assms by auto
  show ?thesis
    using assms us by (simp add: il_addition_def il_shapes)
qed

lemma il_addition_between:
  assumes "\<forall>p\<in>set us. fst p < a" "a < e" "e < a'" "\<forall>p\<in>set vs. e < fst p"
  shows "il_addition e (l\<lparr> il_intervals := us @ (a, b) # (a', b') # vs \<rparr>) =
    (if b < e then Inr (True, l\<lparr> il_intervals := us @ (a, b) # (e, b') # vs \<rparr>)
     else if b = e then Inr (True, l\<lparr> il_intervals := us @ (a, b') # vs \<rparr>)
     else Inr (False, l\<lparr> il_intervals := us @ (a, b) # (a', b') # vs \<rparr>))"
proof -
  have us: "\<forall>p\<in>set us. fst p < e" using assms by auto
  show ?thesis
    using assms us by (simp add: il_addition_def il_shapes)
qed


section \<open>What the operations promise\<close>

text \<open>What \<open>addition\<close> promises: the element and everything after it, up to the next run.\<close>

definition added_from :: "interval_list \<Rightarrow> int \<Rightarrow> int \<Rightarrow> bool" where
  "added_from l e x \<longleftrightarrow> e \<le> x \<and> x < il_max l \<and> (\<forall>y. e \<le> y \<and> y \<le> x \<longrightarrow> \<not> il_mem l y)"

lemma ok_last:
  assumes "intervals_ok g M (us @ [(a, b)])" "0 \<le> g"
  shows "\<forall>p\<in>set us. fst p < a" "a < b" "b \<le> M" "intervals_mem us y \<Longrightarrow> y < a"
proof -
  show u: "\<forall>p\<in>set us. fst p < a"
  proof
    fix p assume "p \<in> set us"
    then have "fst p < snd p" "snd p + g \<le> a" using assms intervals_ok_bounds [of g M us p] by auto
    then show "fst p < a" using assms(2) by linarith
  qed
  show "a < b" "b \<le> M" using assms by auto
  have "\<forall>p\<in>set us. snd p \<le> a" using assms by fastforce 
  then show "intervals_mem us y \<Longrightarrow> y < a" using intervals_mem_below by blast
qed

lemma ok_between:
  assumes "intervals_ok g M (us @ (a, b) # (a', b') # vs)" "0 \<le> g"
  shows "\<forall>p\<in>set us. fst p < a" "a < b" "b \<le> M" "intervals_mem us y \<Longrightarrow> y < a"
    "b + g \<le> a'" "a' < b'" "b' \<le> M" "\<forall>p\<in>set vs. b' \<le> fst p" "intervals_mem vs y \<Longrightarrow> b' \<le> y"
proof -
  have "intervals_ok g M (us @ [(a, b)])" using assms(1) by auto
  note l = ok_last [OF this assms(2)]
  show "\<forall>p\<in>set us. fst p < a" "a < b" "b \<le> M" "intervals_mem us y \<Longrightarrow> y < a" using l by blast+
  show "b + g \<le> a'" "a' < b'" "b' \<le> M" using assms(1) by auto
  show v: "\<forall>p\<in>set vs. b' \<le> fst p" using assms by fastforce
  then show "intervals_mem vs y \<Longrightarrow> b' \<le> y" using intervals_mem_above by blast
qed


definition addition_result :: "int \<Rightarrow> int \<Rightarrow> interval_list \<Rightarrow> bool \<times> interval_list \<Rightarrow> bool" where
  "addition_result g e l r \<longleftrightarrow> (case r of (ch, l') \<Rightarrow>
     il_ok g l' \<and> il_max l' = il_max l \<and> il_reachable e l' \<and> (ch \<longleftrightarrow> \<not> il_mem l e) \<and>
     (\<forall>x. il_mem l' x \<longleftrightarrow> il_mem l x \<or> added_from l e x))"

lemma addition_result_keep: "il_ok g l \<Longrightarrow> il_reachable e l \<Longrightarrow> il_mem l e \<Longrightarrow> addition_result g e l (False, l)"
  by (auto simp: addition_result_def added_from_def)

lemma il_addition_result:
  assumes "il_ok g l" "0 \<le> g" "g \<le> 1" "il_reachable e l" "e < il_max l"
  shows "\<exists>r. il_addition e l = Inr r \<and> addition_result g e l r"
proof -
  define m where "m = il_intervals l"
  then have l: "l = l\<lparr> il_intervals := m \<rparr>" by simp
  show ?thesis
  proof (cases rule: il_shape [where m = m and e = e])
    case empty
    with l have "il_addition e l = Inr (True, l\<lparr> il_intervals := [(e, il_max l)] \<rparr>)"
      by (metis il_addition_shapes(1))
    then show ?thesis
      using empty assms(5) by (auto simp: m_def addition_result_def added_from_def il_reachable_def)
  next
    case (below a b vs)
    then show ?thesis using assms(4) by (simp add: il_reachable_def m_def)
  next
    case (hit us b vs)
    with l have r: "il_addition e l = Inr (False, l)" by (metis il_addition_shapes(3))
    have "il_mem l e" using assms(1) hit by (auto simp flip: m_def)
    with r assms addition_result_keep show ?thesis by blast
  next
    case (last us a b)
    have ok: "intervals_ok g (il_max l) (us @ [(a, b)])" using assms(1) last by (simp flip: m_def)
    note k = ok_last [OF ok assms(2)]
    from l last il_addition_last [OF k(1) last(3), where l = l and b = b]
    have r: "il_addition e l = (if b = e then Inr (True, l\<lparr> il_intervals := us @ [(a, il_max l)] \<rparr>)
     else if b < e then Inr (True, l\<lparr> il_intervals := us @ [(a, b), (e, il_max l)] \<rparr>)
     else Inr (False, l))" by metis
    have mem: "il_mem l y \<longleftrightarrow> intervals_mem us y \<or> a \<le> y \<and> y < b" for y
      using last by (simp flip: m_def)
    have hd: "fst (hd (us @ (a, c) # w)) \<le> e" for c w
      using assms(4) last by (cases us) (auto simp: il_reachable_def simp flip: m_def)
    show ?thesis
    proof (cases "b \<le> e")
      case True
      then have f: "added_from l e x \<longleftrightarrow> e \<le> x \<and> x < il_max l" for x
        using k(2,4) last(3) by (force simp: added_from_def mem)
      show ?thesis
        using True r ok k assms(3,5) last(3) hd
        by (auto simp: addition_result_def f mem il_reachable_def dest: k(4))
    next
      case False
      then have "il_mem l e" using last(3) by (simp add: mem)
      with False r assms addition_result_keep show ?thesis by auto
    qed
  next
    case (between us a b a' b' vs)
    have ok: "intervals_ok g (il_max l) (us @ (a, b) # (a', b') # vs)"
      using assms(1) between by (simp flip: m_def)
    note k = ok_between [OF ok assms(2)]
    have vs: "\<forall>p\<in>set vs. e < fst p" using k(6,8) between(4) by fastforce
    from l between il_addition_between [OF k(1) between(3,4) vs, where l = l and b = b and b' = b']
    have r: "il_addition e l = (if b < e then Inr (True, l\<lparr> il_intervals := us @ (a, b) # (e, b') # vs \<rparr>)
     else if b = e then Inr (True, l\<lparr> il_intervals := us @ (a, b') # vs \<rparr>)
     else Inr (False, l))" by metis
    have mem: "il_mem l y \<longleftrightarrow> intervals_mem us y \<or> a \<le> y \<and> y < b \<or> a' \<le> y \<and> y < b' \<or> intervals_mem vs y" for y
      using between by (simp flip: m_def)
    have hd: "fst (hd (us @ (a, c) # w)) \<le> e" for c w
      using assms(4) between by (cases us) (auto simp: il_reachable_def simp flip: m_def)
    show ?thesis
    proof (cases "b \<le> e")
      case True
      have f: "added_from l e x \<longleftrightarrow> e \<le> x \<and> x < a'" for x
      proof
        assume f: "added_from l e x"
        have "il_mem l a'" using k(6) by (simp add: mem)
        with f between(4) show "e \<le> x \<and> x < a'"
          unfolding added_from_def by (metis less_imp_le not_less)
      next
        assume "e \<le> x \<and> x < a'"
        then show "added_from l e x"
          using k(4,6,7,9) between(3,4) True by (force simp: added_from_def mem)
      qed
      show ?thesis
        using True r ok k(2,3,5,6,7) assms(2,3,5) between(3,4) hd
        by (auto simp: addition_result_def f mem il_reachable_def dest: k(4,9))
    next
      case False
      then have "il_mem l e" using between(3) by (simp add: mem)
      with False r assms addition_result_keep show ?thesis by auto
    qed
  qed
qed

lemma ok_hit:
  assumes "intervals_ok g M (us @ (e, b) # vs)" "0 \<le> g"
  shows "\<forall>p\<in>set us. fst p < e" "e < b" "b \<le> M" "intervals_mem us y \<Longrightarrow> y < e"
    "\<forall>p\<in>set vs. b + g \<le> fst p" "intervals_mem vs y \<Longrightarrow> b + g \<le> y"
proof -
  have "intervals_ok g M (us @ [(e, b)])" using assms(1) by auto
  note l = ok_last [OF this assms(2)]
  show "\<forall>p\<in>set us. fst p < e" "e < b" "b \<le> M" "intervals_mem us y \<Longrightarrow> y < e" using l by blast+
  show v: "\<forall>p\<in>set vs. b + g \<le> fst p" using assms by auto
  then show "intervals_mem vs y \<Longrightarrow> b + g \<le> y" using intervals_mem_above by blast
qed

text \<open>\<open>Below\<close> the first run the lookups are undefined; elsewhere they see the run to the left.\<close>

lemma il_left_run:
  assumes "il_ok g l" "0 \<le> g" "il_reachable e l" "il_intervals l \<noteq> []"
  obtains us a b vs where "il_intervals l = us @ (a, b) # vs" "a \<le> e" "\<forall>p\<in>set us. fst p < a"
    "a < b" "b \<le> il_max l" "\<forall>p\<in>set vs. b + g \<le> fst p \<and> e < fst p" 
    "\<forall>y. intervals_mem us y \<longrightarrow> y < a" "\<forall>y. intervals_mem vs y \<longrightarrow> b + g \<le> y \<and> e < y"
    "a = e \<and> lower_bound (key_lt e) (il_intervals l) = length us \<or>
     a < e \<and> lower_bound (key_lt e) (il_intervals l) = Suc (length us)"
proof (cases rule: il_shape [where m = "il_intervals l" and e = e])
  case empty
  then show thesis using assms(4) by simp
next
  case (below a b vs)
  then show thesis using assms(3) by (simp add: il_reachable_def)
next
  case (hit us b vs)
  note k = ok_hit [OF assms(1) [unfolded hit(1)] assms(2)]
  have vs: "\<forall>p\<in>set vs. b + g \<le> fst p \<and> e < fst p" using k(2,5) assms(2) by auto
  then have "\<forall>y. intervals_mem vs y \<longrightarrow> b + g \<le> y \<and> e < y"
    using k(2,6) assms(2) by fastforce
  then show thesis using that [of us e b vs] k vs hit by (simp add: lower_bound_shapes)
next
  case (last us a b)
  note k = ok_last [OF assms(1) [unfolded last(1)] assms(2)]
  show thesis using that [of us a b "[]"] k last by (simp add: lower_bound_shapes)
next
  case (between us a b a' b' vs)
  note k = ok_between [OF assms(1) [unfolded between(1)] assms(2)]
  have vs: "\<forall>p\<in>set ((a', b') # vs). b + g \<le> fst p \<and> e < fst p" using k(5,6,8) between(4) by auto
  moreover have "\<forall>y. intervals_mem ((a', b') # vs) y \<longrightarrow> b + g \<le> y \<and> e < y"
    using k(5,6,9) between(4) by fastforce
  ultimately show thesis using that [of us a b "(a', b') # vs"] k between by (simp add: lower_bound_shapes)
qed

lemma il_is_in_result:
  assumes "il_ok g l" "0 \<le> g" "il_reachable e l"
  shows "il_is_in e l = Inr (il_mem l e)"
proof (cases "il_intervals l = []")
  case True
  then show ?thesis by (simp add: il_is_in_def lower_bound_def)
next
  case False
  obtain us a b vs where s: "il_intervals l = us @ (a, b) # vs" "a \<le> e" "\<forall>p\<in>set us. fst p < a"
    "a < b" "b \<le> il_max l" "\<forall>p\<in>set vs. b + g \<le> fst p \<and> e < fst p"
    "\<forall>y. intervals_mem us y \<longrightarrow> y < a" "\<forall>y. intervals_mem vs y \<longrightarrow> b + g \<le> y \<and> e < y"
    "a = e \<and> lower_bound (key_lt e) (il_intervals l) = length us \<or>
     a < e \<and> lower_bound (key_lt e) (il_intervals l) = Suc (length us)"
    by (rule il_left_run [OF assms False])
  have "il_is_in e l = Inr (a \<le> e \<and> e < b)"
    using s(1,2,6,9) by (cases vs) (auto simp: il_is_in_def Let_def)
  moreover have "il_mem l e \<longleftrightarrow> e < b" using s(1,2) s(7) [rule_format, of e] s(8) [rule_format, of e] by auto
  ultimately show ?thesis using s(2) by simp
qed

text \<open>The run left of the element, its exclusive end included.\<close>

lemma il_get_interval_result:
  assumes "il_ok g l" "0 \<le> g" "il_reachable e l" "il_intervals l \<noteq> []"
  shows "\<exists>us a b vs. il_intervals l = us @ (a, b) # vs \<and> a \<le> e \<and> (\<forall>p\<in>set vs. b + g \<le> fst p \<and> e < fst p) \<and>
    (\<forall>p\<in>set us. fst p < a) \<and> a < b \<and> b \<le> il_max l \<and>
    il_get_interval e l = Inr (if b < e then (il_max l, il_max l) else (a, b))"
proof -
  obtain us a b vs where s: "il_intervals l = us @ (a, b) # vs" "a \<le> e" "\<forall>p\<in>set us. fst p < a"
    "a < b" "b \<le> il_max l" "\<forall>p\<in>set vs. b + g \<le> fst p \<and> e < fst p"
    "\<forall>y. intervals_mem us y \<longrightarrow> y < a" "\<forall>y. intervals_mem vs y \<longrightarrow> b + g \<le> y \<and> e < y"
    "a = e \<and> lower_bound (key_lt e) (il_intervals l) = length us \<or>
     a < e \<and> lower_bound (key_lt e) (il_intervals l) = Suc (length us)"
    by (rule il_left_run [OF assms])
  have "il_get_interval e l = Inr (if b < e then (il_max l, il_max l) else (a, b))"
    using s(1,2,6,9) by (cases vs) (auto simp: il_get_interval_def Let_def)
  with s show ?thesis by blast
qed

lemma il_deletion_eq:
  assumes "il_ok g l" "0 \<le> g" "il_reachable e l" "il_intervals l \<noteq> []"
  shows "\<exists>us a b vs. il_intervals l = us @ (a, b) # vs \<and> a \<le> e \<and>
    (\<forall>y. intervals_mem us y \<longrightarrow> y < a) \<and> (\<forall>y. intervals_mem vs y \<longrightarrow> b + g \<le> y \<and> e < y) \<and>
    il_deletion e l =
      (if e < b then
         if a = e then Inr (True, l\<lparr> il_intervals := us @ vs \<rparr>)
         else Inr (True, l\<lparr> il_intervals := us @ (a, e) # vs \<rparr>)
       else Inr (False, l))"
proof -
  obtain us a b vs where s: "il_intervals l = us @ (a, b) # vs" "a \<le> e" "\<forall>p\<in>set us. fst p < a"
    "a < b" "b \<le> il_max l" "\<forall>p\<in>set vs. b + g \<le> fst p \<and> e < fst p"
    "\<forall>y. intervals_mem us y \<longrightarrow> y < a" "\<forall>y. intervals_mem vs y \<longrightarrow> b + g \<le> y \<and> e < y"
    "a = e \<and> lower_bound (key_lt e) (il_intervals l) = length us \<or>
     a < e \<and> lower_bound (key_lt e) (il_intervals l) = Suc (length us)"
    by (rule il_left_run [OF assms])
  have "il_deletion e l =
      (if e < b then
         if a = e then Inr (True, l\<lparr> il_intervals := us @ vs \<rparr>)
         else Inr (True, l\<lparr> il_intervals := us @ (a, e) # vs \<rparr>)
       else Inr (False, l))"
    using s(1,2,6,9) by (cases vs) (auto simp: il_deletion_def Let_def)
  then show ?thesis
    by (intro exI [of _ us] exI [of _ a] exI [of _ b] exI [of _ vs] conjI allI impI)
      (use s in blast)+
qed

lemma il_below_undefined:
  assumes "\<not> il_reachable e l"
  shows "il_is_in e l = Inl Undefined_behaviour" "il_deletion e l = Inl Undefined_behaviour"
    "il_get_interval e l = Inl Undefined_behaviour"
  using assms
  by (cases "il_intervals l"; auto simp: il_reachable_def il_is_in_def il_deletion_def il_get_interval_def lower_bound_def)+

text \<open>What \<open>deletion\<close> removes: the element and the rest of its run.\<close>

definition deleted_from :: "interval_list \<Rightarrow> int \<Rightarrow> int \<Rightarrow> bool" where
  "deleted_from l e x \<longleftrightarrow> e \<le> x \<and> (\<forall>y. e \<le> y \<and> y \<le> x \<longrightarrow> il_mem l y)"

definition deletion_result :: "int \<Rightarrow> int \<Rightarrow> interval_list \<Rightarrow> bool \<times> interval_list \<Rightarrow> bool" where
  "deletion_result g e l r \<longleftrightarrow> (case r of (ch, l') \<Rightarrow>
     il_ok g l' \<and> il_max l' = il_max l \<and> (ch \<longleftrightarrow> il_mem l e) \<and>
     (\<forall>x. il_mem l' x \<longleftrightarrow> il_mem l x \<and> \<not> deleted_from l e x))"

lemma il_deletion_result:
  assumes "il_ok 1 l" "il_reachable e l"
  shows "\<exists>r. il_deletion e l = Inr r \<and> deletion_result 1 e l r"
proof (cases "il_intervals l = []")
  case True
  then show ?thesis by (simp add: il_deletion_def deletion_result_def)
next
  case False
  have "(0 :: int) \<le> 1" by simp
  from il_deletion_eq [OF assms(1) this assms(2) False] obtain us a b vs
    where s: "il_intervals l = us @ (a, b) # vs" "a \<le> e"
      "\<forall>y. intervals_mem us y \<longrightarrow> y < a" "\<forall>y. intervals_mem vs y \<longrightarrow> b + 1 \<le> y \<and> e < y"
    and r: "il_deletion e l =
      (if e < b then
         if a = e then Inr (True, l\<lparr> il_intervals := us @ vs \<rparr>)
         else Inr (True, l\<lparr> il_intervals := us @ (a, e) # vs \<rparr>)
       else Inr (False, l))"
    by (elim exE conjE) (rule that)
  have mem: "il_mem l y \<longleftrightarrow> intervals_mem us y \<or> a \<le> y \<and> y < b \<or> intervals_mem vs y" for y
    using s(1) by auto
  show ?thesis
  proof (cases "e < b")
    case True
    have nb: "\<not> il_mem l b" using s(2) s(3) [rule_format, of b] s(4) [rule_format, of b] True by (auto simp: mem)
    have f: "deleted_from l e x \<longleftrightarrow> e \<le> x \<and> x < b" for x
    proof
      assume f: "deleted_from l e x"
      with nb True show "e \<le> x \<and> x < b"
        unfolding deleted_from_def by (metis less_imp_le not_less)
    qed (use s(2) in \<open>auto simp: deleted_from_def mem\<close>)
    have e: "il_mem l e" using True s(2) by (simp add: mem)
    have ok: "intervals_ok 1 (il_max l) (us @ (a, b) # vs)" using assms(1) s(1) by simp
    have ok1: "intervals_ok 1 (il_max l) (us @ vs)" using ok by auto
    have ok2: "a \<noteq> e \<Longrightarrow> intervals_ok 1 (il_max l) (us @ (a, e) # vs)"
      using ok True s(2) by fastforce
    have m1: "intervals_mem (us @ vs) x \<longleftrightarrow> il_mem l x \<and> \<not> deleted_from l e x" if "a = e" for x
      using s(3) [rule_format, of x] s(4) [rule_format, of x] that by (auto simp: f mem)
    have m2: "intervals_mem (us @ (a, e) # vs) x \<longleftrightarrow> il_mem l x \<and> \<not> deleted_from l e x" if "a < e" for x
      using s(3) [rule_format, of x] s(4) [rule_format, of x] True that by (auto simp: f mem)
    show ?thesis
    proof (cases "a = e")
      case True
      then show ?thesis using r \<open>e < b\<close> e ok1 m1 by (simp add: deletion_result_def)
    next
      case False
      then show ?thesis using r \<open>e < b\<close> e ok2 m2 s(2) by (simp add: deletion_result_def)
    qed
  next
    case False
    then have "\<not> il_mem l e" using s(2) s(3) [rule_format, of e] s(4) [rule_format, of e] by (auto simp: mem)
    with False r assms show ?thesis by (auto simp: deletion_result_def deleted_from_def)
  qed
qed

lemma il_lone_addition_result:
  assumes "il_ok 0 l" "il_reachable e l" "e < il_max l"
  shows "\<exists>ch l'. il_lone_addition e l = Inr (ch, l') \<and> il_ok 0 l' \<and> il_max l' = il_max l \<and>
    il_reachable e l' \<and> (\<forall>x. il_mem l' x \<longleftrightarrow> il_mem l x \<or> ch \<and> x = e) \<and>
    (ch \<longleftrightarrow> \<not> (\<exists>p\<in>set (il_intervals l). fst p \<le> e \<and> e \<le> snd p))"
proof (cases "il_intervals l = []")
  case True
  then have r: "il_lone_addition e l = Inr (True, l\<lparr> il_intervals := [(e, e + 1)] \<rparr>)"
    by (simp add: il_lone_addition_def il_get_interval_def lower_bound_def)
  show ?thesis
    by (rule exI, rule exI, rule conjI, rule r) (use True assms(3) in \<open>auto simp: il_reachable_def\<close>)
next
  case False
  from il_get_interval_result [OF assms(1) order_refl assms(2) False] obtain us a b vs
    where s: "il_intervals l = us @ (a, b) # vs" "a \<le> e" "\<forall>p\<in>set vs. b + 0 \<le> fst p \<and> e < fst p"
      "\<forall>p\<in>set us. fst p < a" "a < b" "b \<le> il_max l"
      "il_get_interval e l = Inr (if b < e then (il_max l, il_max l) else (a, b))"
    by (elim exE conjE) (rule that)
  have ok: "intervals_ok 0 (il_max l) (us @ (a, b) # vs)" using assms(1) s(1) by simp
  have usa: "\<forall>p\<in>set us. snd p \<le> a" using ok by auto
  show ?thesis
  proof (cases "b < e")
    case True
    have us: "\<forall>p\<in>set us. fst p < e" "\<forall>p\<in>set vs. e < fst p" "a < e" using s(2-5) True by auto
    have r: "il_lone_addition e l = Inr (True, l\<lparr> il_intervals := us @ (a, b) # (e, e + 1) # vs \<rparr>)"
      using True s(1,7) us by (simp add: il_lone_addition_def map_insert_shapes)
    have ok': "intervals_ok 0 (il_max l) (us @ (a, b) # (e, e + 1) # vs)"
    proof -
      have "\<forall>p\<in>set us. snd p \<le> e" using usa s(2) by auto
      moreover have "\<forall>p\<in>set vs. e + 1 \<le> fst p" using us(2) by auto
      ultimately show ?thesis using ok assms(3) True by (auto simp del: One_nat_def)
    qed
    have n: "\<not> (\<exists>p\<in>set (us @ (a, b) # vs). fst p \<le> e \<and> e \<le> snd p)"
    proof -
      have "\<forall>p\<in>set us. snd p < e" using usa us(3) by auto
      then show ?thesis using True us(2) by (auto simp: ball_Un not_le)
    qed
    have h: "fst (hd (us @ (a, b) # w)) \<le> e" for w
      using us(1,3) by (cases us) auto
    show ?thesis
      by (rule exI, rule exI, rule conjI, rule r)
        (use s(1) ok' n h in \<open>auto simp: il_reachable_def\<close>)
  next
    case False
    then have r: "il_lone_addition e l = Inr (False, l)"
      using s(5-7) by (auto simp: il_lone_addition_def)
    have y: "\<exists>p\<in>set (il_intervals l). fst p \<le> e \<and> e \<le> snd p" using False s(1,2) by auto
    show ?thesis
      by (rule exI, rule exI, rule conjI, rule r) (use assms y in simp)
  qed
qed


section \<open>The virtual vector\<close>

text \<open>The ids the runs stand for, in order, with open runs cut at \<open>outer_limit\<close>.\<close>

definition run_end :: "int \<Rightarrow> int \<Rightarrow> int \<Rightarrow> int" where
  "run_end mx outer_limit b = (if b = mx then outer_limit else b)"

fun run_values :: "int \<Rightarrow> int \<Rightarrow> (int \<times> int) list \<Rightarrow> int list" where
  "run_values mx outer_limit [] = []"
| "run_values mx outer_limit ((a, b) # m) = [a..run_end mx outer_limit b - 1] @ run_values mx outer_limit m"

abbreviation il_values :: "int \<Rightarrow> interval_list \<Rightarrow> int list" where
  "il_values outer_limit l \<equiv> run_values (il_max l) outer_limit (il_intervals l)"

text \<open>No run starts at or after the limit: the invariant the callers keep with \<open>max_patch_id\<close>.\<close>

definition runs_within :: "int \<Rightarrow> int \<Rightarrow> (int \<times> int) list \<Rightarrow> bool" where
  "runs_within mx outer_limit m \<longleftrightarrow> (\<forall>p\<in>set m. fst p \<le> run_end mx outer_limit (snd p))"

lemma il_get_size_loop_values:
  "runs_within mx lim m \<Longrightarrow> il_get_size_loop mx lim n m = n + int (length (run_values mx lim m))"
  by (induction mx lim n m rule: il_get_size_loop.induct) (auto simp: Let_def runs_within_def run_end_def)

lemma nth_upto_append:
  "0 \<le> i \<Longrightarrow> i < r - a \<Longrightarrow> ([a..r - 1] @ xs) ! nat i = a + i"
  by (simp add: nth_append)

lemma il_get_element_loop_values:
  "runs_within mx lim m \<Longrightarrow> n \<le> i \<Longrightarrow>
   il_get_element_loop mx i lim n m =
     (if i - n < int (length (run_values mx lim m)) then run_values mx lim m ! nat (i - n) else mx)"
proof (induction mx i lim n m rule: il_get_element_loop.induct)
  case (2 mx i lim n a b m)
  define r where "r = run_end mx lim b"
  have ar: "a \<le> r" and w: "runs_within mx lim m" using 2(2) by (auto simp: runs_within_def r_def)
  have step: "il_get_element_loop mx i lim n ((a, b) # m) =
      (if i < n + (r - a) then a + (i - n) else il_get_element_loop mx i lim (n + (r - a)) m)"
    by (simp add: r_def run_end_def Let_def)
  have vals: "run_values mx lim ((a, b) # m) = [a..r - 1] @ run_values mx lim m"
    by (simp add: r_def)
  have len: "int (length [a..r - 1]) = r - a" using ar by simp
  show ?case
  proof (cases "i < n + (r - a)")
    case True
    then show ?thesis
      unfolding step vals using 2(3) len ar nth_upto_append [of "i - n" r a] by simp
  next
    case False
    have ih: "il_get_element_loop mx i lim (n + (r - a)) m =
      (if i - (n + (r - a)) < int (length (run_values mx lim m))
       then run_values mx lim m ! nat (i - (n + (r - a))) else mx)"
      using 2(1) [OF refl refl] False w by (simp add: r_def run_end_def)
    have "nat (i - n) = length [a..r - 1] + nat (i - (n + (r - a)))" using False ar by simp
    then have "([a..r - 1] @ run_values mx lim m) ! nat (i - n) = run_values mx lim m ! nat (i - (n + (r - a)))"
      by (simp only: nth_append_length_plus)
    then show ?thesis unfolding step vals ih using False len by simp
  qed
qed simp

lemma run_values_above:
  "x \<in> set (run_values mx lim m) \<Longrightarrow> \<forall>p\<in>set m. k \<le> fst p \<Longrightarrow> k \<le> x"
  by (induction mx lim m rule: run_values.induct) auto

lemma run_end_above:
  assumes "intervals_ok 0 mx ((a, b) # m)"
  shows "\<forall>p\<in>set m. run_end mx lim b \<le> fst p"
proof (cases "b = mx")
  case True
  have "m = []"
  proof (cases m)
    case (Cons p m')
    then show ?thesis using assms True by (cases p) auto
  qed
  then show ?thesis by simp
qed (use assms in \<open>auto simp: run_end_def\<close>)

lemma il_get_index_loop_values:
  assumes "intervals_ok 0 mx m" "runs_within mx lim m"
  shows "il_get_index_loop mx v lim n m =
     (if v \<in> set (run_values mx lim m) then n + int (length (takeWhile (\<lambda>x. x < v) (run_values mx lim m))) else - 1)"
  using assms
proof (induction mx v lim n m rule: il_get_index_loop.induct)
  case (2 mx v lim n a b m)
  define r where "r = run_end mx lim b"
  have ar: "a \<le> r" and w: "runs_within mx lim m" using 2(3) by (auto simp: runs_within_def r_def)
  have ok: "intervals_ok 0 mx m" using 2(2) by simp
  have step: "il_get_index_loop mx v lim n ((a, b) # m) =
      (if a \<le> v \<and> v < r then n + (v - a) else il_get_index_loop mx v lim (n + (r - a)) m)"
    by (simp add: r_def run_end_def Let_def)
  have vals: "run_values mx lim ((a, b) # m) = [a..r - 1] @ run_values mx lim m"
    by (simp add: r_def)
  show ?case
  proof (cases "a \<le> v \<and> v < r")
    case True
    have "[a..r - 1] = [a..v - 1] @ v # [v + 1..r - 1]"
      using True upto_split3 [of a v "r - 1"] by simp
    then have "takeWhile (\<lambda>x. x < v) ([a..r - 1] @ run_values mx lim m) = [a..v - 1]"
      by (simp add: takeWhile_append takeWhile_eq_all_conv [THEN iffD2])
    then show ?thesis using True unfolding step vals by simp
  next
    case False
    have low: "\<forall>x\<in>set (run_values mx lim m). r \<le> x"
      using run_values_above run_end_above [OF 2(2), of lim] by (fastforce simp: r_def)
    have ih: "il_get_index_loop mx v lim (n + (r - a)) m =
       (if v \<in> set (run_values mx lim m)
        then n + (r - a) + int (length (takeWhile (\<lambda>x. x < v) (run_values mx lim m))) else - 1)"
      using 2(1) [OF refl refl _ ok w] False by (simp add: r_def run_end_def)
    show ?thesis
    proof (cases "r \<le> v")
      case True
      then have "takeWhile (\<lambda>x. x < v) ([a..r - 1] @ run_values mx lim m)
          = [a..r - 1] @ takeWhile (\<lambda>x. x < v) (run_values mx lim m)"
        by (intro takeWhile_append2) auto
      then show ?thesis using True False ar unfolding step vals ih by simp
    next
      case below: False
      then have "v \<notin> set (run_values mx lim m)" using low by auto
      then show ?thesis using False below unfolding step vals ih by auto
    qed
  qed
qed simp

lemma set_run_values:
  assumes "intervals_ok 0 mx m" "runs_within mx lim m" "\<forall>p\<in>set m. snd p = mx \<or> snd p \<le> lim" "lim \<le> mx"
  shows "x \<in> set (run_values mx lim m) \<longleftrightarrow> intervals_mem m x \<and> x < lim"
  using assms
  by (induction mx lim m rule: run_values.induct) (auto simp: run_end_def runs_within_def)

lemma sorted_run_values: "intervals_ok 0 mx m \<Longrightarrow> sorted_wrt (<) (run_values mx lim m)"
proof (induction mx lim m rule: run_values.induct)
  case (2 mx lim a b m)
  then show ?case
    using run_values_above run_end_above [OF 2(2), of lim] by (fastforce simp: sorted_wrt_append)
qed simp

section \<open>Byte format\<close>

interpretation run_bytes: codec "enc_pair encode_SLEB128 encode_SLEB128" "dec_pair decode_int decode_int"
  "\<lambda>p. int32_range (fst p) \<and> int32_range (snd p)"
  by (rule codec_pair) (rule sleb32.codec_axioms)+

lemma foldl_map_insert_sorted:
  "sorted_wrt (<) (map fst (acc @ ps)) \<Longrightarrow>
   foldl (\<lambda>m p. map_insert (fst p) (snd p) m) acc ps = acc @ ps"
proof (induction ps arbitrary: acc)
  case (Cons p ps)
  have "map_insert (fst p) (snd p) acc = acc @ [p]"
    using map_insert_split [of acc "fst p" "[]" "snd p"] Cons.prems by (auto simp: sorted_wrt_append)
  then show ?case using Cons.IH [of "acc @ [p]"] Cons.prems by simp
qed simp

lemma intervals_ok_sorted: "intervals_ok 0 M m \<Longrightarrow> sorted_wrt (<) (map fst m)"
proof (induction m)
  case (Cons p m)
  then show ?case by (cases p) fastforce
qed simp

lemma intervals_ok_mono: "intervals_ok 1 M m \<Longrightarrow> intervals_ok 0 M m"
proof (induction m)
  case (Cons p m)
  then show ?case by (cases p) fastforce
qed simp

definition runs_int32 :: "(int \<times> int) list \<Rightarrow> bool" where
  "runs_int32 m \<longleftrightarrow> (\<forall>p\<in>set m. int32_range (fst p) \<and> int32_range (snd p))"

lemma il_deserialize_serialize:
  assumes "il_ok 0 l" "runs_int32 (il_intervals l)" "il_max l' = il_max l"
  shows "il_deserialize (il_serialize l) l' = Inr l"
proof -
  have "decode_all (dec_pair decode_int decode_int) (length (il_serialize l)) (il_serialize l) = Inr (il_intervals l)"
    unfolding il_serialize_def using assms(2)
    by (intro run_bytes.decode_all_concat) (auto simp: runs_int32_def)
  moreover have "foldl (\<lambda>m p. map_insert (fst p) (snd p) m) [] (il_intervals l) = il_intervals l"
    using foldl_map_insert_sorted [of "[]"] intervals_ok_sorted [OF assms(1)] by simp
  ultimately show ?thesis using assms(3) by (simp add: il_deserialize_def)
qed

text \<open>The allocated buffer: twice the largest \<open>int\<close> per run.\<close>

definition il_alloc_size :: "interval_list \<Rightarrow> nat" where
  "il_alloc_size l = get_SLEB128_size INT_MAX * 2 * length (il_intervals l)"

lemma il_serialize_length:
  assumes "runs_int32 (il_intervals l)"
  shows "length (il_serialize l) \<le> il_alloc_size l"
proof -
  have "length (concat (map (enc_pair encode_SLEB128 encode_SLEB128) m)) \<le> 10 * length m"
    if "runs_int32 m" for m
    using that
  proof (induction m)
    case (Cons p m)
    then show ?case
      using get_SLEB128_size_bound [of 4 "fst p"] get_SLEB128_size_bound [of 4 "snd p"]
      by (auto simp: runs_int32_def enc_pair_def length_encode_SLEB128 INT_MAX_def INT_MIN_def)
  qed simp
  then show ?thesis
    using assms by (simp add: il_serialize_def il_alloc_size_def get_SLEB128_size_INT_MAX)
qed


section \<open>Properties\<close>

text \<open>C5: \<open>IntervalList::addition\<close> of an element below the maximum to a well-formed list: when the element is not
  below the first run it adds exactly the element and everything after it up to the next run (everything up to the
  maximum after the last run), returns whether the element was absent, and keeps the runs nonempty,
  ordered and (with gap 1) maximal.\<close>

theorem il_addition_correct:
  assumes "il_ok g l" "g \<in> {0, 1}" "il_reachable e l" "e < il_max l"
  shows "\<exists>l'. il_addition e l = Inr (\<not> il_mem l e, l') \<and> il_ok g l' \<and> il_max l' = il_max l \<and>
    (\<forall>x. il_mem l' x \<longleftrightarrow> il_mem l x \<or>
       (e \<le> x \<and> x < il_max l \<and> (\<forall>y. e \<le> y \<and> y \<le> x \<longrightarrow> \<not> il_mem l y)))"
proof -
  have "0 \<le> g" "g \<le> 1" using assms(2) by auto
  from il_addition_result [OF assms(1) this assms(3,4)] show ?thesis
    by (auto simp: addition_result_def added_from_def)
qed

theorem il_addition_correct_witness:
  "\<exists>l'. il_addition 6 \<lparr> il_max = 100, il_intervals = [(2, 5), (8, 10), (12, 100)] \<rparr> = Inr (True, l') \<and>
     il_mem l' 6 \<and> il_mem l' 7 \<and> \<not> il_mem l' 10"
proof -
  define l where "l = \<lparr> il_max = 100, il_intervals = [(2 :: int, 5 :: int), (8, 10), (12, 100)] \<rparr>"
  have n: "\<not> il_mem l 6" "\<not> il_mem l 7" "\<not> il_mem l 10" "il_mem l 8" by (simp_all add: l_def)
  have "il_ok 1 l" "il_reachable 6 l" "6 < il_max l" by (simp_all add: l_def il_reachable_def)
  from il_addition_correct [OF this(1) _ this(2,3)] obtain l' where
    r: "il_addition 6 l = Inr (\<not> il_mem l 6, l')"
      "\<forall>x. il_mem l' x \<longleftrightarrow> il_mem l x \<or> (6 \<le> x \<and> x < il_max l \<and> (\<forall>y. 6 \<le> y \<and> y \<le> x \<longrightarrow> \<not> il_mem l y))"
    by auto
  have "il_mem l' 6" using r(2) n by (auto simp: l_def)
  moreover have "il_mem l' 7"
  proof -
    have "\<forall>y. 6 \<le> y \<and> y \<le> (7 :: int) \<longrightarrow> y = 6 \<or> y = 7" by auto
    then have "\<forall>y. 6 \<le> y \<and> y \<le> 7 \<longrightarrow> \<not> il_mem l y" using n by blast
    then show ?thesis using r(2) by (simp add: l_def)
  qed
  moreover have "\<not> il_mem l' 10" using r(2) [rule_format, of 10] n by auto
  ultimately show ?thesis using r(1) n by (simp add: l_def)
qed

text \<open>C6: \<open>IntervalList::deletion\<close> on a well-formed list: of an element that is not below the first run it
  removes exactly the element and the rest of its run, reports whether it was present, and keeps the list
  well-formed with maximal runs; for an element below the first run of a nonempty list it steps before
  \<open>begin()\<close>, which is undefined.\<close>

theorem il_deletion_correct:
  assumes "il_ok 1 l"
  shows "if il_reachable e l
    then \<exists>l'. il_deletion e l = Inr (il_mem l e, l') \<and> il_ok 1 l' \<and> il_max l' = il_max l \<and>
      (\<forall>x. il_mem l' x \<longleftrightarrow>
         il_mem l x \<and> \<not> (e \<le> x \<and> (\<forall>y. e \<le> y \<and> y \<le> x \<longrightarrow> il_mem l y)))
    else il_deletion e l = Inl Undefined_behaviour"
  using il_deletion_result [OF assms, of e] il_below_undefined [of e l]
  by (auto simp: deletion_result_def deleted_from_def)

theorem il_deletion_correct_witness:
  "\<exists>l'. il_deletion 3 \<lparr> il_max = 100, il_intervals = [(2, 5), (8, 100)] \<rparr> = Inr (True, l') \<and>
     \<not> il_mem l' 3 \<and> il_mem l' 2 \<and> il_mem l' 8"
proof -
  define l where "l = \<lparr> il_max = 100, il_intervals = [(2 :: int, 5 :: int), (8, 100)] \<rparr>"
  have n: "il_mem l 3" "il_mem l 2" "il_mem l 8" "\<not> il_mem l 6" by (simp_all add: l_def)
  have ok: "il_ok 1 l" "il_reachable 3 l" by (simp_all add: l_def il_reachable_def)
  from il_deletion_correct [OF ok(1), of 3, unfolded if_P [OF ok(2)]] obtain l' where
    r: "il_deletion 3 l = Inr (il_mem l 3, l')"
      "\<forall>x. il_mem l' x \<longleftrightarrow> il_mem l x \<and> \<not> (3 \<le> x \<and> (\<forall>y. 3 \<le> y \<and> y \<le> x \<longrightarrow> il_mem l y))"
    by blast
  have "\<not> il_mem l' 3" using r(2) n by auto
  moreover have "il_mem l' 2" using r(2) n by auto
  moreover have "il_mem l' 8"
  proof -
    have "\<not> (\<forall>y. 3 \<le> y \<and> y \<le> (8 :: int) \<longrightarrow> il_mem l y)"
      using n(4) by (intro notI) (auto dest: spec [of _ 6])
    then show ?thesis using r(2) n by blast
  qed
  ultimately show ?thesis using r(1) n(1) by (simp add: l_def)
qed

text \<open>C7: The lookups of a well-formed \<open>IntervalList\<close>, for an outer limit that is not above the maximum, not
  below the end of a closed run and not below the start of an open one, agree with one sorted vector of the
  ids below the limit: \<open>get_size\<close> is its length, \<open>get_element_at\<close> of a nonnegative index its entry (the maximum past its
  end), \<open>get_index\<close> the position of an id in it, \<open>-1\<close> for an absent one. \<open>is_in\<close> is membership in the list
  for an id that is not below its first run, and undefined, a step before \<open>begin()\<close>, for one that is.\<close>

theorem il_lookups_correct:
  assumes "il_ok 0 l" "runs_within (il_max l) lim (il_intervals l)"
    "\<forall>p\<in>set (il_intervals l). snd p = il_max l \<or> snd p \<le> lim" "lim \<le> il_max l" "0 \<le> i"
  shows "il_is_in e l = (if il_reachable e l then Inr (il_mem l e) else Inl Undefined_behaviour) \<and>
    set (il_values lim l) = {x. il_mem l x \<and> x < lim} \<and> sorted_wrt (<) (il_values lim l) \<and>
    il_get_size lim l = int (length (il_values lim l)) \<and>
    il_get_element_at i lim l =
      (if i < int (length (il_values lim l)) then il_values lim l ! nat i else il_max l) \<and>
    il_get_index e lim l =
      (if e \<in> set (il_values lim l) then int (length (takeWhile (\<lambda>x. x < e) (il_values lim l))) else - 1)"
  using il_is_in_result [OF assms(1) order_refl, of e] il_below_undefined(1) [of e l] set_run_values [OF assms(1-4)]
    sorted_run_values [OF assms(1)] il_get_size_loop_values [OF assms(2), of 0]
    il_get_element_loop_values [OF assms(2,5)] il_get_index_loop_values [OF assms(1,2), of e 0]
  by (auto simp: il_get_size_def il_get_element_at_def il_get_index_def)

theorem il_lookups_correct_witness:
  "il_is_in 9 \<lparr> il_max = 100, il_intervals = [(2, 5), (8, 100)] \<rparr> = Inr True \<and>
   il_get_element_at 3 11 \<lparr> il_max = 100, il_intervals = [(2, 5), (8, 100)] \<rparr> =
     il_values 11 \<lparr> il_max = 100, il_intervals = [(2, 5), (8, 100)] \<rparr> ! 3"
  using il_lookups_correct [of "\<lparr> il_max = 100, il_intervals = [(2, 5), (8, 100)] \<rparr>" 11 3 9]
  by (simp add: il_reachable_def runs_within_def run_end_def)

text \<open>The byte format of an interval list: \<open>deserialize\<close> restores the map \<open>serialize\<close> wrote, for
  any well-formed list of 32-bit ids and whatever the receiving list held, within the allocated buffer.\<close>

theorem il_roundtrip:
  assumes "il_ok 0 l" "runs_int32 (il_intervals l)" "il_max l' = il_max l"
  shows "il_deserialize (il_serialize l) l' = Inr l \<and> length (il_serialize l) \<le> il_alloc_size l"
  using il_deserialize_serialize [OF assms] il_serialize_length [OF assms(2)] by simp

theorem il_roundtrip_witness:
  "il_deserialize (il_serialize \<lparr> il_max = INT_MAX, il_intervals = [(0, 3), (70, INT_MAX)] \<rparr>)
     \<lparr> il_max = INT_MAX, il_intervals = [(1, 2)] \<rparr> =
   Inr \<lparr> il_max = INT_MAX, il_intervals = [(0, 3), (70, INT_MAX)] \<rparr>"
  using il_roundtrip [of "\<lparr> il_max = INT_MAX, il_intervals = [(0, 3), (70, INT_MAX)] \<rparr>"
      "\<lparr> il_max = INT_MAX, il_intervals = [(1, 2)] \<rparr>"]
  by (simp add: runs_int32_def INT_MAX_def INT_MIN_def)

text \<open>C8: \<open>lone_addition\<close> of an element below the maximum to a well-formed list: when the element is not below
  the first run it adds the single element exactly when no run contains it or ends right before it; an
  absent element that directly follows a run is dropped, because \<open>get_interval\<close> compares with the exclusive
  end as if it were inclusive. For an element below the first run of a nonempty list \<open>get_interval\<close> steps
  before \<open>begin()\<close>, which is undefined.\<close>

theorem il_lone_addition_correct:
  assumes "il_ok 0 l" "e < il_max l"
  shows "if il_reachable e l
    then \<exists>ch l'. il_lone_addition e l = Inr (ch, l') \<and> il_ok 0 l' \<and>
      (\<forall>x. il_mem l' x \<longleftrightarrow> il_mem l x \<or> ch \<and> x = e) \<and>
      (ch \<longleftrightarrow> \<not> il_mem l e \<and> (\<forall>p\<in>set (il_intervals l). snd p \<noteq> e))
    else il_lone_addition e l = Inl Undefined_behaviour"
proof (cases "il_reachable e l")
  case True
  from il_lone_addition_result [OF assms(1) True assms(2)] obtain ch l' where
    r: "il_lone_addition e l = Inr (ch, l')" "il_ok 0 l'"
      "\<forall>x. il_mem l' x \<longleftrightarrow> il_mem l x \<or> ch \<and> x = e"
      "ch \<longleftrightarrow> \<not> (\<exists>p\<in>set (il_intervals l). fst p \<le> e \<and> e \<le> snd p)" by blast
  have "ch \<longleftrightarrow> \<not> il_mem l e \<and> (\<forall>p\<in>set (il_intervals l). snd p \<noteq> e)"
    using r(4) intervals_ok_bounds [OF assms(1)] unfolding intervals_mem_def
    by (metis le_less less_imp_le)
  with r True show ?thesis by (simp only: if_True) blast
qed (simp add: il_lone_addition_def il_below_undefined)

theorem il_lone_addition_correct_witness:
  "\<exists>l'. il_lone_addition 3 \<lparr> il_max = 100, il_intervals = [(1, 3)] \<rparr> = Inr (False, l') \<and> \<not> il_mem l' 3"
proof -
  define l where "l = \<lparr> il_max = 100, il_intervals = [(1 :: int, 3 :: int)] \<rparr>"
  have "il_ok 0 l" "il_reachable 3 l" "3 < il_max l" by (simp_all add: l_def il_reachable_def)
  with il_lone_addition_correct [of l 3] obtain ch l' where
    "il_lone_addition 3 l = Inr (ch, l')" "il_mem l' 3 \<longleftrightarrow> il_mem l 3 \<or> ch" "\<not> ch"
    by (auto simp: l_def)
  then show ?thesis by (simp add: l_def)
qed

end
