(* ===== verification/Version_History.thy ===== *)
theory Version_History
  imports Interval_List
begin

text \<open>
  What a set of versions promises its clients when patches are applied in ascending order: the
  history of \<open>addition\<close> and \<open>deletion\<close> events is a step function, and the state answers every
  version with the last event at or before it. The contract is a locale; \<open>IntervalList\<close> provides it.
\<close>

section \<open>Histories\<close>

datatype event = Added (event_id: int) | Deleted (event_id: int)

fun is_added :: "event \<Rightarrow> bool" where
  "is_added (Added e) = True"
| "is_added (Deleted e) = False"

text \<open>The status of a version: the last event at or before it decides, absent without one.\<close>

definition status_at :: "event list \<Rightarrow> int \<Rightarrow> bool" where
  "status_at evs v = (let es = filter (\<lambda>e. event_id e \<le> v) evs in es \<noteq> [] \<and> is_added (last es))"

fun first_added :: "event list \<Rightarrow> int option" where
  "first_added [] = None"
| "first_added (Added e # evs) = Some e"
| "first_added (Deleted e # evs) = first_added evs"

text \<open>Ids ascend strictly, start at \<open>lo\<close> and stay below \<open>hi\<close>.\<close>

definition ascending :: "int \<Rightarrow> int \<Rightarrow> event list \<Rightarrow> bool" where
  "ascending lo hi evs \<longleftrightarrow> sorted_wrt (<) (map event_id evs) \<and> (\<forall>e\<in>set evs. lo \<le> event_id e \<and> event_id e < hi)"

lemma status_at_Nil [simp]: "status_at [] v = False"
  by (simp add: status_at_def)

lemma status_at_snoc:
  "status_at (evs @ [e]) v = (if event_id e \<le> v then is_added e else status_at evs v)"
  by (simp add: status_at_def Let_def)

lemma first_added_snoc:
  "first_added (evs @ [e]) =
     (case first_added evs of None \<Rightarrow> if is_added e then Some (event_id e) else None | Some a \<Rightarrow> Some a)"
proof (induction evs)
  case Nil
  then show ?case by (cases e) auto
next
  case (Cons a evs)
  then show ?case by (cases a) auto
qed

lemma ascending_snoc:
  "ascending lo hi (evs @ [e]) \<longleftrightarrow> ascending lo hi evs \<and> (\<forall>a\<in>set evs. event_id a < event_id e) \<and>
     lo \<le> event_id e \<and> event_id e < hi"
  by (auto simp: ascending_def sorted_wrt_append)

section \<open>The contract\<close>

locale version_set =
  fixes empty :: 's
    and add :: "int \<Rightarrow> 's \<Rightarrow> (bool \<times> 's) outcome"
    and del :: "int \<Rightarrow> 's \<Rightarrow> (bool \<times> 's) outcome"
    and look :: "'s \<Rightarrow> int \<Rightarrow> bool"
    and start :: "'s \<Rightarrow> int option"
    and inv :: "int \<Rightarrow> 's \<Rightarrow> bool"
    and limit :: int
  assumes inv_empty: "inv k empty"
    and look_empty: "\<not> look empty x"
    and start_empty: "start empty = None"
    and inv_mono: "inv k s \<Longrightarrow> k \<le> k' \<Longrightarrow> inv k' s"
    and add_step: "inv k s \<Longrightarrow> k \<le> e \<Longrightarrow> e < limit \<Longrightarrow>
      \<exists>ch s'. add e s = Inr (ch, s') \<and> inv (e + 1) s' \<and>
        (\<forall>x. look s' x \<longleftrightarrow> (if e \<le> x then x < limit else look s x)) \<and>
        start s' = (case start s of None \<Rightarrow> Some e | Some a \<Rightarrow> Some a)"
    and del_step: "inv k s \<Longrightarrow> k \<le> e \<Longrightarrow> e < limit \<Longrightarrow>
      \<exists>ch s'. del e s = Inr (ch, s') \<and> inv (e + 1) s' \<and>
        (\<forall>x. look s' x \<longleftrightarrow> x < e \<and> look s x) \<and> start s' = start s"
begin

fun apply_event :: "event \<Rightarrow> 's \<Rightarrow> 's outcome" where
  "apply_event (Added e) s = bind_outcome (add e s) (\<lambda>(ch, s'). Inr s')"
| "apply_event (Deleted e) s = bind_outcome (del e s) (\<lambda>(ch, s'). Inr s')"

definition run :: "event list \<Rightarrow> 's outcome" where
  "run evs = foldl (\<lambda>r e. bind_outcome r (apply_event e)) (Inr empty) evs"

lemma apply_event_step:
  assumes "inv k s" "k \<le> event_id e" "event_id e < limit"
  shows "\<exists>s'. apply_event e s = Inr s' \<and> inv (event_id e + 1) s' \<and>
    (\<forall>x < limit. look s' x \<longleftrightarrow> (if event_id e \<le> x then is_added e else look s x)) \<and>
    start s' = (case start s of None \<Rightarrow> if is_added e then Some (event_id e) else None | Some a \<Rightarrow> Some a)"
proof (cases e)
  case (Added i)
  then show ?thesis using add_step [OF assms(1), of i] assms by (auto split: option.split)
next
  case (Deleted i)
  then show ?thesis using del_step [OF assms(1), of i] assms by (auto split: option.split)
qed

text \<open>After any ascending history the state answers every version by the last event before it.\<close>

lemma run_history:
  assumes "ascending lo limit evs"
  shows "\<exists>s. run evs = Inr s \<and> (\<forall>k. (\<forall>e\<in>set evs. event_id e < k) \<longrightarrow> inv k s) \<and>
    (\<forall>x < limit. look s x \<longleftrightarrow> status_at evs x) \<and> start s = first_added evs"
  using assms
proof (induction evs rule: rev_induct)
  case Nil
  then show ?case by (simp add: run_def inv_empty look_empty start_empty)
next
  case (snoc e evs)
  then have a: "ascending lo limit evs" "\<forall>a\<in>set evs. event_id a < event_id e" "event_id e < limit"
    by (auto simp: ascending_snoc)
  from snoc.IH [OF a(1)] obtain s where
    s: "run evs = Inr s" "\<forall>k. (\<forall>e\<in>set evs. event_id e < k) \<longrightarrow> inv k s"
      "\<forall>x < limit. look s x \<longleftrightarrow> status_at evs x" "start s = first_added evs" by blast
  from apply_event_step [OF s(2) [rule_format, OF a(2) [rule_format]] order_refl a(3)] obtain s' where
    s': "apply_event e s = Inr s'" "inv (event_id e + 1) s'"
      "\<forall>x < limit. look s' x \<longleftrightarrow> (if event_id e \<le> x then is_added e else look s x)"
      "start s' = (case start s of None \<Rightarrow> if is_added e then Some (event_id e) else None | Some a \<Rightarrow> Some a)"
    by blast
  have "run (evs @ [e]) = Inr s'" using s(1) s'(1) by (simp add: run_def)
  moreover have "inv k s'" if "\<forall>a\<in>set (evs @ [e]). event_id a < k" for k
    using inv_mono [OF s'(2), of k] that by simp
  moreover have "look s' x \<longleftrightarrow> status_at (evs @ [e]) x" if "x < limit" for x
    using s(3) s'(3) that by (simp add: status_at_snoc)
  moreover have "start s' = first_added (evs @ [e])" using s(4) s'(4) by (simp add: first_added_snoc)
  ultimately show ?case by blast
qed

end

section \<open>Interval lists keep it\<close>

text \<open>All changes lie before \<open>k\<close>: from there on the membership is constant up to the maximum.\<close>

definition il_settled :: "int \<Rightarrow> interval_list \<Rightarrow> bool" where
  "il_settled k l \<longleftrightarrow> il_ok 1 l \<and> il_max l = INT_MAX \<and>
     (\<exists>c. \<forall>x. k \<le> x \<and> x < INT_MAX \<longrightarrow> il_mem l x = c) \<and> (\<forall>p\<in>set (il_intervals l). fst p < k)"

definition il_start :: "interval_list \<Rightarrow> int option" where
  "il_start l = (case il_intervals l of [] \<Rightarrow> None | p # m \<Rightarrow> Some (fst p))"

lemma il_settled_new: "il_settled k (il_new INT_MAX)"
  unfolding il_settled_def il_new_def by (auto intro: exI [of _ False])

lemma il_settled_reachable: "il_settled k l \<Longrightarrow> k \<le> e \<Longrightarrow> il_reachable e l"
  by (cases "il_intervals l") (auto simp: il_settled_def il_reachable_def)

lemma il_mem_below_max: "il_ok g l \<Longrightarrow> il_mem l x \<Longrightarrow> x < il_max l"
  using intervals_ok_bounds [of g "il_max l" "il_intervals l"] by (fastforce simp: intervals_mem_def)


lemma il_start_None: "il_ok g l \<Longrightarrow> il_start l = None \<longleftrightarrow> (\<forall>x. \<not> il_mem l x)"
proof (cases "il_intervals l")
  case (Cons p m)
  moreover assume "il_ok g l"
  ultimately have "il_mem l (fst p)" by (cases p) simp
  then show ?thesis using Cons by (auto simp: il_start_def)
qed (simp add: il_start_def)

lemma il_start_Some:
  assumes "il_ok g l" "0 \<le> g"
  shows "il_start l = Some a \<longleftrightarrow> il_mem l a \<and> (\<forall>x. il_mem l x \<longrightarrow> a \<le> x)"
proof (cases "il_intervals l")
  case (Cons p m)
  obtain b c where p: "p = (b, c)" by (cases p)
  have "b < c" "\<forall>q\<in>set m. c + g \<le> fst q" using assms(1) Cons p by auto
  then have "\<forall>q\<in>set m. b \<le> fst q" using assms(2) by auto
  then have le: "il_mem l x \<Longrightarrow> b \<le> x" for x
    using Cons p intervals_mem_above [of m x b] by auto
  have "il_mem l b" using \<open>b < c\<close> Cons p by simp
  moreover have "il_start l = Some b" using Cons p by (simp add: il_start_def)
  ultimately show ?thesis using le by (metis option.inject order_antisym)
qed (simp add: il_start_def)

lemma run_start_gap:
  assumes "intervals_ok 1 M m" "p \<in> set m"
  shows "\<not> intervals_mem m (fst p - 1)"
proof -
  from split_list [OF assms(2)] obtain us vs where m: "m = us @ p # vs" by blast
  obtain b c where p: "p = (b, c)" by (cases p)
  have "\<forall>q\<in>set us. snd q \<le> b - 1" "\<forall>q\<in>set vs. b \<le> fst q"
    using assms(1) unfolding m p by auto
  then have "\<not> intervals_mem us (b - 1)" "\<not> intervals_mem vs (b - 1)"
    using intervals_mem_below [of us "b - 1" "b - 1"] intervals_mem_above [of vs "b - 1" b] by auto
  then show ?thesis by (simp add: m p)
qed

lemma il_settled_cong:
  assumes "il_ok 1 l" "il_max l = INT_MAX" "\<And>x. e \<le> x \<Longrightarrow> x < INT_MAX \<Longrightarrow> il_mem l x = c" "e < INT_MAX"
  shows "il_settled (e + 1) l"
  unfolding il_settled_def
proof (intro conjI ballI)
  show "\<exists>c. \<forall>x. e + 1 \<le> x \<and> x < INT_MAX \<longrightarrow> il_mem l x = c" using assms(3) by auto
  fix p assume p: "p \<in> set (il_intervals l)"
  show "fst p < e + 1"
  proof (rule ccontr)
    assume "\<not> fst p < e + 1"
    moreover have "fst p < INT_MAX" "il_mem l (fst p)"
      using intervals_ok_bounds [OF assms(1) p] assms(2) p by (auto simp: intervals_mem_def)
    ultimately have "il_mem l (fst p - 1)" using assms(3) [of "fst p"] assms(3) [of "fst p - 1"] by simp
    with run_start_gap [OF assms(1) p] show False by blast
  qed
qed (use assms in auto)

lemma il_settled_mem: "il_settled k l \<Longrightarrow> k \<le> x \<Longrightarrow> k \<le> y \<Longrightarrow> x < INT_MAX \<Longrightarrow> y < INT_MAX \<Longrightarrow> il_mem l x = il_mem l y"
  unfolding il_settled_def by metis

lemma il_add_step:
  assumes "il_settled k l" "k \<le> e" "e < INT_MAX"
  shows "\<exists>ch l'. il_addition e l = Inr (ch, l') \<and> il_settled (e + 1) l' \<and>
    (\<forall>x. il_mem l' x \<longleftrightarrow> (if e \<le> x then x < INT_MAX else il_mem l x)) \<and>
    il_start l' = (case il_start l of None \<Rightarrow> Some e | Some a \<Rightarrow> Some a)"
proof -
  have ok: "il_ok 1 l" "il_max l = INT_MAX" using assms(1) unfolding il_settled_def by blast+
  from il_addition_result [OF ok(1) _ _ il_settled_reachable [OF assms(1,2)]] ok(2) assms(3)
  obtain ch l' where r: "il_addition e l = Inr (ch, l')" "addition_result 1 e l (ch, l')" by auto
  have m': "il_mem l' x \<longleftrightarrow> il_mem l x \<or> added_from l e x" for x
    using r(2) by (simp add: addition_result_def)
  have mem: "il_mem l' x \<longleftrightarrow> (if e \<le> x then x < INT_MAX else il_mem l x)" for x
  proof (cases "e \<le> x \<and> x < INT_MAX")
    case True
    then have c: "\<forall>y. e \<le> y \<and> y \<le> x \<longrightarrow> il_mem l y = il_mem l x"
      by (intro allI impI il_settled_mem [OF assms(1)]) (use assms(2) True in linarith)+
    have "il_mem l x \<or> added_from l e x" unfolding added_from_def ok(2) using c True by blast
    then show ?thesis using m' True by simp
  next
    case False
    then have "\<not> added_from l e x" unfolding added_from_def ok(2) by blast
    then show ?thesis using m' False il_mem_below_max [OF ok(1), of x] ok(2) by auto
  qed
  have ok': "il_ok 1 l'" "il_max l' = INT_MAX" using r(2) ok by (auto simp: addition_result_def)
  have "il_start l' = (case il_start l of None \<Rightarrow> Some e | Some a \<Rightarrow> Some a)"
  proof (cases "il_start l")
    case None
    then have n: "\<forall>x. \<not> il_mem l x" using il_start_None [OF ok(1)] by blast
    have "il_mem l' e" using mem [of e] assms(3) by simp
    moreover have "e \<le> x" if "il_mem l' x" for x using mem [of x] n that by (metis (full_types))
    ultimately have "il_mem l' e \<and> (\<forall>x. il_mem l' x \<longrightarrow> e \<le> x)" by blast
    then have "il_start l' = Some e" by (rule iffD2 [OF il_start_Some [OF ok'(1) zero_le_one]])
    then show ?thesis using None by simp
  next
    case (Some a)
    then have a: "il_mem l a" "\<forall>x. il_mem l x \<longrightarrow> a \<le> x" using il_start_Some [OF ok(1) zero_le_one, of a] by auto
    have "a < k"
      using Some assms(1) by (cases "il_intervals l") (auto simp: il_start_def il_settled_def)
    then have "il_mem l' a \<and> (\<forall>x. il_mem l' x \<longrightarrow> a \<le> x)" using mem a assms(2) by auto
    then have "il_start l' = Some a" by (rule iffD2 [OF il_start_Some [OF ok'(1) zero_le_one]])
    then show ?thesis using Some by simp
  qed
  moreover have "il_settled (e + 1) l'"
    using il_settled_cong [OF ok', of e True] mem assms(3) by simp
  ultimately show ?thesis using r(1) mem by blast
qed

lemma il_del_step:
  assumes "il_settled k l" "k \<le> e" "e < INT_MAX"
  shows "\<exists>ch l'. il_deletion e l = Inr (ch, l') \<and> il_settled (e + 1) l' \<and>
    (\<forall>x. il_mem l' x \<longleftrightarrow> x < e \<and> il_mem l x) \<and> il_start l' = il_start l"
proof -
  have ok: "il_ok 1 l" "il_max l = INT_MAX" using assms(1) unfolding il_settled_def by blast+
  from il_deletion_result [OF ok(1) il_settled_reachable [OF assms(1,2)]]
  obtain ch l' where r: "il_deletion e l = Inr (ch, l')" "deletion_result 1 e l (ch, l')" by auto
  have m': "il_mem l' x \<longleftrightarrow> il_mem l x \<and> \<not> deleted_from l e x" for x
    using r(2) by (simp add: deletion_result_def)
  have mem: "il_mem l' x \<longleftrightarrow> x < e \<and> il_mem l x" for x
  proof (cases "e \<le> x \<and> il_mem l x")
    case True
    then have "x < INT_MAX" using il_mem_below_max [OF ok(1), of x] ok(2) by simp
    then have "\<forall>y. e \<le> y \<and> y \<le> x \<longrightarrow> il_mem l y = il_mem l x"
      by (intro allI impI il_settled_mem [OF assms(1)]) (use assms(2) True in linarith)+
    then have "deleted_from l e x" unfolding deleted_from_def using True by blast
    then show ?thesis using m' True by simp
  next
    case False
    then have "il_mem l x \<Longrightarrow> \<not> deleted_from l e x" unfolding deleted_from_def by blast
    then show ?thesis using m' False by auto
  qed
  have ok': "il_ok 1 l'" "il_max l' = INT_MAX" using r(2) ok by (auto simp: deletion_result_def)
  have "il_start l' = il_start l"
  proof (cases "il_start l")
    case None
    then show ?thesis using il_start_None [OF ok(1)] il_start_None [OF ok'(1)] mem by simp
  next
    case (Some a)
    then have a: "il_mem l a" "\<forall>x. il_mem l x \<longrightarrow> a \<le> x" using il_start_Some [OF ok(1) zero_le_one, of a] by auto
    have "a < k"
      using Some assms(1) by (cases "il_intervals l") (auto simp: il_start_def il_settled_def)
    then have "il_mem l' a \<and> (\<forall>x. il_mem l' x \<longrightarrow> a \<le> x)" using mem a assms(2) by auto
    then have "il_start l' = Some a" by (rule iffD2 [OF il_start_Some [OF ok'(1) zero_le_one]])
    then show ?thesis using Some by simp
  qed
  moreover have "il_settled (e + 1) l'"
    using il_settled_cong [OF ok', of e False] mem assms(3) by simp
  ultimately show ?thesis using r(1) mem by blast
qed

lemma il_settled_mono: "il_settled k l \<Longrightarrow> k \<le> k' \<Longrightarrow> il_settled k' l"
  unfolding il_settled_def by (metis order_trans order_less_le_trans)

interpretation ilv: version_set "il_new INT_MAX" il_addition il_deletion il_mem il_start il_settled INT_MAX
proof (rule version_set.intro, goal_cases)
  case (5 k s e)
  then show ?case by (rule il_add_step)
next
  case (6 k s e)
  then show ?case by (rule il_del_step)
next
  case (4 k s k')
  then show ?case by (rule il_settled_mono)
qed (simp_all add: il_settled_new, simp_all add: il_new_def il_start_def)

lemma il_is_in_settled:
  assumes "il_settled k l"
  shows "il_is_in e l = (case il_start l of None \<Rightarrow> Inr False
    | Some a \<Rightarrow> if a \<le> e then Inr (il_mem l e) else Inl Undefined_behaviour)"
proof (cases "il_intervals l")
  case Nil
  then show ?thesis by (simp add: il_is_in_def il_start_def lower_bound_def)
next
  case (Cons p m)
  have ok: "il_ok 1 l" using assms unfolding il_settled_def by blast
  show ?thesis
  proof (cases "fst p \<le> e")
    case True
    then have "il_reachable e l" using Cons by (simp add: il_reachable_def)
    then show ?thesis using il_is_in_result [OF ok] Cons True by (simp add: il_start_def)
  next
    case False
    then show ?thesis using Cons by (simp add: il_is_in_def il_start_def lower_bound_def)
  qed
qed

end
