(* ===== verification/Addition_Value.thy ===== *)
theory Addition_Value
  imports Version_History Triple
begin

text \<open>
  \<open>PatchTreeAdditionValue\<close> of \<open>patch/patch_tree_addition_value.{h,cc}\<close>: the versions in which a
  triple is an addition and those in which it is a local change. The build uses the compressed
  variant (\<open>COMPRESSED_ADD_VALUES\<close>, two interval lists and one past the largest patch id); the plain
  variant with two sorted vectors is modelled too.
\<close>

section \<open>The compressed value\<close>

record addition_value =
  av_patches :: interval_list
  av_local_changes :: interval_list
  av_max_patch_id :: int

definition av_new :: "int \<Rightarrow> addition_value" where
  "av_new max_patch_id =
     \<lparr> av_patches = il_new INT_MAX, av_local_changes = il_new INT_MAX, av_max_patch_id = max_patch_id + 1 \<rparr>"

text \<open>The first statement of \<open>add\<close>, \<open>add_unique\<close> and \<open>del\<close>.\<close>

definition av_raise_max :: "int \<Rightarrow> addition_value \<Rightarrow> addition_value" where
  "av_raise_max patch_id v =
     (if patch_id \<ge> av_max_patch_id v then v\<lparr> av_max_patch_id := patch_id + 1 \<rparr> else v)"

definition av_add :: "int \<Rightarrow> addition_value \<Rightarrow> (bool \<times> addition_value) outcome" where
  "av_add patch_id v =
     bind_outcome (il_addition patch_id (av_patches v)) (\<lambda>(ch, l).
       Inr (ch, (av_raise_max patch_id v)\<lparr> av_patches := l \<rparr>))"

definition av_add_unique :: "int \<Rightarrow> addition_value \<Rightarrow> (bool \<times> addition_value) outcome" where
  "av_add_unique patch_id v =
     bind_outcome (il_lone_addition patch_id (av_patches v)) (\<lambda>(hs, l).
       Inr (hs, (av_raise_max patch_id v)\<lparr> av_patches := l \<rparr>))"

definition av_del :: "int \<Rightarrow> addition_value \<Rightarrow> (bool \<times> addition_value) outcome" where
  "av_del patch_id v =
     bind_outcome (il_deletion patch_id (av_patches v)) (\<lambda>(ch, l).
       Inr (ch, (av_raise_max patch_id v)\<lparr> av_patches := l \<rparr>))"

definition av_is_patch_id :: "int \<Rightarrow> addition_value \<Rightarrow> bool outcome" where
  "av_is_patch_id patch_id v =
     (if patch_id \<ge> 0 \<and> patch_id < av_max_patch_id v then il_is_in patch_id (av_patches v) else Inr False)"

definition av_get_patchvalue_index :: "int \<Rightarrow> addition_value \<Rightarrow> int" where
  "av_get_patchvalue_index patch_id v = il_get_index patch_id (av_max_patch_id v) (av_patches v)"

definition av_get_patch_id_at :: "int \<Rightarrow> addition_value \<Rightarrow> int" where
  "av_get_patch_id_at i v =
     (let p = il_get_element_at i (av_max_patch_id v) (av_patches v)
      in if p = il_max (av_patches v) then - 1 else p)"

definition av_get_size :: "addition_value \<Rightarrow> int" where
  "av_get_size v = il_get_size (av_max_patch_id v) (av_patches v)"

definition av_set_local_change :: "int \<Rightarrow> addition_value \<Rightarrow> (bool \<times> addition_value) outcome" where
  "av_set_local_change patch_id v =
     bind_outcome (il_addition patch_id (av_local_changes v)) (\<lambda>(ch, l). Inr (ch, v\<lparr> av_local_changes := l \<rparr>))"

definition av_set_local_change_unique :: "int \<Rightarrow> addition_value \<Rightarrow> (bool \<times> addition_value) outcome" where
  "av_set_local_change_unique patch_id v =
     bind_outcome (il_lone_addition patch_id (av_local_changes v)) (\<lambda>(ch, l). Inr (ch, v\<lparr> av_local_changes := l \<rparr>))"

definition av_unset_local_change :: "int \<Rightarrow> addition_value \<Rightarrow> (bool \<times> addition_value) outcome" where
  "av_unset_local_change patch_id v =
     bind_outcome (il_deletion patch_id (av_local_changes v)) (\<lambda>(ch, l). Inr (ch, v\<lparr> av_local_changes := l \<rparr>))"

definition av_is_local_change :: "int \<Rightarrow> addition_value \<Rightarrow> bool outcome" where
  "av_is_local_change patch_id v = il_is_in patch_id (av_local_changes v)"

definition av_set_max_patch_id :: "int \<Rightarrow> addition_value \<Rightarrow> addition_value" where
  "av_set_max_patch_id patch_id v = v\<lparr> av_max_patch_id := patch_id \<rparr>"

definition av_serialize :: "addition_value \<Rightarrow> byte list" where
  "av_serialize v =
     (let bin_patches = il_serialize (av_patches v); bin_local = il_serialize (av_local_changes v)
      in encode_ULEB128 (of_nat (length bin_patches)) @ bin_patches @ bin_local)"

text \<open>\<open>deserialize\<close> into an existing value, whose \<open>max_patch_id\<close> stays; an encoded length beyond the
  data is a read past the buffer.\<close>

definition av_deserialize :: "byte list \<Rightarrow> addition_value \<Rightarrow> addition_value outcome" where
  "av_deserialize data v =
     bind_outcome (decode_ULEB128 data) (\<lambda>(patches_size, offset).
       let n = unat patches_size in
       if length data < offset + n then Inl Undefined_behaviour
       else bind_outcome (il_deserialize (take n (drop offset data)) (av_patches v)) (\<lambda>patches.
         let local_bytes = drop (offset + n) data in
         if length local_bytes > 0
         then bind_outcome (il_deserialize local_bytes (av_local_changes v)) (\<lambda>local.
           Inr (v\<lparr> av_patches := patches, av_local_changes := local \<rparr>))
         else Inr (v\<lparr> av_patches := patches, av_local_changes := il_clear (av_local_changes v) \<rparr>)))"

definition show_int :: "int \<Rightarrow> string" where
  "show_int i = (if i < 0 then ''-'' @ show_nat (nat (- i)) else show_nat (nat i))"

text \<open>The loop of \<open>to_string\<close> over the positions \<open>i, ..., i + n - 1\<close>.\<close>

fun av_to_string_loop :: "addition_value \<Rightarrow> bool \<Rightarrow> int \<Rightarrow> nat \<Rightarrow> string outcome" where
  "av_to_string_loop v separator i 0 = Inr ''''"
| "av_to_string_loop v separator i (Suc n) =
     (let p = av_get_patch_id_at i v in
      bind_outcome (av_is_local_change p v) (\<lambda>lc.
      bind_outcome (av_to_string_loop v True (i + 1) n) (\<lambda>rest.
        Inr ((if separator then '','' else '''') @ show_int p @ (if lc then ''L'' else '''') @ rest))))"

definition av_to_string :: "addition_value \<Rightarrow> string outcome" where
  "av_to_string v =
     bind_outcome (av_to_string_loop v False 0 (nat (av_get_size v))) (\<lambda>s. Inr (''{'' @ s @ ''}''))"

section \<open>The plain value\<close>

record addition_value_vec =
  avv_patches :: "int list"
  avv_local_changes :: "int list"

text \<open>Insertion into a sorted vector at \<open>std::lower_bound\<close>, unless the id is there already.\<close>

definition vec_insert :: "int \<Rightarrow> int list \<Rightarrow> int list" where
  "vec_insert patch_id xs =
     (let it = lower_bound (\<lambda>x. x < patch_id) xs
      in if it = length xs \<or> xs ! it \<noteq> patch_id then insert_at it patch_id xs else xs)"

definition avv_add :: "int \<Rightarrow> addition_value_vec \<Rightarrow> addition_value_vec" where
  "avv_add patch_id v = v\<lparr> avv_patches := vec_insert patch_id (avv_patches v) \<rparr>"

definition avv_get_patchvalue_index :: "int \<Rightarrow> addition_value_vec \<Rightarrow> int" where
  "avv_get_patchvalue_index patch_id v =
     (let it = lower_bound (\<lambda>x. x < patch_id) (avv_patches v)
      in if it \<noteq> length (avv_patches v) \<and> avv_patches v ! it = patch_id then int it else - 1)"

definition avv_is_patch_id :: "int \<Rightarrow> addition_value_vec \<Rightarrow> bool" where
  "avv_is_patch_id patch_id v \<longleftrightarrow> avv_get_patchvalue_index patch_id v \<ge> 0"

definition avv_get_size :: "addition_value_vec \<Rightarrow> int" where
  "avv_get_size v = int (length (avv_patches v))"

definition avv_get_patch_id_at :: "nat \<Rightarrow> addition_value_vec \<Rightarrow> int" where
  "avv_get_patch_id_at i v = (if int i < avv_get_size v then avv_patches v ! i else - 1)"

definition avv_set_local_change :: "int \<Rightarrow> addition_value_vec \<Rightarrow> addition_value_vec" where
  "avv_set_local_change patch_id v = v\<lparr> avv_local_changes := vec_insert patch_id (avv_local_changes v) \<rparr>"

definition avv_is_local_change :: "int \<Rightarrow> addition_value_vec \<Rightarrow> bool" where
  "avv_is_local_change patch_id v =
     (let xs = avv_local_changes v in
      if xs = [] then False
      else let it = lower_bound (\<lambda>x. x < patch_id) xs;
               it' = (if it = length xs then it - 1 else it)
           in xs ! it' \<le> patch_id)"

definition avv_serialize :: "addition_value_vec \<Rightarrow> byte list" where
  "avv_serialize v =
     encode_ULEB128 (of_nat (length (avv_patches v))) @
     concat (map encode_SLEB128 (avv_patches v)) @ concat (map encode_SLEB128 (avv_local_changes v))"

definition avv_deserialize :: "byte list \<Rightarrow> addition_value_vec outcome" where
  "avv_deserialize data =
     bind_outcome (decode_ULEB128 data) (\<lambda>(patches_size, offset).
     bind_outcome (decode_n decode_int (unat patches_size) (drop offset data)) (\<lambda>(patches, n).
     bind_outcome (decode_all decode_int (length data) (drop (offset + n) data)) (\<lambda>local.
       Inr \<lparr> avv_patches = patches, avv_local_changes = local \<rparr>)))"

section \<open>Lemmas\<close>

lemma vec_insert_split:
  assumes "sorted_wrt (<) xs"
  shows "set (vec_insert e xs) = insert e (set xs)" "sorted_wrt (<) (vec_insert e xs)"
proof -
  obtain us vs where s: "xs = us @ vs" "\<forall>x\<in>set us. x < e" "vs = [] \<or> \<not> hd vs < e"
    "lower_bound (\<lambda>x. x < e) xs = length us"
    by (rule lower_bound_split)
  show "set (vec_insert e xs) = insert e (set xs)"
    using s by (cases vs) (auto simp: vec_insert_def Let_def insert_at_def)
  show "sorted_wrt (<) (vec_insert e xs)"
    using s assms by (cases vs) (auto simp: vec_insert_def Let_def insert_at_def sorted_wrt_append)
qed

lemma avv_index_sorted:
  assumes "sorted_wrt (<) (avv_patches v)"
  shows "avv_get_patchvalue_index e v =
    (if e \<in> set (avv_patches v) then int (length (takeWhile (\<lambda>x. x < e) (avv_patches v))) else - 1)"
proof -
  obtain us vs where s: "avv_patches v = us @ vs" "\<forall>x\<in>set us. x < e" "vs = [] \<or> \<not> hd vs < e"
    "lower_bound (\<lambda>x. x < e) (avv_patches v) = length us"
    by (rule lower_bound_split)
  then show ?thesis
    using assms by (cases vs)
      (auto simp: avv_get_patchvalue_index_def Let_def takeWhile_append sorted_wrt_append)
qed

text \<open>What an ascending history does to the compressed value.\<close>

fun av_apply :: "event \<Rightarrow> addition_value \<Rightarrow> addition_value outcome" where
  "av_apply (Added e) v = bind_outcome (av_add e v) (\<lambda>(ch, v'). Inr v')"
| "av_apply (Deleted e) v = bind_outcome (av_del e v) (\<lambda>(ch, v'). Inr v')"

definition av_run :: "event list \<Rightarrow> addition_value \<Rightarrow> addition_value outcome" where
  "av_run evs v = foldl (\<lambda>r e. bind_outcome r (av_apply e)) (Inr v) evs"

lemma av_raise_max_simps [simp]:
  "av_patches (av_raise_max e v) = av_patches v"
  "av_local_changes (av_raise_max e v) = av_local_changes v"
  "av_max_patch_id (av_raise_max e v) = max (av_max_patch_id v) (e + 1)"
  by (auto simp: av_raise_max_def)

lemma av_apply_patches:
  "av_apply e v = (case ilv.apply_event e (av_patches v) of Inl x \<Rightarrow> Inl x
     | Inr l \<Rightarrow> Inr ((av_raise_max (event_id e) v)\<lparr> av_patches := l \<rparr>))"
proof (cases e)
  case (Added i)
  then show ?thesis by (cases "il_addition i (av_patches v)") (auto simp: av_add_def)
next
  case (Deleted i)
  then show ?thesis by (cases "il_deletion i (av_patches v)") (auto simp: av_del_def)
qed

lemma av_run_patches:
  "ilv.run evs = Inr l \<Longrightarrow> \<exists>v. av_run evs (av_new m) = Inr v \<and> av_patches v = l \<and>
     av_local_changes v = il_new INT_MAX \<and>
     av_max_patch_id v = fold (\<lambda>e k. max k (event_id e + 1)) evs (m + 1)"
proof (induction evs arbitrary: l rule: rev_induct)
  case Nil
  then show ?case by (simp add: av_run_def ilv.run_def av_new_def)
next
  case (snoc e evs)
  then obtain l0 where l0: "ilv.run evs = Inr l0" "ilv.apply_event e l0 = Inr l"
    by (auto simp: ilv.run_def bind_outcome_eq_Inr)
  from snoc.IH [OF l0(1)] obtain v where "av_run evs (av_new m) = Inr v" "av_patches v = l0"
    "av_local_changes v = il_new INT_MAX"
    "av_max_patch_id v = fold (\<lambda>e k. max k (event_id e + 1)) evs (m + 1)" by blast
  then show ?case using l0(2) by (simp add: av_run_def av_apply_patches)
qed

lemma fold_max_event_ge: "k \<le> fold (\<lambda>e k. max k (event_id e + 1)) evs k"
  by (induction evs arbitrary: k) (auto intro: order_trans [OF max.cobounded1])

lemma fold_max_event_le:
  "(\<forall>e\<in>set evs. event_id e < c) \<Longrightarrow> k \<le> c \<Longrightarrow> fold (\<lambda>e k. max k (event_id e + 1)) evs k \<le> c"
  by (induction evs arbitrary: k) auto

lemma fold_max_event_mem:
  "e \<in> set evs \<Longrightarrow> event_id e < fold (\<lambda>e k. max k (event_id e + 1)) evs k"
proof (induction evs arbitrary: k)
  case (Cons a evs)
  show ?case
  proof (cases "e \<in> set evs")
    case False
    then have "e = a" using Cons.prems by simp
    then show ?thesis
      using fold_max_event_ge [of "max k (event_id a + 1)" evs] by simp
  qed (use Cons.IH in simp)
qed simp

lemma il_settled_ends:
  assumes "il_settled k l" "p \<in> set (il_intervals l)"
  shows "snd p = INT_MAX \<or> snd p \<le> k"
proof (rule ccontr)
  assume n: "\<not> ?thesis"
  have ok: "il_ok 1 l" "il_max l = INT_MAX" using assms(1) unfolding il_settled_def by blast+
  from split_list [OF assms(2)] obtain us vs where m: "il_intervals l = us @ p # vs" by blast
  obtain a b where p: "p = (a, b)" by (cases p)
  have b: "a < b" "b \<le> INT_MAX" "\<forall>q\<in>set us. snd q \<le> b" "\<forall>q\<in>set vs. b + 1 \<le> fst q"
    using ok unfolding m p by (auto simp: order_trans [of _ "_ + 1"])
  have "\<not> intervals_mem us b" "\<not> intervals_mem vs b"
    using intervals_mem_below [of us b b] intervals_mem_above [of vs b "b + 1"] b by auto
  then have nb: "\<not> il_mem l b" by (simp add: m p)
  have "il_mem l (b - 1)" using b(1) by (simp add: m p)
  moreover have "il_mem l (b - 1) = il_mem l b"
    using il_settled_mem [OF assms(1), of "b - 1" b] n b(2) p by auto
  ultimately show False using nb by simp
qed

lemma il_settled_within:
  assumes "il_settled k l" "k \<le> lim"
  shows "runs_within (il_max l) lim (il_intervals l)"
    "\<forall>p\<in>set (il_intervals l). snd p = il_max l \<or> snd p \<le> lim"
proof -
  have ok: "il_ok 1 l" "il_max l = INT_MAX" "\<forall>p\<in>set (il_intervals l). fst p < k"
    using assms(1) unfolding il_settled_def by blast+
  show e: "\<forall>p\<in>set (il_intervals l). snd p = il_max l \<or> snd p \<le> lim"
    using il_settled_ends [OF assms(1)] ok(2) assms(2) by fastforce
  show "runs_within (il_max l) lim (il_intervals l)"
    using intervals_ok_bounds [OF ok(1)] ok(3) assms(2)
    by (fastforce simp: runs_within_def run_end_def)
qed

lemma il_settled_values:
  assumes "il_settled k l" "k \<le> lim" "lim \<le> INT_MAX"
  shows "set (il_values lim l) = {x. il_mem l x \<and> x < lim}" "sorted_wrt (<) (il_values lim l)"
    "il_get_size lim l = int (length (il_values lim l))"
    "0 \<le> i \<Longrightarrow> il_get_element_at i lim l =
      (if i < int (length (il_values lim l)) then il_values lim l ! nat i else INT_MAX)"
    "il_get_index e lim l =
      (if e \<in> set (il_values lim l) then int (length (takeWhile (\<lambda>x. x < e) (il_values lim l))) else - 1)"
proof -
  have ok: "il_ok 0 l" "il_max l = INT_MAX"
    using assms(1) intervals_ok_mono unfolding il_settled_def by blast+
  note w = il_settled_within [OF assms(1,2)]
  show "set (il_values lim l) = {x. il_mem l x \<and> x < lim}"
    using set_run_values [OF ok(1) w] assms(3) ok(2) by auto
  show "sorted_wrt (<) (il_values lim l)" by (rule sorted_run_values [OF ok(1)])
  show "il_get_size lim l = int (length (il_values lim l))"
    using il_get_size_loop_values [OF w(1), of 0] by (simp add: il_get_size_def)
  show "0 \<le> i \<Longrightarrow> il_get_element_at i lim l =
      (if i < int (length (il_values lim l)) then il_values lim l ! nat i else INT_MAX)"
    using il_get_element_loop_values [OF w(1), of 0 i] ok(2) by (simp add: il_get_element_at_def)
  show "il_get_index e lim l =
      (if e \<in> set (il_values lim l) then int (length (takeWhile (\<lambda>x. x < e) (il_values lim l))) else - 1)"
    using il_get_index_loop_values [OF ok(1) w(1), of e 0] by (simp add: il_get_index_def)
qed

text \<open>Everything a history determines about the compressed value, from the contract of version sets.\<close>

lemma av_run_history:
  assumes "ascending 0 INT_MAX evs" "- 1 \<le> m" "m < INT_MAX"
  obtains v k where "av_run evs (av_new m) = Inr v" "il_settled k (av_patches v)" "k \<le> av_max_patch_id v"
    "av_max_patch_id v \<le> INT_MAX" "\<forall>x < INT_MAX. il_mem (av_patches v) x = status_at evs x"
    "il_start (av_patches v) = first_added evs" "\<forall>e\<in>set evs. event_id e < av_max_patch_id v"
    "av_local_changes v = il_new INT_MAX"
proof -
  from ilv.run_history [OF assms(1)] obtain l where
    l: "ilv.run evs = Inr l" "\<forall>k. (\<forall>e\<in>set evs. event_id e < k) \<longrightarrow> il_settled k l"
      "\<forall>x < INT_MAX. il_mem l x = status_at evs x" "il_start l = first_added evs" by blast
  from av_run_patches [OF l(1), of m] obtain v where
    v: "av_run evs (av_new m) = Inr v" "av_patches v = l" "av_local_changes v = il_new INT_MAX"
      "av_max_patch_id v = fold (\<lambda>e k. max k (event_id e + 1)) evs (m + 1)" by blast
  have all: "\<forall>e\<in>set evs. event_id e < av_max_patch_id v" using fold_max_event_mem v(4) by simp
  have "av_max_patch_id v \<le> INT_MAX"
    unfolding v(4) using assms(1,3) by (intro fold_max_event_le) (auto simp: ascending_def)
  then show thesis
    using that [OF v(1), of "av_max_patch_id v"] v(2,3) l all by simp
qed


text \<open>Byte formats.\<close>

lemma av_deserialize_serialize:
  assumes "il_ok 0 (av_patches v)" "il_ok 0 (av_local_changes v)"
    "runs_int32 (il_intervals (av_patches v))" "runs_int32 (il_intervals (av_local_changes v))"
    "length (il_serialize (av_patches v)) < 2 ^ 64"
    "il_max (av_patches w) = il_max (av_patches v)" "il_max (av_local_changes w) = il_max (av_local_changes v)"
  shows "av_deserialize (av_serialize v) w = Inr (v\<lparr> av_max_patch_id := av_max_patch_id w \<rparr>)"
proof -
  define bp bl where "bp = il_serialize (av_patches v)" and "bl = il_serialize (av_local_changes v)"
  have n: "unat (of_nat (length bp) :: u64) = length bp"
    using assms(5) by (simp add: unat_of_nat bp_def)
  have p: "il_deserialize bp (av_patches w) = Inr (av_patches v)"
    unfolding bp_def by (rule il_deserialize_serialize [OF assms(1,3,6)])
  have l: "il_deserialize bl (av_local_changes w) = Inr (av_local_changes v)"
    unfolding bl_def by (rule il_deserialize_serialize [OF assms(2,4,7)])
  have e: "il_intervals (av_local_changes v) = []" if "bl = []"
  proof (cases "il_intervals (av_local_changes v)")
    case (Cons q m)
    then show ?thesis using that encode_SLEB128_nonempty [of "fst q"]
      by (simp add: bl_def il_serialize_def enc_pair_def)
  qed
  show ?thesis
  proof (cases "bl = []")
    case True
    then have "il_clear (av_local_changes w) = av_local_changes v"
      using e assms(7) by (simp add: il_clear_def)
    then show ?thesis
      using p n True
      by (simp add: av_deserialize_def av_serialize_def Let_def decode_encode_ULEB128 flip: bp_def bl_def)
  next
    case False
    then show ?thesis
      using p l n
      by (simp add: av_deserialize_def av_serialize_def Let_def decode_encode_ULEB128 flip: bp_def bl_def)
  qed
qed

section \<open>Properties\<close>

text \<open>C9: The compressed addition value is the step function of its history. After any ascending
  sequence of \<open>add\<close> and \<open>del\<close> calls on a fresh value, \<open>is_patch_id\<close> of a version up to
  \<open>max_patch_id\<close> answers the last call at or before it; a version below the first added one (but not
  negative) is the lookup that steps before \<open>begin()\<close>, undefined behaviour.\<close>

theorem addition_value_history:
  assumes "ascending 0 INT_MAX evs" "- 1 \<le> m" "m < INT_MAX"
  shows "\<exists>v. av_run evs (av_new m) = Inr v \<and> (\<forall>e\<in>set evs. event_id e < av_max_patch_id v) \<and>
    (\<forall>x. 0 \<le> x \<and> x < av_max_patch_id v \<longrightarrow>
      av_is_patch_id x v = (case first_added evs of None \<Rightarrow> Inr False
        | Some a \<Rightarrow> if a \<le> x then Inr (status_at evs x) else Inl Undefined_behaviour))"
proof -
  obtain v k where v: "av_run evs (av_new m) = Inr v" "il_settled k (av_patches v)"
      "av_max_patch_id v \<le> INT_MAX" "\<forall>x < INT_MAX. il_mem (av_patches v) x = status_at evs x"
      "il_start (av_patches v) = first_added evs" "\<forall>e\<in>set evs. event_id e < av_max_patch_id v"
    using av_run_history [OF assms] by metis
  have "av_is_patch_id x v = (case first_added evs of None \<Rightarrow> Inr False
        | Some a \<Rightarrow> if a \<le> x then Inr (status_at evs x) else Inl Undefined_behaviour)"
    if "0 \<le> x \<and> x < av_max_patch_id v" for x
    using il_is_in_settled [OF v(2), of x] v(3-5) that by (simp add: av_is_patch_id_def split: option.split)
  with v(1,6) show ?thesis by blast
qed

theorem addition_value_history_witness:
  "\<exists>v. av_run [Added 1, Deleted 4, Added 6] (av_new 0) = Inr v \<and> av_is_patch_id 5 v = Inr False \<and>
     av_is_patch_id 0 v = Inl Undefined_behaviour"
proof -
  have "ascending 0 INT_MAX [Added 1, Deleted 4, Added 6]" by (simp add: ascending_def INT_MAX_def)
  from addition_value_history [OF this, of 0] show ?thesis
    by (auto simp: INT_MAX_def status_at_def)
qed

text \<open>C10: The enumeration of the compressed addition value: after an ascending history, \<open>get_size\<close> is
  the number of versions below \<open>max_patch_id\<close> in which the triple is added, \<open>get_patch_id_at\<close> lists
  exactly these in ascending order and is \<open>-1\<close> past the end, and \<open>get_patchvalue_index\<close> inverts it.\<close>

theorem addition_value_enumeration:
  assumes "ascending 0 INT_MAX evs" "- 1 \<le> m" "m < INT_MAX"
  shows "\<exists>v vs. av_run evs (av_new m) = Inr v \<and>
    set vs = {x. x < av_max_patch_id v \<and> status_at evs x} \<and> sorted_wrt (<) vs \<and>
    av_get_size v = int (length vs) \<and>
    (\<forall>i. av_get_patch_id_at (int i) v = (if i < length vs then vs ! i else - 1)) \<and>
    (\<forall>i < length vs. av_get_patchvalue_index (vs ! i) v = int i) \<and>
    (\<forall>x. x \<notin> set vs \<longrightarrow> av_get_patchvalue_index x v = - 1)"
proof -
  obtain v k where v: "av_run evs (av_new m) = Inr v" "il_settled k (av_patches v)" "k \<le> av_max_patch_id v"
      "av_max_patch_id v \<le> INT_MAX" "\<forall>x < INT_MAX. il_mem (av_patches v) x = status_at evs x"
    using av_run_history [OF assms] by metis
  define vs where "vs = il_values (av_max_patch_id v) (av_patches v)"
  note f = il_settled_values [OF v(2-4), folded vs_def]
  have mx: "il_max (av_patches v) = INT_MAX" using v(2) unfolding il_settled_def by blast
  have sv: "set vs = {x. x < av_max_patch_id v \<and> status_at evs x}"
    unfolding f(1) using v(4,5) by auto
  then have "vs ! i \<noteq> INT_MAX" if "i < length vs" for i
    using nth_mem [OF that] v(4) by auto
  then have at: "av_get_patch_id_at (int i) v = (if i < length vs then vs ! i else - 1)" for i
    using f(4) [of "int i"] mx by (simp add: av_get_patch_id_at_def)
  have "takeWhile (\<lambda>x. x < vs ! i) vs = take i vs" if i: "i < length vs" for i
    using f(2) i by (intro takeWhile_eq_take_P_nth) (auto simp: sorted_wrt_iff_nth_less)
  then have ix: "av_get_patchvalue_index (vs ! i) v = int i" if "i < length vs" for i
    using f(5) [of "vs ! i"] that by (simp add: av_get_patchvalue_index_def)
  have "av_get_patchvalue_index x v = - 1" if "x \<notin> set vs" for x
    using f(5) [of x] that by (simp add: av_get_patchvalue_index_def)
  with v(1) sv f(2,3) at ix show ?thesis by (auto simp: av_get_size_def)
qed

theorem addition_value_enumeration_witness:
  "\<exists>v vs. av_run [Added 1, Deleted 4, Added 6] (av_new 0) = Inr v \<and> av_get_size v = int (length vs) \<and>
     (5 :: int) \<notin> set vs \<and> av_get_patchvalue_index 5 v = - 1"
proof -
  have "ascending 0 INT_MAX [Added 1, Deleted 4, Added 6]" "- 1 \<le> (0 :: int)" "0 < INT_MAX"
    by (simp_all add: ascending_def INT_MAX_def)
  from addition_value_enumeration [OF this] obtain v vs where
    r: "av_run [Added 1, Deleted 4, Added 6] (av_new 0) = Inr v"
    "set vs = {x. x < av_max_patch_id v \<and> status_at [Added 1, Deleted 4, Added 6] x}"
    "av_get_size v = int (length vs)" "\<forall>x. x \<notin> set vs \<longrightarrow> av_get_patchvalue_index x v = - 1"
    by (elim exE conjE) (rule that)
  have "\<not> status_at [Added 1, Deleted 4, Added 6] 5" by (simp add: status_at_def)
  then have n: "5 \<notin> set vs" unfolding r(2) mem_Collect_eq by blast
  show ?thesis
    by (intro exI conjI) (rule r(1), rule r(3), rule n, rule r(4) [rule_format, OF n])
qed

text \<open>The byte format of the compressed addition value: \<open>deserialize\<close> restores both interval lists
  of any well-formed value of 32-bit ids, keeping the receiver's \<open>max_patch_id\<close>.\<close>

theorem addition_value_roundtrip:
  assumes "il_ok 0 (av_patches v)" "il_ok 0 (av_local_changes v)"
    "runs_int32 (il_intervals (av_patches v))" "runs_int32 (il_intervals (av_local_changes v))"
    "length (il_serialize (av_patches v)) < 2 ^ 64"
    "il_max (av_patches v) = INT_MAX" "il_max (av_local_changes v) = INT_MAX"
  shows "av_deserialize (av_serialize v) (av_new m) = Inr (v\<lparr> av_max_patch_id := m + 1 \<rparr>)"
  using av_deserialize_serialize [OF assms(1-5), of "av_new m"] assms(6,7)
  by (simp add: av_new_def il_new_def)

theorem addition_value_roundtrip_witness:
  "av_deserialize (av_serialize
     \<lparr> av_patches = \<lparr> il_max = INT_MAX, il_intervals = [(1, 4), (6, INT_MAX)] \<rparr>,
       av_local_changes = \<lparr> il_max = INT_MAX, il_intervals = [(6, INT_MAX)] \<rparr>, av_max_patch_id = 7 \<rparr>) (av_new 9)
   = Inr \<lparr> av_patches = \<lparr> il_max = INT_MAX, il_intervals = [(1, 4), (6, INT_MAX)] \<rparr>,
       av_local_changes = \<lparr> il_max = INT_MAX, il_intervals = [(6, INT_MAX)] \<rparr>, av_max_patch_id = 10 \<rparr>"
proof -
  define v where "v = \<lparr> av_patches = \<lparr> il_max = INT_MAX, il_intervals = [(1, 4), (6, INT_MAX)] \<rparr>,
       av_local_changes = \<lparr> il_max = INT_MAX, il_intervals = [(6, INT_MAX)] \<rparr>, av_max_patch_id = 7 \<rparr>"
  have "runs_int32 (il_intervals (av_patches v))" by (simp add: v_def runs_int32_def INT_MAX_def INT_MIN_def)
  then have "length (il_serialize (av_patches v)) \<le> 20"
    using il_serialize_length [of "av_patches v"] by (simp add: v_def il_alloc_size_def get_SLEB128_size_INT_MAX)
  then have "av_deserialize (av_serialize v) (av_new 9) = Inr (v\<lparr> av_max_patch_id := 9 + 1 \<rparr>)"
    by (intro addition_value_roundtrip) (simp_all add: v_def runs_int32_def INT_MAX_def INT_MIN_def)
  then show ?thesis by (simp add: v_def)
qed

text \<open>The plain addition value is a sorted set: \<open>add\<close> keeps the vector strictly sorted and adds just
  the id, \<open>is_patch_id\<close> is membership, and \<open>get_patch_id_at\<close> at the index \<open>get_patchvalue_index\<close>
  finds is the id again.\<close>

theorem plain_addition_value_set:
  assumes "sorted_wrt (<) (avv_patches v)"
  shows "sorted_wrt (<) (avv_patches (avv_add e v)) \<and>
    set (avv_patches (avv_add e v)) = insert e (set (avv_patches v)) \<and>
    (avv_is_patch_id x v \<longleftrightarrow> x \<in> set (avv_patches v)) \<and>
    (avv_is_patch_id x v \<longrightarrow> avv_get_patch_id_at (nat (avv_get_patchvalue_index x v)) v = x)"
proof -
  obtain us vs where s: "avv_patches v = us @ vs" "\<forall>y\<in>set us. y < x" "vs = [] \<or> \<not> hd vs < x"
    "lower_bound (\<lambda>y. y < x) (avv_patches v) = length us"
    by (rule lower_bound_split)
  have "avv_get_patch_id_at (nat (avv_get_patchvalue_index x v)) v = x" if "avv_is_patch_id x v"
    using s that by (auto simp: avv_is_patch_id_def avv_get_patchvalue_index_def avv_get_patch_id_at_def
        avv_get_size_def Let_def split: if_splits)
  then show ?thesis
    using vec_insert_split [OF assms] avv_index_sorted [OF assms, of x]
    by (simp add: avv_add_def avv_is_patch_id_def)
qed

theorem plain_addition_value_set_witness:
  "avv_is_patch_id 4 \<lparr> avv_patches = [1, 4, 9], avv_local_changes = [] \<rparr> \<and>
   avv_patches (avv_add 5 \<lparr> avv_patches = [1, 4, 9], avv_local_changes = [] \<rparr>) = [1, 4, 5, 9]"
proof
  show "avv_is_patch_id 4 \<lparr> avv_patches = [1, 4, 9], avv_local_changes = [] \<rparr>"
    using plain_addition_value_set [of "\<lparr> avv_patches = [1, 4, 9], avv_local_changes = [] \<rparr>" 5 4] by simp
  show "avv_patches (avv_add 5 \<lparr> avv_patches = [1, 4, 9], avv_local_changes = [] \<rparr>) = [1, 4, 5, 9]"
    by (simp add: avv_add_def vec_insert_def lower_bound_def insert_at_def)
qed

text \<open>The byte format of the plain addition value: both vectors come back.\<close>

theorem plain_addition_value_roundtrip:
  assumes "\<forall>x\<in>set (avv_patches v) \<union> set (avv_local_changes v). int32_range x"
    "length (avv_patches v) < 2 ^ 64"
  shows "avv_deserialize (avv_serialize v) = Inr v"
proof -
  have "unat (of_nat (length (avv_patches v)) :: u64) = length (avv_patches v)"
    using assms(2) by (simp add: unat_of_nat)
  moreover have "decode_n decode_int (length (avv_patches v))
      (concat (map encode_SLEB128 (avv_patches v)) @ concat (map encode_SLEB128 (avv_local_changes v)))
    = Inr (avv_patches v, length (concat (map encode_SLEB128 (avv_patches v))))"
    using assms(1) by (intro sleb32.decode_n_concat) auto
  moreover have "decode_all decode_int n (concat (map encode_SLEB128 (avv_local_changes v)))
    = Inr (avv_local_changes v)" if "length (concat (map encode_SLEB128 (avv_local_changes v))) \<le> n" for n
    using assms(1) that by (intro sleb32.decode_all_concat) auto
  ultimately show ?thesis
    by (simp add: avv_deserialize_def avv_serialize_def decode_encode_ULEB128 flip: length_concat)
qed

theorem plain_addition_value_roundtrip_witness:
  "avv_deserialize (avv_serialize \<lparr> avv_patches = [0, 200], avv_local_changes = [200] \<rparr>)
   = Inr \<lparr> avv_patches = [0, 200], avv_local_changes = [200] \<rparr>"
  using plain_addition_value_roundtrip [of "\<lparr> avv_patches = [0, 200], avv_local_changes = [200] \<rparr>"]
  by (simp add: INT_MAX_def INT_MIN_def)

end
