(* ===== verification/Patch_Positions.thy ===== *)
theory Patch_Positions
  imports Addition_Value
begin

text \<open>
  \<open>PatchPositions\<close> and its containers from \<open>patch/patch_tree_deletion_value.{h,cc}\<close>: for a deleted
  triple, its position among the deletions of a version for each of the seven triple patterns. The
  three \<open>PatchPositionsContainer\<close> classes keep one such record per version; their common contract is
  the locale \<open>positions_container\<close>. Positions are \<open>long\<close> values, kept as \<open>int\<close>.
\<close>

section \<open>Positions\<close>

record patch_positions =
  pp_sp :: int
  pp_so :: int
  pp_s :: int
  pp_po :: int
  pp_p :: int
  pp_o :: int
  pp_all :: int

definition pp_new :: patch_positions where
  "pp_new = \<lparr> pp_sp = - 1, pp_so = - 1, pp_s = - 1, pp_po = - 1, pp_p = - 1, pp_o = - 1, pp_all = - 1 \<rparr>"

definition get_by_pattern :: "patch_positions \<Rightarrow> triple \<Rightarrow> int" where
  "get_by_pattern pp triple_pattern =
     (let s = subject triple_pattern > 0; p = predicate triple_pattern > 0; ob = object triple_pattern > 0 in
      if s \<and> p \<and> ob then 0
      else if s \<and> p \<and> \<not> ob then pp_sp pp
      else if s \<and> \<not> p \<and> ob then pp_so pp
      else if s \<and> \<not> p \<and> \<not> ob then pp_s pp
      else if \<not> s \<and> p \<and> ob then pp_po pp
      else if \<not> s \<and> p \<and> \<not> ob then pp_p pp
      else if \<not> s \<and> \<not> p \<and> ob then pp_o pp
      else pp_all pp)"

definition pp_eq :: "patch_positions \<Rightarrow> patch_positions \<Rightarrow> bool" where
  "pp_eq a rhs \<longleftrightarrow> pp_sp a = pp_sp rhs \<and> pp_so a = pp_so rhs \<and> pp_s a = pp_s rhs \<and>
     pp_po a = pp_po rhs \<and> pp_p a = pp_p rhs \<and> pp_o a = pp_o rhs \<and> pp_all a = pp_all rhs"

lemma pp_eq_iff [simp]: "pp_eq a b \<longleftrightarrow> a = b"
  by (auto simp: pp_eq_def)

text \<open>The fields in the order every loop over them uses.\<close>

definition pp_list :: "patch_positions \<Rightarrow> int list" where
  "pp_list pp = [pp_sp pp, pp_so pp, pp_s pp, pp_po pp, pp_p pp, pp_o pp, pp_all pp]"

fun pp_of_list :: "int list \<Rightarrow> patch_positions" where
  "pp_of_list [a, b, c, d, e, f, g] =
     \<lparr> pp_sp = a, pp_so = b, pp_s = c, pp_po = d, pp_p = e, pp_o = f, pp_all = g \<rparr>"
| "pp_of_list xs = pp_new"

lemma pp_of_list_pp_list [simp]: "pp_of_list (pp_list pp) = pp"
  by (simp add: pp_list_def)

lemma length_pp_list [simp]: "length (pp_list pp) = 7"
  by (simp add: pp_list_def)

definition serialize_pp :: "patch_positions \<Rightarrow> byte list" where
  "serialize_pp pp = concat (map encode_SLEB128 (pp_list pp))"

definition deserialize_pp :: "byte list \<Rightarrow> (patch_positions \<times> nat) outcome" where
  "deserialize_pp data = bind_outcome (decode_n decode_SLEB128 7 data) (\<lambda>(xs, n). Inr (pp_of_list xs, n))"

definition max_serialization_size :: nat where
  "max_serialization_size = 7 * get_SLEB128_size (2 ^ 63 - 1)"

abbreviation pp_int64 :: "patch_positions \<Rightarrow> bool" where
  "pp_int64 pp \<equiv> \<forall>x\<in>set (pp_list pp). int64_range x"

lemma deserialize_serialize_pp:
  assumes "pp_int64 pp"
  shows "deserialize_pp (serialize_pp pp @ rest) = Inr (pp, length (serialize_pp pp))"
  using sleb.decode_n_concat [OF assms, of rest]
  by (simp add: deserialize_pp_def serialize_pp_def)

lemma serialize_pp_nonempty: "serialize_pp pp \<noteq> []"
  by (simp add: serialize_pp_def pp_list_def encode_SLEB128_nonempty)

interpretation pp_bytes: codec serialize_pp deserialize_pp pp_int64
  by unfold_locales (simp_all add: deserialize_serialize_pp serialize_pp_nonempty)

lemma get_SLEB128_size_le_10: "int64_range v \<Longrightarrow> get_SLEB128_size v \<le> 10"
proof -
  assume v: "int64_range v"
  have "(2 :: int) ^ 63 \<le> 2 ^ (7 * 9 + 6)" by simp
  then show ?thesis using get_SLEB128_size_bound [of 9 v] v by linarith
qed

lemma length_concat_sleb:
  "\<forall>x\<in>set xs. int64_range x \<Longrightarrow> length (concat (map encode_SLEB128 xs)) \<le> 10 * length xs"
proof (induction xs)
  case (Cons x xs)
  then show ?case using get_SLEB128_size_le_10 [of x] by (simp add: length_encode_SLEB128)
qed simp

lemma serialize_pp_length: "pp_int64 pp \<Longrightarrow> length (serialize_pp pp) \<le> max_serialization_size"
  unfolding serialize_pp_def max_serialization_size_def get_SLEB128_size_LONG_MAX
  using length_concat_sleb [of "pp_list pp"] by simp

section \<open>Position vectors\<close>

text \<open>\<open>VerPatchPositions<int>\<close>: a version with its positions, ordered by the version.\<close>

type_synonym ver_positions = "int \<times> patch_positions"

definition diff_values :: "patch_positions \<Rightarrow> patch_positions \<Rightarrow> int list" where
  "diff_values first second = map2 (\<lambda>a b. b - a) (pp_list first) (pp_list second)"

text \<open>Bit \<open>i\<close> of the head byte says that the \<open>i\<close>-th difference is stored.\<close>

fun diff_head :: "int list \<Rightarrow> byte" where
  "diff_head [] = 0"
| "diff_head (d # ds) = (if d \<noteq> 0 then 1 else 0) OR push_bit 1 (diff_head ds)"

definition position_diff :: "ver_positions \<Rightarrow> ver_positions \<Rightarrow> byte list" where
  "position_diff first second =
     (let ds = diff_values (snd first) (snd second)
      in diff_head ds # encode_SLEB128 (fst second) @ concat (map encode_SLEB128 (filter (\<lambda>d. d \<noteq> 0) ds)))"

fun position_diffs :: "ver_positions list \<Rightarrow> byte list" where
  "position_diffs (a # b # vs) = position_diff a b @ position_diffs (b # vs)"
| "position_diffs vs = []"

definition delta_serialize_position_vec :: "ver_positions list \<Rightarrow> byte list" where
  "delta_serialize_position_vec position_vec =
     (case position_vec of [] \<Rightarrow> []
      | (v, pp) # vs \<Rightarrow> encode_SLEB128 v @ serialize_pp pp @ position_diffs position_vec)"

definition delta_alloc_size :: "ver_positions list \<Rightarrow> nat" where
  "delta_alloc_size position_vec = length position_vec * (max_serialization_size + 4 + 1)"

definition decode_diff :: "byte list \<Rightarrow> (int \<times> nat) outcome" where
  "decode_diff data = decode_SLEB128 data"

text \<open>One component after the other: a set low bit of the head means a stored difference.\<close>

fun undiff_components :: "byte \<Rightarrow> int list \<Rightarrow> byte list \<Rightarrow> (int list \<times> nat) outcome" where
  "undiff_components head [] data = Inr ([], 0)"
| "undiff_components head (x # xs) data =
     (if head AND 1 \<noteq> 0
      then bind_outcome (decode_diff data) (\<lambda>(d, n).
             bind_outcome (undiff_components (drop_bit 1 head) xs (drop n data)) (\<lambda>(ys, m).
               Inr ((x + d) # ys, n + m)))
      else bind_outcome (undiff_components (drop_bit 1 head) xs data) (\<lambda>(ys, m). Inr (x # ys, m)))"

definition position_undiff :: "patch_positions \<Rightarrow> byte list \<Rightarrow> (ver_positions \<times> nat) outcome" where
  "position_undiff prev data =
     (case data of [] \<Rightarrow> Inl Undefined_behaviour
      | head # data' \<Rightarrow>
          bind_outcome (decode_int data') (\<lambda>(v, n).
          bind_outcome (undiff_components head (pp_list prev) (drop n data')) (\<lambda>(ys, m).
            Inr ((v, pp_of_list ys), 1 + n + m))))"

fun position_undiffs :: "nat \<Rightarrow> patch_positions \<Rightarrow> byte list \<Rightarrow> ver_positions list outcome" where
  "position_undiffs fuel prev [] = Inr []"
| "position_undiffs 0 prev (b # data) = Inl Diverges"
| "position_undiffs (Suc fuel) prev (b # data) =
     bind_outcome (position_undiff prev (b # data)) (\<lambda>(vp, n).
     bind_outcome (position_undiffs fuel (snd vp) (drop n (b # data))) (\<lambda>vs. Inr (vp # vs)))"

definition delta_deserialize_position_vec :: "byte list \<Rightarrow> ver_positions list outcome" where
  "delta_deserialize_position_vec data =
     bind_outcome (decode_int data) (\<lambda>(v, n).
     bind_outcome (deserialize_pp (drop n data)) (\<lambda>(pp, m).
     bind_outcome (position_undiffs (length data) pp (drop (n + m) data)) (\<lambda>vs. Inr ((v, pp) # vs))))"

section \<open>The containers\<close>

text \<open>\<open>DeltaPatchPositionsContainer\<close>: one entry per version.\<close>

definition delta_insert_positions :: "int \<Rightarrow> patch_positions \<Rightarrow> ver_positions list \<Rightarrow> (bool \<times> ver_positions list) outcome" where
  "delta_insert_positions patch_id positions position_vec =
     (let pos = lower_bound (key_lt patch_id) position_vec in
      if pos \<noteq> length position_vec \<and> fst (position_vec ! pos) = patch_id
      then Inr (True, position_vec[pos := (patch_id, positions)])
      else Inr (True, insert_at pos (patch_id, positions) position_vec))"

definition delta_delete_positions :: "int \<Rightarrow> ver_positions list \<Rightarrow> (bool \<times> ver_positions list) outcome" where
  "delta_delete_positions patch_id position_vec =
     (let pos = lower_bound (key_lt patch_id) position_vec in
      if pos \<noteq> length position_vec \<and> fst (position_vec ! pos) = patch_id
      then Inr (True, erase_at pos position_vec) else Inr (False, position_vec))"

definition delta_get_positions :: "int \<Rightarrow> int \<Rightarrow> ver_positions list \<Rightarrow> patch_positions option outcome" where
  "delta_get_positions patch_id outer_patch_limit position_vec =
     (let pos = lower_bound (key_lt patch_id) position_vec in
      if pos \<noteq> length position_vec \<and> fst (position_vec ! pos) = patch_id
      then Inr (Some (snd (position_vec ! pos))) else Inr None)"

text \<open>\<open>DeltaPatchPositionsContainerV2\<close>: an entry only where the positions change. Moving back from
  \<open>begin()\<close> is undefined.\<close>

definition v2_insert_positions :: "int \<Rightarrow> patch_positions \<Rightarrow> ver_positions list \<Rightarrow> (bool \<times> ver_positions list) outcome" where
  "v2_insert_positions patch_id positions position_vec =
     (if position_vec = [] then Inr (True, [(patch_id, positions)])
      else
        (let it = lower_bound (key_lt patch_id) position_vec;
             back = (it = length position_vec \<or> fst (position_vec ! it) > patch_id) in
         if back \<and> it = 0 then Inl Undefined_behaviour
         else
           (let it' = (if back then it - 1 else it) in
            if fst (position_vec ! it') = patch_id then Inr (True, position_vec[it' := (patch_id, positions)])
            else if \<not> pp_eq (snd (position_vec ! it')) positions
            then Inr (True, insert_at (Suc it') (patch_id, positions) position_vec)
            else Inr (False, position_vec))))"

definition v2_delete_positions :: "int \<Rightarrow> ver_positions list \<Rightarrow> (bool \<times> ver_positions list) outcome" where
  "v2_delete_positions patch_id position_vec = Inr (False, position_vec)"

definition v2_get_positions :: "int \<Rightarrow> int \<Rightarrow> ver_positions list \<Rightarrow> patch_positions option outcome" where
  "v2_get_positions patch_id outer_patch_limit position_vec =
     (if position_vec = [] then Inr None
      else
        (let pos = lower_bound (key_lt patch_id) position_vec;
             back = (pos = length position_vec \<or> fst (position_vec ! pos) > patch_id) in
         if back \<and> pos = 0 then Inl Undefined_behaviour
         else
           (let pos' = (if back then pos - 1 else pos) in
            if fst (position_vec ! pos') \<le> patch_id then Inr (Some (snd (position_vec ! pos')))
            else Inr None)))"


text \<open>\<open>IntervalPatchPositionsContainer\<close>: entries \<open>start \<mapsto> (end, positions)\<close> of a \<open>std::map\<close>, an end
  equal to the maximum being open.\<close>

type_synonym ipc = "(int \<times> int \<times> patch_positions) list"

definition ipc_insert_positions :: "int \<Rightarrow> patch_positions \<Rightarrow> ipc \<Rightarrow> (bool \<times> ipc) outcome" where
  "ipc_insert_positions patch_id positions m =
     (let pos = lower_bound (key_lt patch_id) m in
      if pos = length m then
        if pos \<noteq> 0 then
          (let (a, b, p) = m ! (pos - 1) in
           if a < patch_id \<and> b = patch_id then
             if pp_eq p positions then Inr (True, map_assign a (INT_MAX, positions) m)
             else Inr (True, map_assign patch_id (INT_MAX, positions) m)
           else if b < patch_id then Inr (True, map_assign patch_id (INT_MAX, positions) m)
           else if \<not> pp_eq p positions
           then Inr (True, map_assign patch_id (INT_MAX, positions) (m[pos - 1 := (a, patch_id, p)]))
           else Inr (False, m))
        else Inr (True, map_insert patch_id (INT_MAX, positions) m)
      else
        (let (a', b', p') = m ! pos in
         if patch_id < a' then
           if pos = 0 then Inl Undefined_behaviour
           else
             (let (a, b, p) = m ! (pos - 1) in
              if b < patch_id then
                if pp_eq p' positions then Inr (True, map_insert patch_id (b', p') (erase_at pos m))
                else Inr (True, map_assign patch_id (a', positions) m)
              else if b = patch_id then
                if pp_eq p positions then
                  if pp_eq p' positions then Inr (True, (erase_at pos m)[pos - 1 := (a, b', p')])
                  else Inr (True, m[pos - 1 := (a, a', positions)])
                else Inr (True, map_assign patch_id (a', positions) m)
              else Inr (False, m))
         else if \<not> pp_eq p' positions then Inr (True, m[pos := (a', b', positions)])
         else Inr (False, m)))"

definition ipc_delete_positions :: "int \<Rightarrow> ipc \<Rightarrow> (bool \<times> ipc) outcome" where
  "ipc_delete_positions patch_id m =
     (if m = [] then Inr (False, m)
      else
        (let pos = lower_bound (key_lt patch_id) m;
             back = (pos = length m \<or> patch_id < fst (m ! pos)) in
         if back \<and> pos = 0 then Inl Undefined_behaviour
         else
           (let pos' = (if back then pos - 1 else pos); (a, b, p) = m ! pos' in
            if patch_id < b then
              if a = patch_id then Inr (True, erase_at pos' m)
              else Inr (True, m[pos' := (a, patch_id, p)])
            else Inr (False, m))))"

fun ipc_get_loop :: "int \<Rightarrow> int \<Rightarrow> ipc \<Rightarrow> patch_positions option" where
  "ipc_get_loop patch_id outer_patch_limit [] = None"
| "ipc_get_loop patch_id outer_patch_limit ((a, b, p) # m) =
     (let max_value = (if b = INT_MAX then outer_patch_limit else b) in
      if a \<le> patch_id \<and> patch_id < max_value then Some p else ipc_get_loop patch_id outer_patch_limit m)"

definition ipc_get_positions :: "int \<Rightarrow> int \<Rightarrow> ipc \<Rightarrow> patch_positions option outcome" where
  "ipc_get_positions patch_id outer_patch_limit m = Inr (ipc_get_loop patch_id outer_patch_limit m)"

text \<open>The byte format: \<open>serialize\<close> steps by the largest size after each entry's positions, so the bytes
  in between are whatever memory holds there (\<open>junk\<close>, indexed by the entry). Its buffer has eight bytes for
  the two ends of an interval, and writing past it is undefined. \<open>deserialize\<close> does not step over the end it
  has just read; \<open>emplace_hint\<close> keeps the end of an entry with the same start that is there already, and the
  positions are read into the entry it returns.\<close>

fun ipc_write :: "(int \<Rightarrow> nat \<Rightarrow> byte) \<Rightarrow> nat \<Rightarrow> nat \<Rightarrow> ipc \<Rightarrow> byte list outcome" where
  "ipc_write junk capacity offset [] = Inr []"
| "ipc_write junk capacity offset ((a, b, p) # m) =
     (let bounds = encode_SLEB128 a @ encode_SLEB128 b; bytes = serialize_pp p in
      if offset + length bounds + length bytes > capacity then Inl Undefined_behaviour
      else
        bind_outcome (ipc_write junk capacity (offset + length bounds + max_serialization_size) m) (\<lambda>rest.
          Inr (bounds @ bytes @ map (junk a) [0..<max_serialization_size - length bytes] @ rest)))"

definition ipc_serialize :: "(int \<Rightarrow> nat \<Rightarrow> byte) \<Rightarrow> ipc \<Rightarrow> byte list outcome" where
  "ipc_serialize junk m = ipc_write junk (length m * (8 + max_serialization_size)) 0 m"

definition ipc_decode_entry :: "byte list \<Rightarrow> ((int \<times> int \<times> patch_positions) \<times> nat) outcome" where
  "ipc_decode_entry data =
     bind_outcome (decode_int data) (\<lambda>(s, n).
     bind_outcome (decode_int (drop n data)) (\<lambda>(e, _).
     bind_outcome (deserialize_pp (drop n data)) (\<lambda>(p, m). Inr ((s, e, p), n + m))))"

definition ipc_put :: "int \<times> int \<times> patch_positions \<Rightarrow> ipc \<Rightarrow> ipc" where
  "ipc_put x m =
     (case x of (s, e, p) \<Rightarrow>
        (case map_of m s of
           None \<Rightarrow> map_insert s (e, p) m
         | Some (e', _) \<Rightarrow> map_assign s (e', p) m))"

definition ipc_deserialize :: "byte list \<Rightarrow> ipc outcome" where
  "ipc_deserialize data =
     bind_outcome (decode_all ipc_decode_entry (length data) data) (\<lambda>es. Inr (fold ipc_put es []))"

section \<open>The contract of a container\<close>

text \<open>Clients insert positions for ascending versions: every version inserted keeps its positions,
  whatever is inserted or deleted for later ones.\<close>

locale positions_container =
  fixes empty :: 'c
    and insert_positions :: "int \<Rightarrow> patch_positions \<Rightarrow> 'c \<Rightarrow> (bool \<times> 'c) outcome"
    and delete_positions :: "int \<Rightarrow> 'c \<Rightarrow> (bool \<times> 'c) outcome"
    and get_positions :: "int \<Rightarrow> int \<Rightarrow> 'c \<Rightarrow> patch_positions option outcome"
    and inv :: "int \<Rightarrow> 'c \<Rightarrow> bool"
  assumes inv_empty: "inv k empty"
    and inv_mono: "inv k c \<Longrightarrow> k \<le> k' \<Longrightarrow> inv k' c"
    and insert_step: "inv k c \<Longrightarrow> k \<le> v \<Longrightarrow> v < INT_MAX \<Longrightarrow>
      \<exists>ch c'. insert_positions v pp c = Inr (ch, c') \<and> inv (v + 1) c' \<and>
        (\<forall>lim > v. get_positions v lim c' = Inr (Some pp)) \<and>
        (\<forall>q < v. \<forall>p. (\<forall>lim > q. get_positions q lim c = Inr (Some p)) \<longrightarrow>
           (\<forall>lim > q. get_positions q lim c' = Inr (Some p)))"
    and delete_step: "inv k c \<Longrightarrow> k \<le> v \<Longrightarrow> v < INT_MAX \<Longrightarrow>
      \<exists>ch c'. delete_positions v c = Inr (ch, c') \<and> inv (v + 1) c' \<and>
        (\<forall>q < v. \<forall>p. (\<forall>lim > q. get_positions q lim c = Inr (Some p)) \<longrightarrow>
           (\<forall>lim > q. get_positions q lim c' = Inr (Some p)))"
begin

definition holds :: "'c \<Rightarrow> int \<Rightarrow> patch_positions \<Rightarrow> bool" where
  "holds c v p \<longleftrightarrow> (\<forall>lim > v. get_positions v lim c = Inr (Some p))"

text \<open>An operation: insert with \<open>Some\<close> positions, delete with \<open>None\<close>.\<close>

definition apply_op :: "int \<times> patch_positions option \<Rightarrow> 'c \<Rightarrow> 'c outcome" where
  "apply_op op c = (case snd op of
     None \<Rightarrow> bind_outcome (delete_positions (fst op) c) (\<lambda>(ch, c'). Inr c')
   | Some p \<Rightarrow> bind_outcome (insert_positions (fst op) p c) (\<lambda>(ch, c'). Inr c'))"

definition run_ops :: "(int \<times> patch_positions option) list \<Rightarrow> 'c outcome" where
  "run_ops ops = foldl (\<lambda>r op. bind_outcome r (apply_op op)) (Inr empty) ops"

lemma apply_op_step:
  assumes "inv k c" "k \<le> fst op" "fst op < INT_MAX"
  shows "\<exists>c'. apply_op op c = Inr c' \<and> inv (fst op + 1) c' \<and>
    (\<forall>p. snd op = Some p \<longrightarrow> holds c' (fst op) p) \<and> (\<forall>q < fst op. \<forall>p. holds c q p \<longrightarrow> holds c' q p)"
proof (cases "snd op")
  case None
  then show ?thesis
    using delete_step [OF assms] by (auto simp: apply_op_def holds_def)
next
  case (Some p)
  then show ?thesis
    using insert_step [OF assms, of p] by (auto simp: apply_op_def holds_def)
qed

lemma run_ops_holds:
  assumes "sorted_wrt (<) (map fst ops)" "\<forall>op\<in>set ops. fst op < INT_MAX"
  shows "\<exists>c. run_ops ops = Inr c \<and> (\<forall>k. (\<forall>op\<in>set ops. fst op < k) \<longrightarrow> inv k c) \<and>
    (\<forall>v p. (v, Some p) \<in> set ops \<longrightarrow> holds c v p)"
  using assms
proof (induction ops rule: rev_induct)
  case Nil
  then show ?case by (simp add: run_ops_def inv_empty)
next
  case (snoc op ops)
  then have a: "sorted_wrt (<) (map fst ops)" "\<forall>op\<in>set ops. fst op < INT_MAX" "\<forall>o'\<in>set ops. fst o' < fst op"
    by (auto simp: sorted_wrt_append)
  from snoc.IH [OF a(1,2)] obtain c where c: "run_ops ops = Inr c"
    "\<forall>k. (\<forall>op\<in>set ops. fst op < k) \<longrightarrow> inv k c" "\<forall>v p. (v, Some p) \<in> set ops \<longrightarrow> holds c v p" by blast
  from apply_op_step [OF c(2) [rule_format, OF a(3) [rule_format]], of op] snoc.prems(2)
  obtain c' where c': "apply_op op c = Inr c'" "inv (fst op + 1) c'"
    "\<forall>p. snd op = Some p \<longrightarrow> holds c' (fst op) p" "\<forall>q < fst op. \<forall>p. holds c q p \<longrightarrow> holds c' q p" by auto
  have "run_ops (ops @ [op]) = Inr c'" using c(1) c'(1) by (simp add: run_ops_def)
  moreover have "inv k c'" if "\<forall>o'\<in>set (ops @ [op]). fst o' < k" for k
    using inv_mono [OF c'(2), of k] that by simp
  moreover have "holds c' v p" if "(v, Some p) \<in> set (ops @ [op])" for v p
  proof (cases "(v, Some p) \<in> set ops")
    case True
    then show ?thesis using c(3) c'(4) a(3) by fastforce
  next
    case False
    then have "op = (v, Some p)" using that by simp
    then show ?thesis using c'(3) by simp
  qed
  ultimately show ?case by blast
qed

end

section \<open>The three classes keep it\<close>

definition vec_inv :: "int \<Rightarrow> ver_positions list \<Rightarrow> bool" where
  "vec_inv k vec \<longleftrightarrow> sorted_wrt (<) (map fst vec) \<and> (\<forall>p\<in>set vec. fst p < k)"

lemma vec_inv_simps [simp]:
  "vec_inv k []"
  "vec_inv k (us @ [p]) \<longleftrightarrow> vec_inv (fst p) us \<and> fst p < k"
  by (auto simp: vec_inv_def sorted_wrt_append)

lemma vec_inv_mono: "vec_inv k vec \<Longrightarrow> k \<le> k' \<Longrightarrow> vec_inv k' vec"
  by (auto simp: vec_inv_def)

lemma vec_lower_bound_end: "vec_inv k vec \<Longrightarrow> k \<le> v \<Longrightarrow> lower_bound (key_lt v) vec = length vec"
  using lower_bound_append [of vec "key_lt v" "[]"] by (force simp: vec_inv_def)

text \<open>A lookup sees the entries up to its version, so appending a later one does not change it.\<close>

lemma lower_bound_snoc_later:
  "q < fst p \<Longrightarrow> lower_bound (key_lt q) (vec @ [p]) = lower_bound (key_lt q) vec"
  by (simp add: lower_bound_def takeWhile_append takeWhile_eq_all_conv [THEN iffD2])

lemma lower_bound_snoc_cases:
  assumes "q < fst p" "lower_bound (key_lt q) vec = i"
  shows "lower_bound (key_lt q) (vec @ [p]) = i" "i \<le> length vec"
  using assms lower_bound_snoc_later [of q p vec] lower_bound_le_length [of "key_lt q" vec] by auto

lemma delta_get_snoc:
  assumes "q < fst p"
  shows "delta_get_positions q lim (vec @ [p]) = delta_get_positions q lim vec"
  using lower_bound_snoc_cases [OF assms refl, of vec] assms
  by (auto simp: delta_get_positions_def Let_def nth_append)

lemma v2_get_snoc:
  assumes "q < fst p" "v2_get_positions q lim vec = Inr (Some pp)"
  shows "v2_get_positions q lim (vec @ [p]) = Inr (Some pp)"
proof -
  define i where "i = lower_bound (key_lt q) vec"
  note i = lower_bound_snoc_cases [OF assms(1) i_def [symmetric]]
  have ne: "vec \<noteq> []" using assms(2) by (auto simp: v2_get_positions_def)
  show ?thesis
  proof (cases "i = length vec")
    case True
    then show ?thesis using assms ne i
      by (auto simp: v2_get_positions_def Let_def nth_append i_def split: if_splits)
  next
    case False
    then have "i < length vec" using i(2) by simp
    then show ?thesis using assms ne i
      by (auto simp: v2_get_positions_def Let_def nth_append i_def split: if_splits)
  qed
qed

interpretation delta_container: positions_container "[]" delta_insert_positions delta_delete_positions
  delta_get_positions vec_inv
proof (rule positions_container.intro, goal_cases)
  case (3 k c v pp)
  have lb: "lower_bound (key_lt v) c = length c" using vec_lower_bound_end 3 by blast
  have "delta_insert_positions v pp c = Inr (True, c @ [(v, pp)])"
    using lb by (simp add: delta_insert_positions_def insert_at_def)
  moreover have "vec_inv (v + 1) (c @ [(v, pp)])" using vec_inv_mono 3 by simp
  moreover have "lower_bound (key_lt v) (c @ [(v, pp)]) = length c"
    using lb lower_bound_append [of c "key_lt v" "[(v, pp)]"] 3 by (force simp: vec_inv_def)
  then have "delta_get_positions v lim (c @ [(v, pp)]) = Inr (Some pp)" for lim
    by (simp add: delta_get_positions_def)
  ultimately show ?case using delta_get_snoc by auto
next
  case (4 k c v)
  then have "delta_delete_positions v c = Inr (False, c)"
    using vec_lower_bound_end by (simp add: delta_delete_positions_def)
  then show ?case using 4 vec_inv_mono [OF 4(1), of "v + 1"] by simp
qed (auto intro: vec_inv_mono)

interpretation v2_container: positions_container "[]" v2_insert_positions v2_delete_positions
  v2_get_positions vec_inv
proof (rule positions_container.intro, goal_cases)
  case (3 k c v pp)
  have lb: "lower_bound (key_lt v) c = length c" using vec_lower_bound_end 3 by blast
  show ?case
  proof (cases c rule: rev_cases)
    case Nil
    then show ?thesis
      using vec_inv_simps(2) [of "v + 1" "[]" "(v, pp)"]
      by (simp add: v2_insert_positions_def v2_get_positions_def lower_bound_def)
  next
    case (snoc c0 e)
    have ev: "fst e < v" using 3 snoc by simp
    have get_later: "v2_get_positions v lim c = Inr (Some (snd e))" for lim
      using lb snoc ev by (simp add: v2_get_positions_def Let_def nth_append)
    show ?thesis
    proof (cases "snd e = pp")
      case True
      then have "v2_insert_positions v pp c = Inr (False, c)"
        using lb snoc ev by (simp add: v2_insert_positions_def Let_def nth_append)
      then show ?thesis using True get_later 3 vec_inv_mono [OF 3(1), of "v + 1"] by simp
    next
      case False
      then have ins: "v2_insert_positions v pp c = Inr (True, c @ [(v, pp)])"
        using lb snoc ev by (simp add: v2_insert_positions_def Let_def nth_append insert_at_def)
      have "lower_bound (key_lt v) (c @ [(v, pp)]) = length c"
        using lb lower_bound_append [of c "key_lt v" "[(v, pp)]"] 3 by (force simp: vec_inv_def)
      then have "v2_get_positions v lim (c @ [(v, pp)]) = Inr (Some pp)" for lim
        by (simp add: v2_get_positions_def)
      moreover have "vec_inv (v + 1) (c @ [(v, pp)])" using vec_inv_mono 3 by simp
      ultimately show ?thesis using ins v2_get_snoc [of _ "(v, pp)" _ c] by auto
    qed
  qed
next
  case (4 k c v)
  then show ?case using vec_inv_mono [OF 4(1), of "v + 1"] by (simp add: v2_delete_positions_def)
qed (auto intro: vec_inv_mono)

definition ipc_inv :: "int \<Rightarrow> ipc \<Rightarrow> bool" where
  "ipc_inv k m \<longleftrightarrow> sorted_wrt (\<lambda>x y. fst (snd x) \<le> fst y) m \<and>
     (\<forall>x\<in>set m. fst x < fst (snd x) \<and> fst x < k \<and> fst x < INT_MAX \<and>
        (fst (snd x) = INT_MAX \<or> fst (snd x) \<le> k))"

lemma ipc_inv_mono: "ipc_inv k m \<Longrightarrow> k \<le> k' \<Longrightarrow> ipc_inv k' m"
  by (fastforce simp: ipc_inv_def)

lemma ipc_inv_snoc:
  "ipc_inv k (us @ [(a, b, p)]) \<longleftrightarrow> ipc_inv a us \<and> (\<forall>x\<in>set us. fst (snd x) \<le> a) \<and>
     a < b \<and> a < k \<and> a < INT_MAX \<and> (b = INT_MAX \<or> b \<le> k)"
  by (fastforce simp: ipc_inv_def sorted_wrt_append)

lemma ipc_get_append:
  "ipc_get_loop q lim (us @ vs) =
     (case ipc_get_loop q lim us of None \<Rightarrow> ipc_get_loop q lim vs | Some p \<Rightarrow> Some p)"
  by (induction q lim us rule: ipc_get_loop.induct) (auto simp: Let_def)

lemma ipc_get_later:
  "\<forall>x\<in>set us. fst (snd x) \<le> a \<Longrightarrow> a \<le> v \<Longrightarrow> a < INT_MAX \<Longrightarrow> ipc_get_loop v lim us = None"
  by (induction v lim us rule: ipc_get_loop.induct) (auto simp: Let_def)

lemma ipc_keys_below: "ipc_inv k m \<Longrightarrow> k \<le> v \<Longrightarrow> \<forall>x\<in>set m. fst x < v"
  by (fastforce simp: ipc_inv_def)

lemma ipc_lower_bound_end: "ipc_inv k m \<Longrightarrow> k \<le> v \<Longrightarrow> lower_bound (key_lt v) m = length m"
  using lower_bound_append [of m "key_lt v" "[]"] ipc_keys_below [of k m v] by simp

lemma ipc_assign_end: "ipc_inv k m \<Longrightarrow> k \<le> v \<Longrightarrow> map_assign v x m = m @ [(v, x)]"
  using map_assign_split [of m v "[]" x] ipc_keys_below [of k m v] by simp

lemma ipc_insert_snoc:
  assumes "ipc_inv k (us @ [(a, b, p)])" "k \<le> v" "v < INT_MAX"
  shows "ipc_insert_positions v pp (us @ [(a, b, p)]) =
    (if b = v \<and> p = pp then Inr (True, us @ [(a, INT_MAX, pp)])
     else if b \<le> v then Inr (True, us @ [(a, b, p), (v, INT_MAX, pp)])
     else if p \<noteq> pp then Inr (True, us @ [(a, v, p), (v, INT_MAX, pp)])
     else Inr (False, us @ [(a, b, p)]))"
proof -
  have lt: "a < v" "\<forall>x\<in>set us. fst x < a" "\<forall>x\<in>set us. fst x < v"
    using assms ipc_keys_below [of a us a] by (auto simp: ipc_inv_snoc)
  have as: "map_assign v y (us @ [(a, x)]) = us @ [(a, x), (v, y)]" for x y
    using map_assign_split [of "us @ [(a, x)]" v "[]" y] lt by simp
  have hit: "map_assign a y (us @ [(a, x)]) = us @ [(a, y)]" for x y
    using map_assign_hit [of us a y x "[]"] lt by simp
  show ?thesis
    using ipc_lower_bound_end [OF assms(1,2)] lt
    by (simp add: ipc_insert_positions_def Let_def nth_append as hit)
qed

lemma ipc_get_tail:
  assumes "ipc_get_loop q lim vs = Some p \<Longrightarrow> ipc_get_loop q lim ws = Some p"
    "ipc_get_loop q lim (us @ vs) = Some p"
  shows "ipc_get_loop q lim (us @ ws) = Some p"
  using assms by (auto simp: ipc_get_append split: option.splits)

lemma ipc_keep_tail:
  assumes "\<And>q lim p. q < v \<Longrightarrow> q < lim \<Longrightarrow> ipc_get_loop q lim vs = Some p \<Longrightarrow> ipc_get_loop q lim ws = Some p"
  shows "\<forall>q < v. \<forall>p. (\<forall>lim > q. ipc_get_positions q lim (us @ vs) = Inr (Some p)) \<longrightarrow>
    (\<forall>lim > q. ipc_get_positions q lim (us @ ws) = Inr (Some p))"
  using assms ipc_get_tail [where us = us and vs = vs and ws = ws] by (auto simp: ipc_get_positions_def)

interpretation interval_container: positions_container "[]" ipc_insert_positions ipc_delete_positions
  ipc_get_positions ipc_inv
proof (rule positions_container.intro, goal_cases)
  case (1 k)
  show ?case by (simp add: ipc_inv_def)
next
  case (2 k c k')
  then show ?case by (rule ipc_inv_mono)
next
  case (3 k c v pp)
  show ?case
  proof (cases c rule: rev_cases)
    case Nil
    then show ?thesis using 3
      by (simp add: ipc_insert_positions_def lower_bound_def ipc_inv_def ipc_get_positions_def)
  next
    case (snoc us e)
    obtain a b p where e: "e = (a, b, p)" by (cases e)
    have i: "ipc_inv a us" "\<forall>x\<in>set us. fst (snd x) \<le> a" "a < b" "a < k" "a < INT_MAX" "b = INT_MAX \<or> b \<le> k"
      using 3(1) unfolding snoc e ipc_inv_snoc by blast+
    have n: "ipc_get_loop q lim us = None" if "a \<le> q" for q lim by (rule ipc_get_later [OF i(2) that i(5)])
    note ins = ipc_insert_snoc [OF 3(1) [unfolded snoc e] 3(2,3), of pp]
    have c1: "ipc_inv (v + 1) (us @ [(a, INT_MAX, pp)])" using i 3 by (simp add: ipc_inv_snoc)
    have c2: "ipc_inv (v + 1) (us @ [(a, d, p), (v, INT_MAX, pp)])" if "a < d" "d \<le> v" for d
      using ipc_inv_snoc [of "v + 1" "us @ [(a, d, p)]" v INT_MAX pp] ipc_inv_snoc [of v us a d p] i 3 that
      by auto
    consider "b = v" "p = pp" | "b \<le> v" "\<not> (b = v \<and> p = pp)" | "v < b" "p \<noteq> pp" | "v < b" "p = pp"
      by linarith
    then show ?thesis
    proof cases
      case 1
      then have r: "ipc_insert_positions v pp c = Inr (True, us @ [(a, INT_MAX, pp)])"
        using ins snoc e by simp
      show ?thesis
        unfolding r unfolding snoc e
        by (rule exI, rule exI, rule conjI, rule refl, intro conjI c1 ipc_keep_tail)
          (use 1 i 3 n in \<open>auto simp: ipc_get_positions_def ipc_get_append Let_def split: if_splits\<close>)
    next
      case 2
      then have r: "ipc_insert_positions v pp c = Inr (True, us @ [(a, b, p), (v, INT_MAX, pp)])"
        using ins snoc e by auto
      show ?thesis
        unfolding r unfolding snoc e
        by (rule exI, rule exI, rule conjI, rule refl, intro conjI c2 ipc_keep_tail)
          (use 2 i 3 n in \<open>auto simp: ipc_get_positions_def ipc_get_append Let_def split: if_splits\<close>)
    next
      case 3
      then have r: "ipc_insert_positions v pp c = Inr (True, us @ [(a, v, p), (v, INT_MAX, pp)])"
        using ins snoc e by auto
      show ?thesis
        unfolding r unfolding snoc e
        by (rule exI, rule exI, rule conjI, rule refl, intro conjI c2 ipc_keep_tail)
          (use 3 i \<open>k \<le> v\<close> \<open>v < INT_MAX\<close> n in \<open>auto simp: ipc_get_positions_def ipc_get_append Let_def split: if_splits\<close>)
    next
      case 4
      then have r: "ipc_insert_positions v pp c = Inr (False, us @ [(a, b, p)])"
        using ins snoc e by auto
      have c3: "ipc_inv (v + 1) c" using ipc_inv_mono [OF 3(1), of "v + 1"] 3(2) by simp
      show ?thesis
        unfolding r unfolding snoc e
        by (rule exI, rule exI, rule conjI, rule refl, intro conjI c3 [unfolded snoc e])
          (use 4 i 3 n in \<open>auto simp: ipc_get_positions_def ipc_get_append Let_def split: if_splits\<close>)
    qed
  qed
next
  case (4 k c v)
  show ?case
  proof (cases c rule: rev_cases)
    case Nil
    then show ?thesis by (simp add: ipc_delete_positions_def ipc_inv_def)
  next
    case (snoc us e)
    obtain a b p where e: "e = (a, b, p)" by (cases e)
    have i: "ipc_inv a us" "\<forall>x\<in>set us. fst (snd x) \<le> a" "a < b" "a < k" "a < INT_MAX" "b = INT_MAX \<or> b \<le> k"
      using 4(1) unfolding snoc e ipc_inv_snoc by blast+
    have r: "ipc_delete_positions v c = (if v < b then Inr (True, us @ [(a, v, p)]) else Inr (False, c))"
      using ipc_lower_bound_end [OF 4(1,2)] i 4(2) unfolding snoc e
      by (simp add: ipc_delete_positions_def Let_def nth_append)
    have c: "ipc_inv (v + 1) c" "ipc_inv (v + 1) (us @ [(a, v, p)])"
      using ipc_inv_mono [OF 4(1), of "v + 1"] i 4 by (simp_all add: ipc_inv_snoc)
    show ?thesis
    proof (cases "v < b")
      case True
      then have r': "ipc_delete_positions v c = Inr (True, us @ [(a, v, p)])" using r by simp
      show ?thesis
        unfolding r' unfolding snoc e
        by (rule exI, rule exI, rule conjI, rule refl, intro conjI c ipc_keep_tail)
          (use i 4 in \<open>auto simp: Let_def split: if_splits\<close>)
    next
      case False
      then show ?thesis using r c(1) by simp
    qed
  qed
qed


section \<open>The delta format\<close>

lemma bit_diff_head: "bit (diff_head ds) n \<longleftrightarrow> n < 8 \<and> n < length ds \<and> ds ! n \<noteq> 0"
proof (induction ds arbitrary: n)
  case (Cons d ds)
  have flag: "bit (if d \<noteq> 0 then 1 else 0 :: byte) n \<longleftrightarrow> n = 0 \<and> d \<noteq> 0"
    by (simp add: bit_1_iff)
  have "bit (push_bit 1 (diff_head ds)) n \<longleftrightarrow> 1 \<le> n \<and> n < 8 \<and> bit (diff_head ds) (n - 1)"
    unfolding bit_push_bit_iff by (auto simp: possible_bit_def)
  then show ?case
    unfolding diff_head.simps bit_or_iff flag Cons.IH by (cases n) auto
qed simp

lemma diff_head_and_1: "diff_head (d # ds) AND 1 \<noteq> 0 \<longleftrightarrow> d \<noteq> 0"
proof -
  have "b AND 1 = of_bool (bit b 0)" for b :: byte
    by (simp add: and_one_eq bit_0 mod2_eq_if)
  then show ?thesis using bit_diff_head [of "d # ds" 0] by simp
qed

lemma diff_head_shift: "length ds \<le> 7 \<Longrightarrow> drop_bit 1 (diff_head (d # ds)) = diff_head ds"
proof (rule bit_word_eqI)
  fix n assume l: "length ds \<le> 7" and n: "n < LENGTH(8)"
  have "bit (drop_bit 1 (diff_head (d # ds))) n = bit (diff_head (d # ds)) (Suc n)"
    by (simp only: bit_drop_bit_eq comp_def) simp
  also have "\<dots> = bit (diff_head ds) n"
    using l n by (auto simp only: bit_diff_head length_Cons nth_Cons_Suc)
  finally show "bit (drop_bit 1 (diff_head (d # ds))) n = bit (diff_head ds) n" .
qed

lemma undiff_diff:
  assumes "length xs = length ys" "length xs \<le> 8" "\<forall>d\<in>set (map2 (\<lambda>a b. b - a) xs ys). int64_range d"
  shows "undiff_components (diff_head (map2 (\<lambda>a b. b - a) xs ys)) xs
      (concat (map encode_SLEB128 (filter (\<lambda>d. d \<noteq> 0) (map2 (\<lambda>a b. b - a) xs ys))) @ rest)
    = Inr (ys, length (concat (map encode_SLEB128 (filter (\<lambda>d. d \<noteq> 0) (map2 (\<lambda>a b. b - a) xs ys)))))"
  using assms
proof (induction xs ys rule: list_induct2)
  case (Cons x xs y ys)
  define ds where "ds = map2 (\<lambda>a b. b - a) xs ys"
  have l: "length ds \<le> 7" using Cons by (simp add: ds_def)
  have ih: "undiff_components (diff_head ds) xs (concat (map encode_SLEB128 (filter (\<lambda>d. d \<noteq> 0) ds)) @ rest)
    = Inr (ys, length (concat (map encode_SLEB128 (filter (\<lambda>d. d \<noteq> 0) ds))))"
    unfolding ds_def using Cons by simp
  have m: "map2 (\<lambda>a b. b - a) (x # xs) (y # ys) = (y - x) # ds" by (simp add: ds_def)
  have r: "int64_range (y - x)" using Cons.prems by simp
  show ?case
    unfolding m undiff_components.simps diff_head_and_1 diff_head_shift [OF l]
    using ih r by (simp add: decode_diff_def decode_encode_SLEB128)
qed simp

text \<open>Positions as the program produces them; their differences fit in 64 bits.\<close>

definition position_range :: "patch_positions \<Rightarrow> bool" where
  "position_range pp \<longleftrightarrow> (\<forall>x\<in>set (pp_list pp). - 1 \<le> x \<and> x < 2 ^ 63 - 1)"

lemma position_range_int64: "position_range pp \<Longrightarrow> pp_int64 pp"
  by (fastforce simp: position_range_def)

lemma position_range_diff:
  assumes "position_range a" "position_range b"
  shows "\<forall>d\<in>set (diff_values a b). int64_range d"
proof
  fix d assume "d \<in> set (diff_values a b)"
  then obtain x y where d: "d = y - x" "x \<in> set (pp_list a)" "y \<in> set (pp_list b)"
    by (auto simp: diff_values_def dest: set_zip_leftD set_zip_rightD)
  have "- 1 \<le> x" "x < 2 ^ 63 - 1" using assms(1) d(2) unfolding position_range_def by blast+
  moreover have "- 1 \<le> y" "y < 2 ^ 63 - 1" using assms(2) d(3) unfolding position_range_def by blast+
  ultimately show "int64_range d" using d(1) by linarith
qed

lemma position_undiff_diff:
  assumes "position_range (snd a)" "position_range (snd b)" "int32_range (fst b)"
  shows "position_undiff (snd a) (position_diff a b @ rest) = Inr (b, length (position_diff a b))"
proof -
  have "undiff_components (diff_head (diff_values (snd a) (snd b))) (pp_list (snd a))
      (concat (map encode_SLEB128 (filter (\<lambda>d. d \<noteq> 0) (diff_values (snd a) (snd b)))) @ rest)
    = Inr (pp_list (snd b), length (concat (map encode_SLEB128 (filter (\<lambda>d. d \<noteq> 0) (diff_values (snd a) (snd b))))))"
    unfolding diff_values_def using position_range_diff [OF assms(1,2)]
    by (intro undiff_diff) (simp_all add: diff_values_def)
  then show ?thesis
    using assms(3) by (simp add: position_undiff_def position_diff_def Let_def sleb32.dec_enc)
qed

lemma position_diff_nonempty: "position_diff a b \<noteq> []"
  by (simp add: position_diff_def Let_def)

lemma position_undiffs_diffs:
  assumes "\<forall>x\<in>set (a # vs). position_range (snd x) \<and> int32_range (fst x)"
    "length (position_diffs (a # vs)) \<le> fuel"
  shows "position_undiffs fuel (snd a) (position_diffs (a # vs)) = Inr vs"
  using assms
proof (induction vs arbitrary: a fuel)
  case (Cons b vs)
  obtain c bs where cb: "position_diff a b = c # bs"
    using position_diff_nonempty by (metis list.exhaust)
  then obtain f where f: "fuel = Suc f" using Cons.prems(2) by (cases fuel) auto
  have "position_undiff (snd a) (position_diff a b @ position_diffs (b # vs)) = Inr (b, length (position_diff a b))"
    using Cons.prems(1) by (intro position_undiff_diff) auto
  moreover have "position_undiffs f (snd b) (position_diffs (b # vs)) = Inr vs"
    using Cons.prems f cb by (intro Cons.IH) auto
  ultimately show ?case by (simp add: f cb)
qed simp

lemma delta_deserialize_serialize:
  assumes "vec \<noteq> []" "\<forall>x\<in>set vec. position_range (snd x) \<and> int32_range (fst x)"
  shows "delta_deserialize_position_vec (delta_serialize_position_vec vec) = Inr vec"
proof -
  obtain v pp vs where vec: "vec = (v, pp) # vs" using assms(1) by (cases vec) auto
  have "deserialize_pp (serialize_pp pp @ position_diffs vec) = Inr (pp, length (serialize_pp pp))"
    using assms(2) position_range_int64 vec by (intro deserialize_serialize_pp) auto
  moreover have "position_undiffs f pp (position_diffs vec) = Inr vs" if "length (position_diffs vec) \<le> f" for f
    using position_undiffs_diffs [of "(v, pp)" vs f] assms(2) vec that by simp
  ultimately show ?thesis
    using assms(2) by (simp add: delta_deserialize_position_vec_def delta_serialize_position_vec_def
        sleb32.dec_enc vec)
qed

lemma delta_serialize_empty: "delta_serialize_position_vec vec = [] \<longleftrightarrow> vec = []"
  by (auto simp: delta_serialize_position_vec_def encode_SLEB128_nonempty split: list.splits)

lemma position_diffs_length:
  assumes "\<forall>x\<in>set (a # vs). position_range (snd x) \<and> 0 \<le> fst x \<and> fst x < 2 ^ 27"
  shows "length (position_diffs (a # vs)) \<le> 75 * length vs"
  using assms
proof (induction vs arbitrary: a)
  case (Cons b vs)
  have "\<forall>d\<in>set (filter (\<lambda>d. d \<noteq> 0) (diff_values (snd a) (snd b))). int64_range d"
    using position_range_diff [of "snd a" "snd b"] Cons.prems by auto
  from length_concat_sleb [OF this]
  have "length (concat (map encode_SLEB128 (filter (\<lambda>d. d \<noteq> 0) (diff_values (snd a) (snd b))))) \<le> 10 * 7"
    using length_filter_le [of "\<lambda>d. d \<noteq> 0" "diff_values (snd a) (snd b)"]
    by (simp add: diff_values_def)
  moreover have "get_SLEB128_size (fst b) \<le> 4"
    using get_SLEB128_size_bound [of 3 "fst b"] Cons.prems by simp
  ultimately have "length (position_diff a b) \<le> 75"
    by (simp add: position_diff_def Let_def length_encode_SLEB128)
  then show ?case using Cons.IH [of b] Cons.prems by simp
qed simp

lemma delta_serialize_length:
  assumes "\<forall>x\<in>set vec. position_range (snd x) \<and> 0 \<le> fst x \<and> fst x < 2 ^ 27"
  shows "length (delta_serialize_position_vec vec) \<le> delta_alloc_size vec"
proof (cases vec)
  case (Cons a vs)
  obtain v pp where a: "a = (v, pp)" by (cases a)
  have "length (serialize_pp pp) \<le> 70"
    using serialize_pp_length [OF position_range_int64, of pp] assms Cons a
    unfolding max_serialization_size_def get_SLEB128_size_LONG_MAX by simp
  moreover have "get_SLEB128_size v \<le> 4"
    using get_SLEB128_size_bound [of 3 v] assms Cons a by simp
  moreover have "length (position_diffs vec) \<le> 75 * length vs"
    using position_diffs_length [of a vs] assms Cons by simp
  ultimately show ?thesis
    unfolding delta_alloc_size_def max_serialization_size_def get_SLEB128_size_LONG_MAX
    by (simp add: delta_serialize_position_vec_def Cons a length_encode_SLEB128)
qed (simp add: delta_serialize_position_vec_def)

section \<open>Properties\<close>

text \<open>\<open>PatchPositions::deserialize\<close> returns the seven positions \<open>serialize\<close> wrote and the number of
  bytes read; the bytes never exceed \<open>max_serialization_size()\<close>.\<close>

theorem patch_positions_roundtrip:
  assumes "pp_int64 pp"
  shows "deserialize_pp (serialize_pp pp @ rest) = Inr (pp, length (serialize_pp pp)) \<and>
    length (serialize_pp pp) \<le> max_serialization_size"
  using deserialize_serialize_pp [OF assms] serialize_pp_length [OF assms] by simp

theorem patch_positions_roundtrip_witness:
  "deserialize_pp (serialize_pp \<lparr> pp_sp = 0, pp_so = 1, pp_s = 200, pp_po = 3, pp_p = 4, pp_o = 5, pp_all = 70000 \<rparr> @ [9])
   = Inr (\<lparr> pp_sp = 0, pp_so = 1, pp_s = 200, pp_po = 3, pp_p = 4, pp_o = 5, pp_all = 70000 \<rparr>,
       length (serialize_pp \<lparr> pp_sp = 0, pp_so = 1, pp_s = 200, pp_po = 3, pp_p = 4, pp_o = 5, pp_all = 70000 \<rparr>))"
  using patch_positions_roundtrip
    [of "\<lparr> pp_sp = 0, pp_so = 1, pp_s = 200, pp_po = 3, pp_p = 4, pp_o = 5, pp_all = 70000 \<rparr>" "[9]"]
  by (simp add: pp_list_def)

text \<open>The delta format of a position vector: deserializing what \<open>delta_serialize_position_vec\<close> wrote
  (a head byte and the nonzero differences per entry) restores the vector, for every nonempty vector
  of 32-bit versions; for versions below \<open>2^27\<close> the bytes fit in the allocated buffer.\<close>

theorem delta_positions_roundtrip:
  assumes "vec \<noteq> []" "\<forall>x\<in>set vec. position_range (snd x) \<and> int32_range (fst x)"
  shows "delta_deserialize_position_vec (delta_serialize_position_vec vec) = Inr vec \<and>
    ((\<forall>x\<in>set vec. 0 \<le> fst x \<and> fst x < 2 ^ 27) \<longrightarrow>
       length (delta_serialize_position_vec vec) \<le> delta_alloc_size vec)"
  using delta_deserialize_serialize [OF assms] delta_serialize_length [of vec] assms(2) by blast

theorem delta_positions_roundtrip_witness:
  "delta_deserialize_position_vec (delta_serialize_position_vec [(1, pp_new), (4, pp_new\<lparr> pp_s := 12 \<rparr>)])
   = Inr [(1, pp_new), (4, pp_new\<lparr> pp_s := 12 \<rparr>)]"
  using delta_positions_roundtrip [of "[(1, pp_new), (4, pp_new\<lparr> pp_s := 12 \<rparr>)]"]
  by (simp add: position_range_def pp_list_def pp_new_def INT_MAX_def INT_MIN_def)

text \<open>C11: The container the build uses (V2, which stores positions only where they change) answers every
  version inserted with exactly its positions, after any ascending sequence of insertions and
  deletions of versions.\<close>

theorem v2_container_history:
  assumes "sorted_wrt (<) (map fst ops)" "\<forall>op\<in>set ops. fst op < INT_MAX"
  shows "\<exists>c. v2_container.run_ops ops = Inr c \<and>
    (\<forall>v p lim. (v, Some p) \<in> set ops \<and> v < lim \<longrightarrow> v2_get_positions v lim c = Inr (Some p))"
  using v2_container.run_ops_holds [OF assms] by (auto simp: v2_container.holds_def)

theorem v2_container_history_witness:
  "\<exists>c. v2_container.run_ops [(1, Some pp_new), (3, Some pp_new), (6, Some (pp_new\<lparr> pp_s := 2 \<rparr>))] = Inr c \<and>
     v2_get_positions 3 7 c = Inr (Some pp_new)"
proof -
  have "sorted_wrt (<) (map fst [(1 :: int, Some pp_new), (3, Some pp_new), (6, Some (pp_new\<lparr> pp_s := 2 \<rparr>))])"
    "\<forall>op\<in>set [(1, Some pp_new), (3, Some pp_new), (6, Some (pp_new\<lparr> pp_s := 2 \<rparr>))]. fst op < INT_MAX"
    by (simp_all add: INT_MAX_def)
  from v2_container_history [OF this] show ?thesis by force
qed

text \<open>The interval container keeps the same promise in memory.\<close>

theorem interval_container_history:
  assumes "sorted_wrt (<) (map fst ops)" "\<forall>op\<in>set ops. fst op < INT_MAX"
  shows "\<exists>c. interval_container.run_ops ops = Inr c \<and>
    (\<forall>v p lim. (v, Some p) \<in> set ops \<and> v < lim \<longrightarrow> ipc_get_positions v lim c = Inr (Some p))"
  using interval_container.run_ops_holds [OF assms] by (auto simp: interval_container.holds_def)

theorem interval_container_history_witness:
  "\<exists>c. interval_container.run_ops [(1, Some pp_new), (3, None), (6, Some (pp_new\<lparr> pp_s := 2 \<rparr>))] = Inr c \<and>
     ipc_get_positions 1 7 c = Inr (Some pp_new)"
proof -
  have "sorted_wrt (<) (map fst [(1 :: int, Some pp_new), (3, None), (6, Some (pp_new\<lparr> pp_s := 2 \<rparr>))])"
    "\<forall>op\<in>set [(1, Some pp_new), (3, None), (6, Some (pp_new\<lparr> pp_s := 2 \<rparr>))]. fst op < INT_MAX"
    by (simp_all add: INT_MAX_def)
  from interval_container_history [OF this] show ?thesis by force
qed


lemma ipc_decode_entry_serialized:
  assumes "int32_range s" "int32_range e" "pp_int64 p"
  shows "\<exists>n. 0 < n \<and> ipc_decode_entry (encode_SLEB128 s @ encode_SLEB128 e @ serialize_pp p @ rest) =
      Inr ((s, e, pp_of_list (e # butlast (pp_list p))), n) \<and>
    drop n (encode_SLEB128 s @ encode_SLEB128 e @ serialize_pp p @ rest) = encode_SLEB128 (pp_all p) @ rest"
proof -
  obtain q0 where q: "pp_list p = q0 @ [pp_all p]" "length q0 = 6" "butlast (pp_list p) = q0"
    by (simp add: pp_list_def)
  have "int64_range e" using assms(2) by (auto simp: INT_MAX_def INT_MIN_def)
  then have "\<forall>x\<in>set (e # q0). int64_range x" using assms(3) q(1) by auto
  from sleb.decode_n_concat [OF this, of "encode_SLEB128 (pp_all p) @ rest"]
  have "deserialize_pp (encode_SLEB128 e @ serialize_pp p @ rest) =
      Inr (pp_of_list (e # q0), length (concat (map encode_SLEB128 (e # q0))))"
    using q by (simp add: deserialize_pp_def serialize_pp_def)
  moreover have "serialize_pp p = concat (map encode_SLEB128 q0) @ encode_SLEB128 (pp_all p)"
    by (simp add: serialize_pp_def q(1))
  moreover have "0 < length (encode_SLEB128 s)" using encode_SLEB128_nonempty by blast
  ultimately show ?thesis
    using assms q(3)
    by (intro exI [of _ "length (encode_SLEB128 s) + length (concat (map encode_SLEB128 (e # q0)))"])
      (simp add: ipc_decode_entry_def sleb32.dec_enc)
qed

lemma ipc_put_keeps:
  assumes "sorted (map fst m)"
  shows "sorted (map fst (ipc_put x m))" "fst x \<in> dom (map_of (ipc_put x m))"
    "map_of m a = Some (e, p) \<Longrightarrow> \<exists>q. map_of (ipc_put x m) a = Some (e, q)"
  using assms
  by (auto simp: ipc_put_def map_of_map_insert map_of_map_assign sorted_map_insert sorted_map_assign
      split: prod.splits option.splits)

lemma ipc_put_all_keeps:
  assumes "sorted (map fst m)"
  shows "map_of m a = Some (e, p) \<Longrightarrow> \<exists>q. map_of (fold ipc_put es m) a = Some (e, q)"
  using assms
proof (induction es arbitrary: m p)
  case (Cons x es)
  note k = ipc_put_keeps [OF Cons.prems(2), where x = x]
  obtain q where "map_of (ipc_put x m) a = Some (e, q)" using k(3) Cons.prems(1) by blast
  then show ?case using Cons.IH k(1) by simp
qed simp

lemma ipc_put_all_starts:
  assumes "sorted (map fst m)"
  shows "fst ` set es \<subseteq> dom (map_of (fold ipc_put es m))"
  using assms
proof (induction es arbitrary: m)
  case (Cons x es)
  note k = ipc_put_keeps [OF Cons.prems, where x = x]
  obtain e q where "map_of (ipc_put x m) (fst x) = Some (e, q)" using k(2) by auto
  then have "fst x \<in> dom (map_of (fold ipc_put es (ipc_put x m)))"
    using ipc_put_all_keeps [OF k(1)] by blast
  then show ?case using Cons.IH [OF k(1)] by simp
qed simp

text \<open>C12: The byte format of the interval container does not round trip. Whatever the bytes are that
  \<open>serialize\<close> does not write, when \<open>serialize\<close> of a nonempty container stays within its buffer and
  \<open>deserialize\<close> succeeds, the result has the first
  interval, but also an entry that starts at the first entry's overall position (cut to an \<open>int\<close>), because
  the end of the interval is not stepped over and the last of the positions is taken for the start of the next
  entry; so a container without an interval that starts there is never read back.\<close>

theorem interval_container_format:
  assumes "int32_range s" "int32_range e" "pp_int64 p" "ipc_serialize junk ((s, e, p) # m) = Inr data"
    "ipc_deserialize data = Inr m'"
  shows "(\<exists>q. map_of m' s = Some (e, q)) \<and> to_int32 (pp_all p) \<in> dom (map_of m') \<and>
    (to_int32 (pp_all p) \<notin> fst ` set ((s, e, p) # m) \<longrightarrow> m' \<noteq> (s, e, p) # m)"
proof -
  obtain rest where data: "data = encode_SLEB128 s @ encode_SLEB128 e @ serialize_pp p @ rest"
    using assms(4) by (auto simp: ipc_serialize_def Let_def bind_outcome_eq_Inr split: if_splits)
  define first where "first = (s, e, pp_of_list (e # butlast (pp_list p)))"
  obtain n where n: "0 < n" "ipc_decode_entry data = Inr (first, n)" "drop n data = encode_SLEB128 (pp_all p) @ rest"
    using ipc_decode_entry_serialized [OF assms(1-3), of rest] by (auto simp: data first_def)
  obtain b bs where b: "data = b # bs"
    using encode_SLEB128_nonempty [of s] by (cases data) (auto simp: data)
  obtain c cs where c: "encode_SLEB128 (pp_all p) @ rest = c # cs"
    using encode_SLEB128_nonempty [of "pp_all p"] by (cases "encode_SLEB128 (pp_all p)") auto
  obtain es1 where es1: "decode_all ipc_decode_entry (length bs) (c # cs) = Inr es1" "m' = fold ipc_put (first # es1) []"
    using assms(5) n(2,3) c by (auto simp: ipc_deserialize_def b bind_outcome_eq_Inr)
  obtain x k es where es: "ipc_decode_entry (c # cs) = Inr (x, k)" "es1 = x # es"
    using es1(1) by (cases "length bs") (auto simp: bind_outcome_eq_Inr)
  have "int64_range (pp_all p)" using assms(3) by (simp add: pp_list_def)
  then have "decode_int (c # cs) = Inr (to_int32 (pp_all p), length (encode_SLEB128 (pp_all p)))"
    unfolding c [symmetric] by (simp add: decode_int_def sleb.dec_enc)
  then have x: "fst x = to_int32 (pp_all p)" using es(1) by (auto simp: ipc_decode_entry_def bind_outcome_eq_Inr)
  have "map_of (ipc_put first []) s = Some (e, pp_of_list (e # butlast (pp_list p)))" "sorted (map fst (ipc_put first []))"
    by (simp_all add: ipc_put_def first_def)
  note k = ipc_put_all_keeps [OF this(2), where es = es1] ipc_put_all_starts [OF this(2), of es1]
  have s: "\<exists>q. map_of m' s = Some (e, q)"
    using k(1) \<open>map_of (ipc_put first []) s = _\<close> by (simp add: es1(2))
  have d: "to_int32 (pp_all p) \<in> dom (map_of m')" using k(2) x by (auto simp: es1(2) es(2))
  then have "m' = (s, e, p) # m \<Longrightarrow> to_int32 (pp_all p) \<in> fst ` set ((s, e, p) # m)"
    by (simp only: dom_map_of_conv_image_fst)
  then show ?thesis using s d by blast
qed

theorem interval_container_format_witness:
  "\<exists>data m'. ipc_serialize (\<lambda>_ _. 0) [(1, 5, pp_new)] = Inr data \<and> ipc_deserialize data = Inr m' \<and>
     m' \<noteq> [(1, 5, pp_new)]"
proof -
  have "case ipc_serialize (\<lambda>_ _. 0) [(1, 5, pp_new)] of Inl e \<Rightarrow> False
      | Inr data \<Rightarrow> (case ipc_deserialize data of Inl e \<Rightarrow> False | Inr m' \<Rightarrow> True)"
    by code_simp
  then obtain data m' where d: "ipc_serialize (\<lambda>_ _. 0) [(1, 5, pp_new)] = Inr data" "ipc_deserialize data = Inr m'"
    by (auto split: sum.splits)
  then show ?thesis
    using interval_container_format [of 1 5 pp_new "\<lambda>_ _. 0" "[]" data m']
    by (simp add: INT_MAX_def INT_MIN_def pp_list_def pp_new_def)
qed

end
