(* ===== verification/Deletion_Value.thy ===== *)
theory Deletion_Value
  imports Patch_Positions
begin

text \<open>
  Deletion values of \<open>patch/patch_tree_deletion_value.{h,cc}\<close>: the elements, \<open>DVIntervalList\<close> and
  both variants of \<open>PatchTreeDeletionValueBase\<close>. The template parameter \<open>T\<close> is either the element
  with positions or its base class without; the flag \<open>has_pos\<close> stands for \<open>T::has_positions()\<close>, and an
  element of the base class has the default positions. The build uses the compressed variant
  (\<open>COMPRESSED_DEL_VALUES\<close>).
\<close>

section \<open>Elements\<close>

record dv_element =
  el_patch_id :: int
  el_local_change :: bool
  el_positions :: patch_positions

definition dve_new :: "int \<Rightarrow> bool \<Rightarrow> patch_positions \<Rightarrow> dv_element" where
  "dve_new patch_id local_change p =
     \<lparr> el_patch_id = patch_id, el_local_change = local_change, el_positions = p \<rparr>"

text \<open>The constructor \<open>T(patch_id, local_change, p)\<close>; the base class ignores the positions.\<close>

definition dve_make :: "bool \<Rightarrow> int \<Rightarrow> bool \<Rightarrow> patch_positions \<Rightarrow> dv_element" where
  "dve_make has_pos patch_id local_change p = dve_new patch_id local_change (if has_pos then p else pp_new)"

definition dve_set_local_change :: "dv_element \<Rightarrow> dv_element" where
  "dve_set_local_change e = e\<lparr> el_local_change := True \<rparr>"

definition dve_less :: "dv_element \<Rightarrow> dv_element \<Rightarrow> bool" where
  "dve_less e rhs \<longleftrightarrow> el_patch_id e < el_patch_id rhs"

definition dve_base_eq :: "dv_element \<Rightarrow> dv_element \<Rightarrow> bool" where
  "dve_base_eq e rhs \<longleftrightarrow> el_patch_id e = el_patch_id rhs \<and> el_local_change e = el_local_change rhs"

definition dve_eq :: "dv_element \<Rightarrow> dv_element \<Rightarrow> bool" where
  "dve_eq e rhs \<longleftrightarrow> el_patch_id e = el_patch_id rhs \<and> el_local_change e = el_local_change rhs \<and>
     pp_eq (el_positions e) (el_positions rhs)"

definition serialize_dve_base :: "dv_element \<Rightarrow> byte list" where
  "serialize_dve_base e = encode_SLEB128 (el_patch_id e) @ [if el_local_change e then 1 else 0]"

definition deserialize_dve_base :: "byte list \<Rightarrow> ((int \<times> bool) \<times> nat) outcome" where
  "deserialize_dve_base data =
     bind_outcome (decode_int data) (\<lambda>(patch_id, n).
       case drop n data of [] \<Rightarrow> Inl Undefined_behaviour
       | b # _ \<Rightarrow> Inr ((patch_id, b \<noteq> 0), n + 1))"

definition serialize_dve :: "dv_element \<Rightarrow> byte list" where
  "serialize_dve e = serialize_dve_base e @ serialize_pp (el_positions e)"

definition deserialize_dve :: "byte list \<Rightarrow> (dv_element \<times> nat) outcome" where
  "deserialize_dve data =
     bind_outcome (deserialize_dve_base data) (\<lambda>((patch_id, lc), n).
     bind_outcome (deserialize_pp (drop n data)) (\<lambda>(p, m). Inr (dve_new patch_id lc p, n + m)))"

section \<open>Fixed-width sizes\<close>

text \<open>\<open>std::memcpy\<close> of a \<open>size_t\<close>: eight bytes, least significant first.\<close>

fun encode_le :: "nat \<Rightarrow> u64 \<Rightarrow> byte list" where
  "encode_le 0 w = []"
| "encode_le (Suc k) w = ucast w # encode_le k (drop_bit 8 w)"

fun decode_le :: "nat \<Rightarrow> byte list \<Rightarrow> u64 outcome" where
  "decode_le 0 bs = Inr 0"
| "decode_le (Suc k) [] = Inl Undefined_behaviour"
| "decode_le (Suc k) (b # bs) = bind_outcome (decode_le k bs) (\<lambda>w. Inr (ucast b OR push_bit 8 w))"

lemma length_encode_le [simp]: "length (encode_le k w) = k"
  by (induction k arbitrary: w) auto

lemma decode_encode_le: "decode_le k (encode_le k w @ rest) = Inr (take_bit (8 * k) w)"
proof (induction k arbitrary: w)
  case (Suc k)
  have "(ucast (ucast w :: byte) :: u64) OR push_bit 8 (take_bit (8 * k) (drop_bit 8 w)) = take_bit (8 * Suc k) w"
    by (rule bit_word_eqI) (auto simp: bit_simps)
  then show ?case using Suc by simp
qed simp

lemma decode_encode_le_8: "decode_le 8 (encode_le 8 w @ rest) = Inr w"
  using decode_encode_le [of 8 w rest] by (simp add: take_bit_word_eq_self)

section \<open>Interval-compressed element lists\<close>

record dv_interval_list =
  dv_patches :: interval_list
  dv_local_changes :: interval_list
  dv_positions :: "ver_positions list"

definition dvi_new :: dv_interval_list where
  "dvi_new = \<lparr> dv_patches = il_new INT_MAX, dv_local_changes = il_new INT_MAX, dv_positions = [] \<rparr>"

definition dvi_addition :: "bool \<Rightarrow> dv_element \<Rightarrow> dv_interval_list \<Rightarrow> (bool \<times> dv_interval_list) outcome" where
  "dvi_addition has_pos element l =
     (let patch = el_patch_id element in
      bind_outcome (il_addition patch (dv_patches l)) (\<lambda>(ch1, patches).
      bind_outcome (if el_local_change element then il_addition patch (dv_local_changes l)
                    else Inr (False, dv_local_changes l)) (\<lambda>(ch2, local).
      bind_outcome (if has_pos then v2_insert_positions patch (el_positions element) (dv_positions l)
                    else Inr (False, dv_positions l)) (\<lambda>(ch3, positions).
        Inr (ch1 \<or> ch2 \<or> ch3,
             \<lparr> dv_patches = patches, dv_local_changes = local, dv_positions = positions \<rparr>)))))"

definition dvi_deletion :: "int \<Rightarrow> dv_interval_list \<Rightarrow> (bool \<times> dv_interval_list) outcome" where
  "dvi_deletion element l =
     bind_outcome (il_deletion element (dv_patches l)) (\<lambda>(ch1, patches).
     bind_outcome (il_deletion element (dv_local_changes l)) (\<lambda>(ch2, local).
     bind_outcome (v2_delete_positions element (dv_positions l)) (\<lambda>(ch3, positions).
       Inr (ch1 \<or> ch2 \<or> ch3,
            \<lparr> dv_patches = patches, dv_local_changes = local, dv_positions = positions \<rparr>))))"

definition dvi_get_index :: "int \<Rightarrow> int \<Rightarrow> dv_interval_list \<Rightarrow> int" where
  "dvi_get_index patch_id outer_patch_limit l = il_get_index patch_id outer_patch_limit (dv_patches l)"

definition dvi_size :: "int \<Rightarrow> dv_interval_list \<Rightarrow> int" where
  "dvi_size outer_patch_limit l = il_get_size outer_patch_limit (dv_patches l)"

definition dvi_get_element_at :: "bool \<Rightarrow> int \<Rightarrow> int \<Rightarrow> dv_interval_list \<Rightarrow> dv_element outcome" where
  "dvi_get_element_at has_pos index outer_patch_limit l =
     (let patch_id = il_get_element_at index outer_patch_limit (dv_patches l) in
      bind_outcome (il_is_in patch_id (dv_local_changes l)) (\<lambda>local_change.
        if \<not> has_pos then Inr (dve_make has_pos patch_id local_change pp_new)
        else bind_outcome (v2_get_positions patch_id outer_patch_limit (dv_positions l)) (\<lambda>p.
          Inr (dve_make has_pos patch_id local_change (case p of None \<Rightarrow> pp_new | Some q \<Rightarrow> q)))))"

definition dvi_serialize :: "dv_interval_list \<Rightarrow> byte list" where
  "dvi_serialize l =
     (let data_patches = il_serialize (dv_patches l); data_local = il_serialize (dv_local_changes l);
          data_positions = delta_serialize_position_vec (dv_positions l)
      in encode_le 8 (of_nat (length data_patches)) @ encode_le 8 (of_nat (length data_local)) @
         data_patches @ data_local @ data_positions)"

text \<open>\<open>deserialize\<close> into a list; when no position bytes are left the container keeps what it holds.\<close>

definition dvi_deserialize :: "byte list \<Rightarrow> dv_interval_list \<Rightarrow> dv_interval_list outcome" where
  "dvi_deserialize data l =
     bind_outcome (decode_le 8 data) (\<lambda>patches_size.
     bind_outcome (decode_le 8 (drop 8 data)) (\<lambda>local_size.
       let n = unat patches_size; k = unat local_size in
       if length data < 16 + n + k then Inl Undefined_behaviour
       else
         bind_outcome (il_deserialize (take n (drop 16 data)) (il_clear (dv_patches l))) (\<lambda>patches.
         bind_outcome (il_deserialize (take k (drop (16 + n) data)) (il_clear (dv_local_changes l))) (\<lambda>local.
           let position_bytes = drop (16 + n + k) data in
           bind_outcome (if length position_bytes > 0 then delta_deserialize_position_vec position_bytes
                         else Inr (dv_positions l)) (\<lambda>positions.
             Inr \<lparr> dv_patches = patches, dv_local_changes = local, dv_positions = positions \<rparr>)))))"

section \<open>The compressed deletion value\<close>

record deletion_value =
  dv_elements :: dv_interval_list
  dv_max_patch_id :: int

definition dv_new :: "int \<Rightarrow> deletion_value" where
  "dv_new max_patch_id = \<lparr> dv_elements = dvi_new, dv_max_patch_id = max_patch_id + 1 \<rparr>"

definition dv_add :: "bool \<Rightarrow> dv_element \<Rightarrow> deletion_value \<Rightarrow> (bool \<times> deletion_value) outcome" where
  "dv_add has_pos element v =
     bind_outcome (dvi_addition has_pos element (dv_elements v)) (\<lambda>(ch, l). Inr (ch, v\<lparr> dv_elements := l \<rparr>))"

definition dv_del :: "int \<Rightarrow> deletion_value \<Rightarrow> (bool \<times> deletion_value) outcome" where
  "dv_del patch_id v =
     bind_outcome (dvi_deletion patch_id (dv_elements v)) (\<lambda>(ch, l). Inr (ch, v\<lparr> dv_elements := l \<rparr>))"

definition dv_get_patchvalue_index :: "int \<Rightarrow> deletion_value \<Rightarrow> int" where
  "dv_get_patchvalue_index patch_id v = dvi_get_index patch_id (dv_max_patch_id v) (dv_elements v)"

definition dv_get_size :: "deletion_value \<Rightarrow> int" where
  "dv_get_size v = dvi_size (dv_max_patch_id v) (dv_elements v)"

definition dv_get_patch_at :: "bool \<Rightarrow> int \<Rightarrow> deletion_value \<Rightarrow> dv_element outcome" where
  "dv_get_patch_at has_pos index v = dvi_get_element_at has_pos index (dv_max_patch_id v) (dv_elements v)"

definition dv_get :: "bool \<Rightarrow> int \<Rightarrow> deletion_value \<Rightarrow> dv_element outcome" where
  "dv_get has_pos patch_id v =
     (let index = dv_get_patchvalue_index patch_id v; sz = dvi_size (dv_max_patch_id v) (dv_elements v) in
      if index < 0 \<or> index \<ge> sz then dv_get_patch_at has_pos (sz - 1) v
      else dv_get_patch_at has_pos index v)"

definition dv_is_local_change :: "bool \<Rightarrow> int \<Rightarrow> deletion_value \<Rightarrow> bool outcome" where
  "dv_is_local_change has_pos patch_id v =
     (if dv_get_size v = 0 then Inr False
      else
        (let index = dv_get_patchvalue_index patch_id v in
         if index \<ge> 0
         then bind_outcome (dv_get_patch_at has_pos index v) (\<lambda>e. Inr (el_local_change e))
         else bind_outcome (dv_get_patch_at has_pos (dv_get_size v - 1) v) (\<lambda>e. Inr (el_local_change e))))"

definition dv_serialize :: "deletion_value \<Rightarrow> byte list" where
  "dv_serialize v = dvi_serialize (dv_elements v)"

definition dv_deserialize :: "byte list \<Rightarrow> deletion_value \<Rightarrow> deletion_value outcome" where
  "dv_deserialize data v =
     bind_outcome (dvi_deserialize data (dv_elements v)) (\<lambda>l. Inr (v\<lparr> dv_elements := l \<rparr>))"

text \<open>\<open>to_reduced\<close>: the same elements without positions, added one by one.\<close>

fun dv_reduce_loop :: "bool \<Rightarrow> deletion_value \<Rightarrow> int \<Rightarrow> nat \<Rightarrow> deletion_value \<Rightarrow> deletion_value outcome" where
  "dv_reduce_loop has_pos v i 0 reduced = Inr reduced"
| "dv_reduce_loop has_pos v i (Suc n) reduced =
     bind_outcome (dv_get_patch_at has_pos i v) (\<lambda>e.
     bind_outcome (dv_add False (dve_new (el_patch_id e) (el_local_change e) pp_new) reduced) (\<lambda>(ch, reduced').
       dv_reduce_loop has_pos v (i + 1) n reduced'))"

definition dv_to_reduced :: "bool \<Rightarrow> deletion_value \<Rightarrow> deletion_value outcome" where
  "dv_to_reduced has_pos v =
     dv_reduce_loop has_pos v 0 (nat (dv_get_size v)) (dv_new (dv_max_patch_id v))"

section \<open>The plain deletion value\<close>

type_synonym deletion_value_vec = "dv_element list"

definition dvv_add :: "dv_element \<Rightarrow> deletion_value_vec \<Rightarrow> deletion_value_vec" where
  "dvv_add element elements =
     (let it = lower_bound (\<lambda>e. dve_less e element) elements in
      if it \<noteq> length elements \<and> el_patch_id (elements ! it) = el_patch_id element
      then elements[it := element] else insert_at it element elements)"

definition dvv_get_patchvalue_index :: "int \<Rightarrow> deletion_value_vec \<Rightarrow> int" where
  "dvv_get_patchvalue_index patch_id elements =
     (let it = lower_bound (\<lambda>e. dve_less e (dve_new patch_id False pp_new)) elements in
      if it \<noteq> length elements \<and> el_patch_id (elements ! it) = patch_id then int it else - 1)"

definition dvv_get_size :: "deletion_value_vec \<Rightarrow> int" where
  "dvv_get_size elements = int (length elements)"

definition dvv_get_patch_at :: "int \<Rightarrow> deletion_value_vec \<Rightarrow> dv_element outcome" where
  "dvv_get_patch_at index elements =
     (if 0 \<le> index \<and> index < int (length elements) then Inr (elements ! nat index)
      else Inl Undefined_behaviour)"

text \<open>The comparison \<open>index >= elements.size()\<close> is never reached with a negative index.\<close>

definition dvv_get :: "int \<Rightarrow> deletion_value_vec \<Rightarrow> dv_element outcome" where
  "dvv_get patch_id elements =
     (let index = dvv_get_patchvalue_index patch_id elements in
      if index < 0 \<or> index \<ge> int (length elements)
      then dvv_get_patch_at (int (length elements) - 1) elements
      else dvv_get_patch_at index elements)"

definition dvv_is_local_change :: "int \<Rightarrow> deletion_value_vec \<Rightarrow> bool outcome" where
  "dvv_is_local_change patch_id elements =
     (if dvv_get_size elements = 0 then Inr False
      else
        (let it = lower_bound (\<lambda>e. dve_less e (dve_new patch_id False pp_new)) elements;
             it' = (if it \<ge> length elements then it - 1 else it)
         in Inr (el_local_change (elements ! it'))))"

definition dvv_serialize :: "bool \<Rightarrow> deletion_value_vec \<Rightarrow> byte list" where
  "dvv_serialize has_pos elements =
     concat (map (if has_pos then serialize_dve else serialize_dve_base) elements)"

definition decode_dve_base :: "byte list \<Rightarrow> (dv_element \<times> nat) outcome" where
  "decode_dve_base data =
     bind_outcome (deserialize_dve_base data) (\<lambda>((patch_id, lc), n). Inr (dve_new patch_id lc pp_new, n))"

definition dvv_deserialize :: "bool \<Rightarrow> byte list \<Rightarrow> deletion_value_vec outcome" where
  "dvv_deserialize has_pos data =
     decode_all (if has_pos then deserialize_dve else decode_dve_base) (length data) data"

section \<open>Histories of the compressed value\<close>

text \<open>A history of a deletion value: elements added, patch ids deleted, in ascending order of versions.\<close>

datatype dv_event = Del_added dv_element | Del_removed int

fun dv_event_id :: "dv_event \<Rightarrow> int" where
  "dv_event_id (Del_added e) = el_patch_id e"
| "dv_event_id (Del_removed i) = i"

fun dv_apply :: "bool \<Rightarrow> dv_event \<Rightarrow> deletion_value \<Rightarrow> deletion_value outcome" where
  "dv_apply has_pos (Del_added e) v = bind_outcome (dv_add has_pos e v) (\<lambda>(ch, v'). Inr v')"
| "dv_apply has_pos (Del_removed i) v = bind_outcome (dv_del i v) (\<lambda>(ch, v'). Inr v')"

definition dv_run :: "bool \<Rightarrow> dv_event list \<Rightarrow> deletion_value \<Rightarrow> deletion_value outcome" where
  "dv_run has_pos evs v = foldl (\<lambda>r e. bind_outcome r (dv_apply has_pos e)) (Inr v) evs"

text \<open>The three histories it consists of: of the versions, of the local changes, of the positions.\<close>

fun version_event :: "dv_event \<Rightarrow> event" where
  "version_event (Del_added e) = Added (el_patch_id e)"
| "version_event (Del_removed i) = Deleted i"

fun local_events :: "dv_event \<Rightarrow> event list" where
  "local_events (Del_added e) = (if el_local_change e then [Added (el_patch_id e)] else [])"
| "local_events (Del_removed i) = [Deleted i]"

fun position_op :: "dv_event \<Rightarrow> int \<times> patch_positions option" where
  "position_op (Del_added e) = (el_patch_id e, Some (el_positions e))"
| "position_op (Del_removed i) = (i, None)"

definition dv_ascending :: "dv_event list \<Rightarrow> bool" where
  "dv_ascending evs \<longleftrightarrow> sorted_wrt (<) (map dv_event_id evs) \<and> (\<forall>e\<in>set evs. 0 \<le> dv_event_id e \<and> dv_event_id e < INT_MAX)"

abbreviation deleted_at :: "dv_event list \<Rightarrow> int \<Rightarrow> bool" where
  "deleted_at evs \<equiv> status_at (map version_event evs)"

abbreviation local_at :: "dv_event list \<Rightarrow> int \<Rightarrow> bool" where
  "local_at evs \<equiv> status_at (concat (map local_events evs))"

text \<open>The positions of the last element added at or before a version.\<close>

definition positions_at :: "dv_event list \<Rightarrow> int \<Rightarrow> patch_positions option" where
  "positions_at evs v = (let es = filter (\<lambda>op. fst op \<le> v \<and> snd op \<noteq> None) (map position_op evs)
     in if es = [] then None else snd (last es))"

lemma event_id_version [simp]: "event_id (version_event e) = dv_event_id e"
  by (cases e) auto

lemma event_id_local: "l \<in> set (local_events e) \<Longrightarrow> event_id l = dv_event_id e"
  by (cases e) (auto split: if_splits)

lemma fst_position_op [simp]: "fst (position_op e) = dv_event_id e"
  by (cases e) auto

lemma dv_ascending_snoc:
  "dv_ascending (evs @ [e]) \<longleftrightarrow> dv_ascending evs \<and> (\<forall>a\<in>set evs. dv_event_id a < dv_event_id e) \<and>
     0 \<le> dv_event_id e \<and> dv_event_id e < INT_MAX"
  by (auto simp: dv_ascending_def sorted_wrt_append)

lemma positions_at_snoc:
  "positions_at (evs @ [e]) v =
     (case position_op e of (i, Some p) \<Rightarrow> if i \<le> v then Some p else positions_at evs v
      | (i, None) \<Rightarrow> positions_at evs v)"
  by (cases e) (auto simp: positions_at_def Let_def)

lemma ascending_versions: "dv_ascending evs \<Longrightarrow> ascending 0 INT_MAX (map version_event evs)"
  by (auto simp: dv_ascending_def ascending_def comp_def)

lemma ascending_locals: "dv_ascending evs \<Longrightarrow> ascending 0 INT_MAX (concat (map local_events evs))"
proof (induction evs rule: rev_induct)
  case Nil
  then show ?case by (simp add: ascending_def)
next
  case (snoc e evs)
  then have ih: "ascending 0 INT_MAX (concat (map local_events evs))"
    and lt: "\<forall>a\<in>set evs. dv_event_id a < dv_event_id e" "0 \<le> dv_event_id e" "dv_event_id e < INT_MAX"
    by (auto simp: dv_ascending_snoc)
  have "\<forall>a\<in>set (concat (map local_events evs)). event_id a < dv_event_id e"
    using lt(1) event_id_local by fastforce
  then show ?case
    using ih lt by (cases e) (auto simp: ascending_snoc)
qed

text \<open>The V2 container over such a history.\<close>

lemma v2_get_from:
  assumes "vec_inv v c" "v2_insert_positions v p c = Inr (ch, c')" "v \<le> q"
  shows "v2_get_positions q lim c' = Inr (Some p)"
proof -
  have lb: "lower_bound (key_lt v) c = length c" using vec_lower_bound_end [OF assms(1)] by simp
  have inv': "vec_inv (v + 1) (c @ [(v, p)])" using assms(1) by simp
  have lst: "v2_get_positions q lim (d @ [(w, p)]) = Inr (Some p)" if i: "vec_inv q (d @ [(w, p)]) \<or> w = q \<and> vec_inv q d" for d w
  proof -
    have keys: "\<forall>x\<in>set d. fst x < q" "w \<le> q" using i by (force simp: vec_inv_def sorted_wrt_append)+
    then have "lower_bound (key_lt q) (d @ [(w, p)]) = (if w < q then Suc (length d) else length d)"
      using lower_bound_append [of "d @ [(w, p)]" "key_lt q" "[]"] lower_bound_append [of d "key_lt q" "[(w, p)]"]
      by auto
    then show ?thesis using keys(2) by (simp add: v2_get_positions_def Let_def nth_append)
  qed
  show ?thesis
  proof (cases c rule: rev_cases)
    case Nil
    then have "c' = [] @ [(v, p)]" using assms(2) by (simp add: v2_insert_positions_def)
    moreover have "vec_inv q ([] @ [(v, p)]) \<or> v = q \<and> vec_inv q []" using assms(3) by (auto simp: vec_inv_def)
    ultimately show ?thesis using lst by blast
  next
    case (snoc c0 e)
    have ev: "fst e < v" "vec_inv (fst e) c0" using assms(1) snoc by auto
    show ?thesis
    proof (cases "snd e = p")
      case True
      then have "c' = c0 @ [e]"
        using lb snoc ev assms(2) by (auto simp: v2_insert_positions_def Let_def nth_append)
      then have "c' = c0 @ [(fst e, p)]" using True by (cases e) simp
      moreover have "vec_inv q (c0 @ [(fst e, p)])" using ev assms(3) by simp
      ultimately show ?thesis using lst by blast
    next
      case False
      then have "c' = c @ [(v, p)]"
        using lb snoc ev assms(2) by (simp add: v2_insert_positions_def Let_def nth_append insert_at_def)
      moreover have "vec_inv q (c @ [(v, p)]) \<or> v = q \<and> vec_inv q c"
        using assms(1,3) by (cases "v = q") auto
      ultimately show ?thesis using lst by blast
    qed
  qed
qed

lemma v2_get_keep:
  assumes "vec_inv v c" "v2_insert_positions v p c = Inr (ch, c')" "q < v"
    "v2_get_positions q lim c = Inr (Some r)"
  shows "v2_get_positions q lim c' = Inr (Some r)"
proof (cases c rule: rev_cases)
  case Nil
  then show ?thesis using assms(4) by (simp add: v2_get_positions_def)
next
  case (snoc c0 e)
  have lb: "lower_bound (key_lt v) c = length c" using vec_lower_bound_end [OF assms(1)] by simp
  have ev: "fst e < v" using assms(1) snoc by auto
  show ?thesis
  proof (cases "snd e = p")
    case True
    then have "c' = c" using lb snoc ev assms(2) by (simp add: v2_insert_positions_def Let_def nth_append)
    then show ?thesis using assms(4) by simp
  next
    case False
    then have "c' = c @ [(v, p)]"
      using lb snoc ev assms(2) by (simp add: v2_insert_positions_def Let_def nth_append insert_at_def)
    then show ?thesis using v2_get_snoc [of q "(v, p)"] assms(3,4) by simp
  qed
qed

text \<open>The run of a value is the three runs side by side.\<close>

lemma dv_run_history:
  assumes "dv_ascending evs"
  shows "\<exists>v. dv_run True evs (dv_new m) = Inr v \<and> dv_max_patch_id v = m + 1 \<and>
    ilv.run (map version_event evs) = Inr (dv_patches (dv_elements v)) \<and>
    ilv.run (concat (map local_events evs)) = Inr (dv_local_changes (dv_elements v)) \<and>
    (\<forall>k. (\<forall>e\<in>set evs. dv_event_id e < k) \<longrightarrow> vec_inv k (dv_positions (dv_elements v))) \<and>
    (\<forall>q lim p. positions_at evs q = Some p \<longrightarrow> v2_get_positions q lim (dv_positions (dv_elements v)) = Inr (Some p))"
  using assms
proof (induction evs rule: rev_induct)
  case Nil
  then show ?case by (simp add: dv_run_def dv_new_def dvi_new_def ilv.run_def positions_at_def)
next
  case (snoc e evs)
  have a: "dv_ascending evs" "\<forall>a\<in>set evs. dv_event_id a < dv_event_id e" "0 \<le> dv_event_id e" "dv_event_id e < INT_MAX"
    using snoc.prems by (auto simp: dv_ascending_snoc)
  from snoc.IH [OF a(1)] obtain v where v: "dv_run True evs (dv_new m) = Inr v" "dv_max_patch_id v = m + 1"
    "ilv.run (map version_event evs) = Inr (dv_patches (dv_elements v))"
    "ilv.run (concat (map local_events evs)) = Inr (dv_local_changes (dv_elements v))"
    "\<forall>k. (\<forall>e\<in>set evs. dv_event_id e < k) \<longrightarrow> vec_inv k (dv_positions (dv_elements v))"
    "\<forall>q lim p. positions_at evs q = Some p \<longrightarrow> v2_get_positions q lim (dv_positions (dv_elements v)) = Inr (Some p)"
    by (elim exE conjE) (rule that)
  from ilv.run_history [OF ascending_versions [OF snoc.prems]] obtain l1 where
    l1: "ilv.run (map version_event (evs @ [e])) = Inr l1" by blast
  from ilv.run_history [OF ascending_locals [OF snoc.prems]] obtain l2 where
    l2: "ilv.run (concat (map local_events (evs @ [e]))) = Inr l2" by blast
  have vi: "vec_inv (dv_event_id e) (dv_positions (dv_elements v))" using v(5) a(2) by simp
  show ?case
  proof (cases e)
    case (Del_added x)
    from v2_container.insert_step [OF vi order_refl a(4)] obtain ch c' where
      c': "v2_insert_positions (dv_event_id e) (el_positions x) (dv_positions (dv_elements v)) = Inr (ch, c')"
        "vec_inv (dv_event_id e + 1) c'" by blast
    obtain c1 where c1: "il_addition (el_patch_id x) (dv_patches (dv_elements v)) = Inr (c1, l1)"
      using l1 v(3) Del_added by (auto simp: ilv.run_def bind_outcome_eq_Inr)
    obtain c2 where c2: "(if el_local_change x then il_addition (el_patch_id x) (dv_local_changes (dv_elements v))
        else Inr (False, dv_local_changes (dv_elements v))) = Inr (c2, l2)"
      using l2 v(4) Del_added by (auto simp: ilv.run_def bind_outcome_eq_Inr split: if_splits)
    define w where "w = v\<lparr> dv_elements := \<lparr> dv_patches = l1, dv_local_changes = l2, dv_positions = c' \<rparr> \<rparr>"
    have "dv_run True (evs @ [e]) (dv_new m) = Inr w"
      using v(1) c1 c2 c'(1) Del_added by (simp add: dv_run_def dv_add_def dvi_addition_def w_def)
    moreover have "vec_inv k c'" if "\<forall>a\<in>set (evs @ [e]). dv_event_id a < k" for k
      using vec_inv_mono [OF c'(2), of k] that by simp
    moreover have "v2_get_positions q lim c' = Inr (Some p)" if "positions_at (evs @ [e]) q = Some p" for q lim p
    proof (cases "dv_event_id e \<le> q")
      case True
      then have "p = el_positions x" using that Del_added by (simp add: positions_at_snoc)
      then show ?thesis using v2_get_from [OF vi c'(1) True] by simp
    next
      case False
      then have "positions_at evs q = Some p" using that Del_added by (simp add: positions_at_snoc)
      then show ?thesis using v2_get_keep [OF vi c'(1)] v(6) False by simp
    qed
    ultimately show ?thesis using v(2) l1 l2 by (intro exI [of _ w]) (simp add: w_def)
  next
    case (Del_removed i)
    obtain c1 where c1: "il_deletion i (dv_patches (dv_elements v)) = Inr (c1, l1)"
      using l1 v(3) Del_removed by (auto simp: ilv.run_def bind_outcome_eq_Inr)
    obtain c2 where c2: "il_deletion i (dv_local_changes (dv_elements v)) = Inr (c2, l2)"
      using l2 v(4) Del_removed by (auto simp: ilv.run_def bind_outcome_eq_Inr)
    define w where "w = v\<lparr> dv_elements := \<lparr> dv_patches = l1, dv_local_changes = l2,
      dv_positions = dv_positions (dv_elements v) \<rparr> \<rparr>"
    have "dv_run True (evs @ [e]) (dv_new m) = Inr w"
      using v(1) c1 c2 Del_removed
      by (simp add: dv_run_def dv_del_def dvi_deletion_def v2_delete_positions_def w_def)
    then show ?thesis
      using v(2,5,6) l1 l2 Del_removed by (intro exI [of _ w]) (simp add: w_def positions_at_snoc)
  qed
qed


lemma status_at_added: "status_at evs x \<Longrightarrow> \<exists>e\<in>set evs. is_added e \<and> event_id e \<le> x"
  by (induction evs rule: rev_induct) (auto simp: status_at_snoc split: if_splits)

lemma positions_at_deleted: "deleted_at evs x \<Longrightarrow> \<exists>p. positions_at evs x = Some p"
proof (induction evs rule: rev_induct)
  case (snoc e evs)
  then show ?case
    by (cases e) (auto simp: status_at_snoc positions_at_snoc split: if_splits)
qed simp

lemma dv_run_lookup:
  assumes "dv_ascending evs" "\<forall>e\<in>set evs. dv_event_id e \<le> m" "- 1 \<le> m" "m < INT_MAX"
  obtains v where "dv_run True evs (dv_new m) = Inr v" "dv_max_patch_id v = m + 1"
    "il_settled (m + 1) (dv_patches (dv_elements v))" "il_settled (m + 1) (dv_local_changes (dv_elements v))"
    "\<forall>x < INT_MAX. il_mem (dv_patches (dv_elements v)) x = deleted_at evs x"
    "\<forall>x < INT_MAX. il_mem (dv_local_changes (dv_elements v)) x = local_at evs x"
    "il_start (dv_local_changes (dv_elements v)) = first_added (concat (map local_events evs))"
    "\<forall>q lim p. positions_at evs q = Some p \<longrightarrow> v2_get_positions q lim (dv_positions (dv_elements v)) = Inr (Some p)"
proof -
  from dv_run_history [OF assms(1), of m] obtain v where v: "dv_run True evs (dv_new m) = Inr v" "dv_max_patch_id v = m + 1"
    "ilv.run (map version_event evs) = Inr (dv_patches (dv_elements v))"
    "ilv.run (concat (map local_events evs)) = Inr (dv_local_changes (dv_elements v))"
    "\<forall>k. (\<forall>e\<in>set evs. dv_event_id e < k) \<longrightarrow> vec_inv k (dv_positions (dv_elements v))"
    "\<forall>q lim p. positions_at evs q = Some p \<longrightarrow> v2_get_positions q lim (dv_positions (dv_elements v)) = Inr (Some p)"
    by (elim exE conjE) (rule that)
  have p: "il_settled (m + 1) (dv_patches (dv_elements v))"
    "\<forall>x < INT_MAX. il_mem (dv_patches (dv_elements v)) x = deleted_at evs x"
    using ilv.run_history [OF ascending_versions [OF assms(1)]] v(3) assms(2) by force+
  have "\<forall>e\<in>set (concat (map local_events evs)). event_id e < m + 1"
    using event_id_local assms(2) by fastforce
  then have l: "il_settled (m + 1) (dv_local_changes (dv_elements v))"
    "\<forall>x < INT_MAX. il_mem (dv_local_changes (dv_elements v)) x = local_at evs x"
    "il_start (dv_local_changes (dv_elements v)) = first_added (concat (map local_events evs))"
    using ilv.run_history [OF ascending_locals [OF assms(1)]] v(4) by force+
  show thesis by (rule that [OF v(1,2) p(1) l(1) p(2) l(2,3) v(6)])
qed

lemma takeWhile_nth_sorted:
  "sorted_wrt (<) vs \<Longrightarrow> i < length vs \<Longrightarrow> takeWhile (\<lambda>x. x < vs ! i) vs = take i vs" for vs :: "int list"
  by (intro takeWhile_eq_take_P_nth) (auto simp: sorted_wrt_iff_nth_less)

lemma il_index_element:
  assumes "il_settled k l" "k \<le> lim" "lim \<le> INT_MAX" "il_mem l x" "x < lim"
  shows "0 \<le> il_get_index x lim l" "il_get_index x lim l < il_get_size lim l"
    "il_get_element_at (il_get_index x lim l) lim l = x"
proof -
  note f = il_settled_values [OF assms(1-3)]
  have "x \<in> set (il_values lim l)" using f(1) assms(4,5) by simp
  then obtain i where i: "i < length (il_values lim l)" "x = il_values lim l ! i"
    by (metis in_set_conv_nth)
  have ix: "il_get_index x lim l = int i"
    using f(5) [of x] i takeWhile_nth_sorted [OF f(2) i(1)] by simp
  then show "0 \<le> il_get_index x lim l" "il_get_index x lim l < il_get_size lim l" using f(3) i(1) by simp_all
  show "il_get_element_at (il_get_index x lim l) lim l = x" using f(4) [of "int i"] ix i by simp
qed

lemma il_index_absent:
  assumes "il_settled k l" "k \<le> lim" "lim \<le> INT_MAX" "\<not> il_mem l x"
  shows "il_get_index x lim l = - 1"
proof -
  note f = il_settled_values [OF assms(1-3)]
  have "x \<notin> set (il_values lim l)" using f(1) assms(4) by simp
  then show ?thesis using f(5) [of x] by simp
qed

text \<open>Byte format.\<close>

lemma dvi_deserialize_serialize:
  assumes "il_ok 0 (dv_patches l)" "il_ok 0 (dv_local_changes l)"
    "runs_int32 (il_intervals (dv_patches l))" "runs_int32 (il_intervals (dv_local_changes l))"
    "length (il_serialize (dv_patches l)) < 2 ^ 64" "length (il_serialize (dv_local_changes l)) < 2 ^ 64"
    "\<forall>x\<in>set (dv_positions l). position_range (snd x) \<and> int32_range (fst x)"
    "il_max (dv_patches w) = il_max (dv_patches l)" "il_max (dv_local_changes w) = il_max (dv_local_changes l)"
    "dv_positions l = [] \<Longrightarrow> dv_positions w = []"
  shows "dvi_deserialize (dvi_serialize l) w = Inr l"
proof -
  define bp bl bq where "bp = il_serialize (dv_patches l)" "bl = il_serialize (dv_local_changes l)"
    "bq = delta_serialize_position_vec (dv_positions l)"
  have n: "unat (of_nat (length bp) :: u64) = length bp" "unat (of_nat (length bl) :: u64) = length bl"
    using assms(5,6) by (simp_all add: unat_of_nat bp_bl_bq_def)
  have p: "il_deserialize bp (il_clear (dv_patches w)) = Inr (dv_patches l)"
    unfolding bp_bl_bq_def by (rule il_deserialize_serialize [OF assms(1,3)]) (simp add: il_clear_def assms(8))
  have q: "il_deserialize bl (il_clear (dv_local_changes w)) = Inr (dv_local_changes l)"
    unfolding bp_bl_bq_def by (rule il_deserialize_serialize [OF assms(2,4)]) (simp add: il_clear_def assms(9))
  have r: "(if length bq > 0 then delta_deserialize_position_vec bq else Inr (dv_positions w)) = Inr (dv_positions l)"
  proof (cases "dv_positions l = []")
    case True
    then show ?thesis using assms(10) by (simp add: bp_bl_bq_def delta_serialize_position_vec_def)
  next
    case False
    then have "bq \<noteq> []" using delta_serialize_empty by (simp add: bp_bl_bq_def)
    then show ?thesis using delta_deserialize_serialize [OF False assms(7)] by (simp add: bp_bl_bq_def)
  qed
  have s: "dvi_serialize l = encode_le 8 (of_nat (length bp)) @ encode_le 8 (of_nat (length bl)) @ bp @ bl @ bq"
    by (simp add: dvi_serialize_def Let_def bp_bl_bq_def)
  have d2: "decode_le 8 (drop 8 (dvi_serialize l)) = Inr (of_nat (length bl))"
    using decode_encode_le_8 [of "of_nat (length bl)" "bp @ bl @ bq"] by (simp add: s)
  have t: "take (length bp) (drop 16 (dvi_serialize l)) = bp"
    "take (length bl) (drop (16 + length bp) (dvi_serialize l)) = bl"
    "drop (16 + length bp + length bl) (dvi_serialize l) = bq"
    "\<not> length (dvi_serialize l) < 16 + length bp + length bl"
    by (simp_all add: s)
  have d1: "decode_le 8 (dvi_serialize l) = Inr (of_nat (length bp))"
    unfolding s by (rule decode_encode_le_8)
  show ?thesis
    unfolding dvi_deserialize_def d1 d2 bind_outcome_simps prod.case Let_def n t
    using t(4) r by (cases "bq = []") (simp_all add: p q)
qed

section \<open>The plain value\<close>

lemma dvv_lower_bound:
  assumes "sorted_wrt (<) (map el_patch_id es)"
  obtains us vs where "es = us @ vs" "\<forall>e\<in>set us. el_patch_id e < i" "\<forall>e\<in>set vs. i \<le> el_patch_id e"
    "\<And>x. el_patch_id x = i \<Longrightarrow> lower_bound (\<lambda>e. dve_less e x) es = length us"
proof -
  obtain us vs where s: "es = us @ vs" "\<forall>e\<in>set us. el_patch_id e < i" "vs = [] \<or> \<not> el_patch_id (hd vs) < i"
    "lower_bound (\<lambda>e. el_patch_id e < i) es = length us"
    by (rule lower_bound_split)
  have "\<forall>e\<in>set vs. i \<le> el_patch_id e"
    using s(3) assms unfolding s(1) by (cases vs) (auto simp: sorted_wrt_append)
  then show thesis using that s by (simp add: dve_less_def)
qed

lemma dvv_add_result:
  assumes "sorted_wrt (<) (map el_patch_id es)"
  shows "sorted_wrt (<) (map el_patch_id (dvv_add x es))"
    "set (dvv_add x es) = insert x {e \<in> set es. el_patch_id e \<noteq> el_patch_id x}"
proof -
  obtain us vs where s: "es = us @ vs" "\<forall>e\<in>set us. el_patch_id e < el_patch_id x"
    "\<forall>e\<in>set vs. el_patch_id x \<le> el_patch_id e"
    "\<And>y. el_patch_id y = el_patch_id x \<Longrightarrow> lower_bound (\<lambda>e. dve_less e y) es = length us"
    using dvv_lower_bound [OF assms] by blast
  note lb = s(4) [OF refl]
  show "sorted_wrt (<) (map el_patch_id (dvv_add x es))"
    "set (dvv_add x es) = insert x {e \<in> set es. el_patch_id e \<noteq> el_patch_id x}"
    using assms s(2,3) lb unfolding s(1)
    by (cases vs; force simp: dvv_add_def Let_def insert_at_def sorted_wrt_append)+
qed

lemma dvv_index_result:
  assumes "sorted_wrt (<) (map el_patch_id es)"
  shows "e \<in> set es \<Longrightarrow> \<exists>i < length es. dvv_get_patchvalue_index (el_patch_id e) es = int i \<and> es ! i = e"
    "i \<notin> el_patch_id ` set es \<Longrightarrow> dvv_get_patchvalue_index i es = - 1"
proof -
  assume e: "e \<in> set es"
  obtain us vs where s: "es = us @ vs" "\<forall>d\<in>set us. el_patch_id d < el_patch_id e"
    "\<forall>d\<in>set vs. el_patch_id e \<le> el_patch_id d"
    "\<And>y. el_patch_id y = el_patch_id e \<Longrightarrow> lower_bound (\<lambda>d. dve_less d y) es = length us"
    using dvv_lower_bound [OF assms] by blast
  have "e \<in> set vs" using e s(2) by (auto simp: s(1))
  then obtain ws where vs: "vs = e # ws"
    using assms s(3) unfolding s(1) by (cases vs) (force simp: sorted_wrt_append)+
  have "dvv_get_patchvalue_index (el_patch_id e) es = int (length us)"
    using s(4) [of "dve_new (el_patch_id e) False pp_new"]
    by (simp add: dvv_get_patchvalue_index_def Let_def dve_new_def s(1) vs)
  then show "\<exists>i < length es. dvv_get_patchvalue_index (el_patch_id e) es = int i \<and> es ! i = e"
    by (intro exI [of _ "length us"]) (simp add: s(1) vs)
next
  assume i: "i \<notin> el_patch_id ` set es"
  obtain us vs where s: "es = us @ vs" "\<forall>d\<in>set us. el_patch_id d < i" "\<forall>d\<in>set vs. i \<le> el_patch_id d"
    "\<And>y. el_patch_id y = i \<Longrightarrow> lower_bound (\<lambda>d. dve_less d y) es = length us"
    using dvv_lower_bound [OF assms] by blast
  have "\<not> (length us \<noteq> length es \<and> el_patch_id (es ! length us) = i)"
    using i by (cases vs) (auto simp: s(1))
  then show "dvv_get_patchvalue_index i es = - 1"
    using s(4) [of "dve_new i False pp_new"]
    unfolding dvv_get_patchvalue_index_def Let_def by (simp add: dve_new_def)
qed

lemma deserialize_dve_base_serialized:
  "int32_range (el_patch_id e) \<Longrightarrow> deserialize_dve_base (serialize_dve_base e @ rest) =
     Inr ((el_patch_id e, el_local_change e), length (serialize_dve_base e))"
  by (simp add: deserialize_dve_base_def serialize_dve_base_def sleb32.dec_enc)

interpretation dve_bytes: codec serialize_dve deserialize_dve "\<lambda>e. int32_range (el_patch_id e) \<and> pp_int64 (el_positions e)"
proof
  fix e :: dv_element and rest assume r: "int32_range (el_patch_id e) \<and> pp_int64 (el_positions e)"
  show "deserialize_dve (serialize_dve e @ rest) = Inr (e, length (serialize_dve e))"
    using r deserialize_dve_base_serialized [of e "serialize_pp (el_positions e) @ rest"]
    by (simp add: deserialize_dve_def serialize_dve_def deserialize_serialize_pp dve_new_def)
  show "serialize_dve e \<noteq> []" by (simp add: serialize_dve_def serialize_dve_base_def)
qed

interpretation dve_base_bytes: codec serialize_dve_base decode_dve_base
  "\<lambda>e. int32_range (el_patch_id e) \<and> el_positions e = pp_new"
proof
  fix e :: dv_element and rest assume r: "int32_range (el_patch_id e) \<and> el_positions e = pp_new"
  then show "decode_dve_base (serialize_dve_base e @ rest) = Inr (e, length (serialize_dve_base e))"
    using deserialize_dve_base_serialized [of e rest]
    by (simp add: decode_dve_base_def dve_new_def)
  show "serialize_dve_base e \<noteq> []" by (simp add: serialize_dve_base_def)
qed


section \<open>The reduced value\<close>

text \<open>After adding the versions \<open>vs ! 0, ..., vs ! (i - 1)\<close>: everything from the first one on is deleted.\<close>

definition reduced_upto :: "int list \<Rightarrow> nat \<Rightarrow> deletion_value \<Rightarrow> bool" where
  "reduced_upto vs i r \<longleftrightarrow>
     il_settled (if i = 0 then 0 else vs ! (i - 1) + 1) (dv_patches (dv_elements r)) \<and>
     (\<forall>x. il_mem (dv_patches (dv_elements r)) x \<longleftrightarrow> 0 < i \<and> vs ! 0 \<le> x \<and> x < INT_MAX) \<and>
     dv_local_changes (dv_elements r) = il_new INT_MAX"

lemma reduce_step:
  assumes "reduced_upto vs i r" "i < length vs" "sorted_wrt (<) vs" "\<forall>x\<in>set vs. 0 \<le> x \<and> x < INT_MAX"
  shows "\<exists>ch r'. dv_add False (dve_new (vs ! i) False pp_new) r = Inr (ch, r') \<and> reduced_upto vs (Suc i) r' \<and>
    dv_max_patch_id r' = dv_max_patch_id r"
proof -
  have v: "0 \<le> vs ! i" "vs ! i < INT_MAX" using assms(2,4) nth_mem by blast+
  have le: "(if i = 0 then 0 else vs ! (i - 1) + 1) \<le> vs ! i"
    using assms(2,3) v(1) sorted_wrt_nth_less [OF assms(3), of "i - 1" i] by auto
  have first: "vs ! 0 \<le> vs ! i"
    using assms(2,3) sorted_wrt_nth_less [OF assms(3), of 0 i] by (cases "i = 0") auto
  from il_add_step [OF _ le v(2)] assms(1) obtain ch l' where
    l': "il_addition (vs ! i) (dv_patches (dv_elements r)) = Inr (ch, l')" "il_settled (vs ! i + 1) l'"
      "\<forall>x. il_mem l' x \<longleftrightarrow> (if vs ! i \<le> x then x < INT_MAX else il_mem (dv_patches (dv_elements r)) x)"
    unfolding reduced_upto_def by blast
  define r' where "r' = r\<lparr> dv_elements := \<lparr> dv_patches = l',
    dv_local_changes = dv_local_changes (dv_elements r), dv_positions = dv_positions (dv_elements r) \<rparr> \<rparr>"
  have "dv_add False (dve_new (vs ! i) False pp_new) r = Inr (ch, r')"
    using l'(1) by (simp add: dv_add_def dvi_addition_def dve_new_def r'_def)
  moreover have "il_mem l' x \<longleftrightarrow> vs ! 0 \<le> x \<and> x < INT_MAX" for x
    using l'(3) assms(1) first v(2) unfolding reduced_upto_def by (cases "i = 0") auto
  then have "reduced_upto vs (Suc i) r'"
    using l'(2) assms(1) by (simp add: reduced_upto_def r'_def)
  ultimately show ?thesis by (auto simp: r'_def)
qed

lemma dv_reduce_loop_result:
  assumes "\<And>j. j < length vs \<Longrightarrow> dv_get_patch_at hp (int j) v = Inr (E j) \<and> el_patch_id (E j) = vs ! j \<and> \<not> el_local_change (E j)"
    "sorted_wrt (<) vs" "\<forall>x\<in>set vs. 0 \<le> x \<and> x < INT_MAX"
    "i + n = length vs" "reduced_upto vs i r"
  shows "\<exists>r'. dv_reduce_loop hp v (int i) n r = Inr r' \<and> reduced_upto vs (length vs) r' \<and>
    dv_max_patch_id r' = dv_max_patch_id r"
  using assms(4,5)
proof (induction n arbitrary: i r)
  case (Suc n)
  have i: "i < length vs" using Suc.prems by simp
  from reduce_step [OF Suc.prems(2) i assms(2,3)] obtain ch r1 where
    r1: "dv_add False (dve_new (vs ! i) False pp_new) r = Inr (ch, r1)" "reduced_upto vs (Suc i) r1"
      "dv_max_patch_id r1 = dv_max_patch_id r" by blast
  show ?case
    using Suc.IH [of "Suc i" r1] Suc.prems(1) r1 assms(1) [OF i] by (simp add: add.commute)
qed simp

section \<open>Properties\<close>

text \<open>C13: The compressed deletion value is the step function of its history. After any ascending
  sequence of elements added and versions removed, with all ids up to \<open>max_patch_id\<close>, a version has an
  index exactly when the last event at or before it added an element; \<open>get\<close> then returns an element
  with that version, the positions of the last element added and the local-change flag of the last
  event that concerned local changes (undefined behaviour below the first local change, if any).\<close>

theorem deletion_value_history:
  assumes "dv_ascending evs" "\<forall>e\<in>set evs. dv_event_id e \<le> m" "- 1 \<le> m" "m < INT_MAX"
  shows "\<exists>v. dv_run True evs (dv_new m) = Inr v \<and> (\<forall>x \<le> m.
    (0 \<le> dv_get_patchvalue_index x v \<longleftrightarrow> deleted_at evs x) \<and>
    (deleted_at evs x \<longrightarrow> (\<exists>p. positions_at evs x = Some p \<and>
       dv_get True x v = (case first_added (concat (map local_events evs)) of
           None \<Rightarrow> Inr (dve_new x False p)
         | Some a \<Rightarrow> if a \<le> x then Inr (dve_new x (local_at evs x) p) else Inl Undefined_behaviour))))"
proof -
  obtain v where v: "dv_run True evs (dv_new m) = Inr v" "dv_max_patch_id v = m + 1"
    "il_settled (m + 1) (dv_patches (dv_elements v))" "il_settled (m + 1) (dv_local_changes (dv_elements v))"
    "\<forall>x < INT_MAX. il_mem (dv_patches (dv_elements v)) x = deleted_at evs x"
    "\<forall>x < INT_MAX. il_mem (dv_local_changes (dv_elements v)) x = local_at evs x"
    "il_start (dv_local_changes (dv_elements v)) = first_added (concat (map local_events evs))"
    "\<forall>q lim p. positions_at evs q = Some p \<longrightarrow> v2_get_positions q lim (dv_positions (dv_elements v)) = Inr (Some p)"
    using dv_run_lookup [OF assms] .
  have mm: "m + 1 \<le> INT_MAX" using assms(4) by simp
  note absent = il_index_absent [OF v(3) order_refl mm]
    and present = il_index_element [OF v(3) order_refl mm]
  have ix: "0 \<le> dv_get_patchvalue_index x v \<longleftrightarrow> deleted_at evs x" if "x \<le> m" for x
    using absent [of x] present(1) [of x] v(2,5) that assms(4)
    by (cases "deleted_at evs x") (simp_all add: dv_get_patchvalue_index_def dvi_get_index_def)
  have get: "\<exists>p. positions_at evs x = Some p \<and>
       dv_get True x v = (case first_added (concat (map local_events evs)) of
           None \<Rightarrow> Inr (dve_new x False p)
         | Some a \<Rightarrow> if a \<le> x then Inr (dve_new x (local_at evs x) p) else Inl Undefined_behaviour)"
    if x: "x \<le> m" "deleted_at evs x" for x
  proof -
    obtain p where p: "positions_at evs x = Some p" using positions_at_deleted [OF x(2)] by blast
    have "il_mem (dv_patches (dv_elements v)) x" "x < m + 1" using v(5) x assms(4) by auto
    note pr = present [OF this]
    have "dv_get True x v = dvi_get_element_at True (il_get_index x (m + 1) (dv_patches (dv_elements v))) (m + 1) (dv_elements v)"
      using pr(1,2) v(2)
      by (simp add: dv_get_def Let_def dv_get_patchvalue_index_def dvi_get_index_def dvi_size_def dv_get_patch_at_def)
    also have "\<dots> = bind_outcome (il_is_in x (dv_local_changes (dv_elements v))) (\<lambda>lc. Inr (dve_new x lc p))"
      using pr(3) v(8) p by (simp add: dvi_get_element_at_def Let_def dve_make_def)
    finally show ?thesis
      using p il_is_in_settled [OF v(4), of x] v(6,7) x(1) assms(4) by (auto split: option.split)
  qed
  show ?thesis using v(1) ix get by blast
qed

theorem deletion_value_history_witness:
  "\<exists>v. dv_run True [Del_added (dve_new 1 False pp_new), Del_removed 3] (dv_new 5) = Inr v \<and>
     dv_get True 2 v = Inr (dve_new 2 False pp_new) \<and> \<not> 0 \<le> dv_get_patchvalue_index 4 v"
proof -
  define evs where "evs = [Del_added (dve_new 1 False pp_new), Del_removed 3]"
  have "dv_ascending evs" "\<forall>e\<in>set evs. dv_event_id e \<le> 5" "- 1 \<le> (5 :: int)" "5 < INT_MAX"
    by (simp_all add: evs_def dv_ascending_def dve_new_def INT_MAX_def)
  from deletion_value_history [OF this] obtain v where
    v: "dv_run True evs (dv_new 5) = Inr v"
      "0 \<le> dv_get_patchvalue_index 4 v \<longleftrightarrow> deleted_at evs 4"
      "deleted_at evs 2 \<longrightarrow> (\<exists>p. positions_at evs 2 = Some p \<and>
         dv_get True 2 v = (case first_added (concat (map local_events evs)) of
           None \<Rightarrow> Inr (dve_new 2 False p)
         | Some a \<Rightarrow> if a \<le> 2 then Inr (dve_new 2 (local_at evs 2) p) else Inl Undefined_behaviour))"
    by auto
  have "\<not> deleted_at evs 4" "deleted_at evs 2" "positions_at evs 2 = Some pp_new"
    "first_added (concat (map local_events evs)) = None"
    by (simp_all add: evs_def status_at_def positions_at_def dve_new_def)
  with v show ?thesis by (auto simp: evs_def)
qed

text \<open>C14: The byte format of the compressed deletion value (as stored in the tree): reading into a fresh
  value restores both interval lists and the positions, for any well-formed value.\<close>

theorem deletion_value_roundtrip:
  assumes "il_ok 0 (dv_patches (dv_elements v))" "il_ok 0 (dv_local_changes (dv_elements v))"
    "runs_int32 (il_intervals (dv_patches (dv_elements v)))" "runs_int32 (il_intervals (dv_local_changes (dv_elements v)))"
    "length (il_serialize (dv_patches (dv_elements v))) < 2 ^ 64"
    "length (il_serialize (dv_local_changes (dv_elements v))) < 2 ^ 64"
    "\<forall>x\<in>set (dv_positions (dv_elements v)). position_range (snd x) \<and> int32_range (fst x)"
    "il_max (dv_patches (dv_elements v)) = INT_MAX" "il_max (dv_local_changes (dv_elements v)) = INT_MAX"
  shows "dv_deserialize (dv_serialize v) (dv_new m) = Inr (v\<lparr> dv_max_patch_id := m + 1 \<rparr>)"
proof -
  have "dvi_deserialize (dvi_serialize (dv_elements v)) dvi_new = Inr (dv_elements v)"
    by (rule dvi_deserialize_serialize [OF assms(1-7)]) (simp_all add: dvi_new_def il_new_def assms(8,9))
  then show ?thesis by (simp add: dv_deserialize_def dv_serialize_def dv_new_def)
qed

theorem deletion_value_roundtrip_witness:
  "dv_deserialize (dv_serialize \<lparr> dv_elements = \<lparr> dv_patches = \<lparr> il_max = INT_MAX, il_intervals = [(1, 3)] \<rparr>,
      dv_local_changes = il_new INT_MAX, dv_positions = [(1, pp_new)] \<rparr>, dv_max_patch_id = 4 \<rparr>) (dv_new 3)
   = Inr \<lparr> dv_elements = \<lparr> dv_patches = \<lparr> il_max = INT_MAX, il_intervals = [(1, 3)] \<rparr>,
      dv_local_changes = il_new INT_MAX, dv_positions = [(1, pp_new)] \<rparr>, dv_max_patch_id = 4 \<rparr>"
proof -
  define v where "v = \<lparr> dv_elements = \<lparr> dv_patches = \<lparr> il_max = INT_MAX, il_intervals = [(1 :: int, 3 :: int)] \<rparr>,
      dv_local_changes = il_new INT_MAX, dv_positions = [(1 :: int, pp_new)] \<rparr>, dv_max_patch_id = 4 \<rparr>"
  have r: "runs_int32 (il_intervals (dv_patches (dv_elements v)))"
    by (simp add: v_def runs_int32_def INT_MAX_def INT_MIN_def)
  then have "length (il_serialize (dv_patches (dv_elements v))) \<le> 10"
    using il_serialize_length [OF r] by (simp add: v_def il_alloc_size_def get_SLEB128_size_INT_MAX)
  then have "dv_deserialize (dv_serialize v) (dv_new 3) = Inr (v\<lparr> dv_max_patch_id := 3 + 1 \<rparr>)"
    by (intro deletion_value_roundtrip r)
      (simp_all add: v_def il_new_def runs_int32_def il_serialize_def position_range_def pp_list_def pp_new_def
        INT_MAX_def INT_MIN_def)
  then show ?thesis by (simp add: v_def)
qed

text \<open>C15: \<open>to_reduced\<close>, whose result is what the POS and OSP deletion trees store, forgets where a
  deletion ends: it re-adds each deleted version, and adding opens the interval again. For any history
  without local changes the reduced value reports every version from the first deletion on as deleted,
  also the versions in which the triple is back.\<close>

theorem reduced_value_reopens:
  assumes "dv_ascending evs" "\<forall>e\<in>set evs. dv_event_id e \<le> m" "- 1 \<le> m" "m + 2 \<le> INT_MAX"
    "\<forall>e\<in>set evs. \<forall>x. e = Del_added x \<longrightarrow> \<not> el_local_change x"
  shows "\<exists>v r. dv_run True evs (dv_new m) = Inr v \<and> dv_to_reduced True v = Inr r \<and>
    (\<forall>x \<le> m. 0 \<le> dv_get_patchvalue_index x r \<longleftrightarrow> (\<exists>a \<le> x. 0 \<le> dv_get_patchvalue_index a v))"
proof -
  have mi: "m < INT_MAX" "m + 1 \<le> INT_MAX" using assms(4) by auto
  obtain v where v: "dv_run True evs (dv_new m) = Inr v" "dv_max_patch_id v = m + 1"
    "il_settled (m + 1) (dv_patches (dv_elements v))" "il_settled (m + 1) (dv_local_changes (dv_elements v))"
    "\<forall>x < INT_MAX. il_mem (dv_patches (dv_elements v)) x = deleted_at evs x"
    "\<forall>x < INT_MAX. il_mem (dv_local_changes (dv_elements v)) x = local_at evs x"
    "il_start (dv_local_changes (dv_elements v)) = first_added (concat (map local_events evs))"
    "\<forall>q lim p. positions_at evs q = Some p \<longrightarrow> v2_get_positions q lim (dv_positions (dv_elements v)) = Inr (Some p)"
    using dv_run_lookup [OF assms(1-3) mi(1)] .
  define vs where "vs = il_values (m + 1) (dv_patches (dv_elements v))"
  note f = il_settled_values [OF v(3) order_refl mi(2), folded vs_def]
  have "first_added (concat (map local_events evs)) = None"
    using assms(5)
  proof (induction evs)
    case (Cons e evs)
    then show ?case by (cases e) auto
  qed simp
  then have lc: "il_is_in x (dv_local_changes (dv_elements v)) = Inr False" for x
    using il_is_in_settled [OF v(4), of x] v(7) by simp
  have vs0: "0 \<le> x \<and> x < INT_MAX" if "x \<in> set vs" for x
  proof -
    have x: "x < m + 1" "il_mem (dv_patches (dv_elements v)) x" using f(1) that by auto
    then have "deleted_at evs x" using v(5) mi by auto
    from status_at_added [OF this] obtain e where "e \<in> set evs" "dv_event_id e \<le> x" by auto
    then show ?thesis using assms(1) x(1) mi by (force simp: dv_ascending_def)
  qed
  have E: "\<exists>e. dv_get_patch_at True (int j) v = Inr e \<and> el_patch_id e = vs ! j \<and> \<not> el_local_change e"
    if j: "j < length vs" for j
  proof -
    have id: "il_get_element_at (int j) (m + 1) (dv_patches (dv_elements v)) = vs ! j"
      using f(4) [of "int j"] j by simp
    have "vs ! j < m + 1" "il_mem (dv_patches (dv_elements v)) (vs ! j)"
      using f(1) nth_mem [OF j] by auto
    then have "deleted_at evs (vs ! j)" using v(5) mi by auto
    then obtain p where "positions_at evs (vs ! j) = Some p" using positions_at_deleted by blast
    then show ?thesis
      using id v(2,8) lc by (simp add: dv_get_patch_at_def dvi_get_element_at_def Let_def dve_make_def dve_new_def)
  qed
  then obtain E where E: "\<And>j. j < length vs \<Longrightarrow>
      dv_get_patch_at True (int j) v = Inr (E j) \<and> el_patch_id (E j) = vs ! j \<and> \<not> el_local_change (E j)"
    by metis
  have sz: "dv_get_size v = int (length vs)" using f(3) v(2) by (simp add: dv_get_size_def dvi_size_def)
  have "reduced_upto vs 0 (dv_new (m + 1))"
    using il_settled_new by (simp add: reduced_upto_def dv_new_def dvi_new_def) (simp add: il_new_def)
  from dv_reduce_loop_result [OF E f(2) _ _ this, of "length vs"] vs0 obtain r where
    r: "dv_to_reduced True v = Inr r" "reduced_upto vs (length vs) r" "dv_max_patch_id r = m + 2"
    using v(2) sz by (auto simp: dv_to_reduced_def dv_new_def)
  have ends: "(if length vs = 0 then 0 else vs ! (length vs - 1) + 1) \<le> m + 2"
    using f(1) nth_mem [of "length vs - 1" vs] assms(3) by (cases "vs = []") auto
  note st = r(2) [unfolded reduced_upto_def, THEN conjunct1]
  have rmem: "il_mem (dv_patches (dv_elements r)) x \<longleftrightarrow> vs \<noteq> [] \<and> vs ! 0 \<le> x \<and> x < INT_MAX" for x
    using r(2) by (auto simp: reduced_upto_def)
  have ri: "0 \<le> dv_get_patchvalue_index x r \<longleftrightarrow> vs \<noteq> [] \<and> vs ! 0 \<le> x" if "x \<le> m" for x
    using il_index_element(1) [OF st ends assms(4), of x] il_index_absent [OF st ends assms(4), of x] rmem that mi(1) r(3)
    by (fastforce simp: dv_get_patchvalue_index_def dvi_get_index_def)
  have vi: "0 \<le> dv_get_patchvalue_index a v \<longleftrightarrow> a \<in> set vs" if "a \<le> m" for a
    using il_index_element(1) [OF v(3) order_refl mi(2), of a] il_index_absent [OF v(3) order_refl mi(2), of a]
      f(1) that v(2) by (auto simp: dv_get_patchvalue_index_def dvi_get_index_def)
  have first: "a \<in> set vs \<Longrightarrow> vs ! 0 \<le> a" for a
    using f(2) by (metis in_set_conv_nth le_less less_nat_zero_code not_gr_zero sorted_wrt_nth_less)
  have "0 \<le> dv_get_patchvalue_index x r \<longleftrightarrow> (\<exists>a \<le> x. 0 \<le> dv_get_patchvalue_index a v)" if x: "x \<le> m" for x
  proof
    assume "0 \<le> dv_get_patchvalue_index x r"
    then have "vs \<noteq> []" "vs ! 0 \<le> x" using ri x by auto
    then show "\<exists>a \<le> x. 0 \<le> dv_get_patchvalue_index a v" using vi [of "vs ! 0"] x by auto
  next
    assume "\<exists>a \<le> x. 0 \<le> dv_get_patchvalue_index a v"
    then obtain a where "a \<le> x" "a \<in> set vs" using vi x by auto
    then show "0 \<le> dv_get_patchvalue_index x r" using ri x first [of a] by auto
  qed
  with v(1) r(1) show ?thesis by blast
qed

theorem reduced_value_reopens_witness:
  "\<exists>v r. dv_run True [Del_added (dve_new 1 False pp_new), Del_removed 3] (dv_new 5) = Inr v \<and>
     dv_to_reduced True v = Inr r \<and> \<not> 0 \<le> dv_get_patchvalue_index 4 v \<and> 0 \<le> dv_get_patchvalue_index 4 r"
proof -
  define evs where "evs = [Del_added (dve_new 1 False pp_new), Del_removed 3]"
  have "dv_ascending evs" "\<forall>e\<in>set evs. dv_event_id e \<le> 5" "- 1 \<le> (5 :: int)" "5 + 2 \<le> INT_MAX"
    "\<forall>e\<in>set evs. \<forall>x. e = Del_added x \<longrightarrow> \<not> el_local_change x"
    by (simp_all add: evs_def dv_ascending_def dve_new_def INT_MAX_def)
  from reduced_value_reopens [OF this] obtain v r where
    v: "dv_run True evs (dv_new 5) = Inr v" "dv_to_reduced True v = Inr r"
      "\<forall>x \<le> 5. 0 \<le> dv_get_patchvalue_index x r \<longleftrightarrow> (\<exists>a \<le> x. 0 \<le> dv_get_patchvalue_index a v)"
    by blast
  have "case dv_run True evs (dv_new 5) of Inl e \<Rightarrow> False
      | Inr v \<Rightarrow> 0 \<le> dv_get_patchvalue_index 1 v \<and> \<not> 0 \<le> dv_get_patchvalue_index 4 v"
    unfolding evs_def by code_simp
  then have "0 \<le> dv_get_patchvalue_index 1 v" "\<not> 0 \<le> dv_get_patchvalue_index 4 v" using v(1) by simp_all
  moreover have "0 \<le> dv_get_patchvalue_index 4 r" using v(3) [rule_format, of 4] calculation(1) by force
  ultimately show ?thesis using v(1,2) unfolding evs_def by blast
qed

text \<open>The plain deletion value is a map from versions to elements: \<open>add\<close> keeps the vector sorted by
  version and overwrites the element of the same version, and \<open>get\<close> returns the element stored for a
  version (for an absent one the last element, if there is one).\<close>

theorem plain_deletion_value_map:
  assumes "sorted_wrt (<) (map el_patch_id es)"
  shows "sorted_wrt (<) (map el_patch_id (dvv_add x es)) \<and>
    set (dvv_add x es) = insert x {e \<in> set es. el_patch_id e \<noteq> el_patch_id x} \<and>
    (\<forall>e\<in>set es. dvv_get (el_patch_id e) es = Inr e) \<and>
    (\<forall>i. i \<notin> el_patch_id ` set es \<and> es \<noteq> [] \<longrightarrow> dvv_get i es = Inr (last es))"
proof -
  have "dvv_get (el_patch_id e) es = Inr e" if e: "e \<in> set es" for e
    using dvv_index_result(1) [OF assms e] by (auto simp: dvv_get_def Let_def dvv_get_patch_at_def)
  moreover have "dvv_get i es = Inr (last es)" if "i \<notin> el_patch_id ` set es" "es \<noteq> []" for i
  proof -
    have "nat (int (length es) - 1) = length es - 1" "0 \<le> int (length es) - 1"
      using that(2) by (cases es; simp)+
    then show ?thesis
      using dvv_index_result(2) [OF assms that(1)] that(2)
      by (simp add: dvv_get_def Let_def dvv_get_patch_at_def last_conv_nth)
  qed
  ultimately show ?thesis using dvv_add_result [OF assms, of x] by simp
qed

theorem plain_deletion_value_map_witness:
  "dvv_get 2 [dve_new 2 True pp_new, dve_new 5 False pp_new] = Inr (dve_new 2 True pp_new)"
  using plain_deletion_value_map [of "[dve_new 2 True pp_new, dve_new 5 False pp_new]"]
  by (simp add: dve_new_def)

text \<open>The byte format of the plain deletion value, with and without positions.\<close>

theorem plain_deletion_value_roundtrip:
  assumes "\<forall>e\<in>set es. int32_range (el_patch_id e) \<and>
    (if has_pos then pp_int64 (el_positions e) else el_positions e = pp_new)"
  shows "dvv_deserialize has_pos (dvv_serialize has_pos es) = Inr es"
proof (cases has_pos)
  case True
  then show ?thesis
    using assms dve_bytes.decode_all_concat [of es] by (simp add: dvv_deserialize_def dvv_serialize_def)
next
  case False
  then show ?thesis
    using assms dve_base_bytes.decode_all_concat [of es] by (simp add: dvv_deserialize_def dvv_serialize_def)
qed

theorem plain_deletion_value_roundtrip_witness:
  "dvv_deserialize True (dvv_serialize True [dve_new 2 True pp_new, dve_new 500 False pp_new]) =
     Inr [dve_new 2 True pp_new, dve_new 500 False pp_new]"
  using plain_deletion_value_roundtrip [of "[dve_new 2 True pp_new, dve_new 500 False pp_new]" True]
  by (simp add: dve_new_def pp_list_def pp_new_def INT_MAX_def INT_MIN_def)


end
