(* ===== verification/Patch_Tree_Value.thy ===== *)
theory Patch_Tree_Value
  imports Deletion_Value
begin

text \<open>
  \<open>PatchTreeValueBase\<close> of \<open>patch/patch_tree_value.{h,cc}\<close>: the addition and deletion value found for
  one triple, with a flag for each that says whether the triple is in that tree. The flag \<open>hp\<close> is
  \<open>T::has_positions()\<close> of the deletion value.
\<close>

record tree_value =
  tv_addition :: addition_value
  tv_deletion :: deletion_value
  tv_has_addition :: bool
  tv_has_deletion :: bool

definition tv_new :: "int \<Rightarrow> tree_value" where
  "tv_new max_patch_id =
     \<lparr> tv_addition = av_new max_patch_id, tv_deletion = dv_new max_patch_id,
       tv_has_addition = False, tv_has_deletion = False \<rparr>"

definition tv_set_addition :: "bool \<Rightarrow> tree_value \<Rightarrow> tree_value" where
  "tv_set_addition b v = v\<lparr> tv_has_addition := b \<rparr>"

definition tv_set_deletion :: "bool \<Rightarrow> tree_value \<Rightarrow> tree_value" where
  "tv_set_deletion b v = v\<lparr> tv_has_deletion := b \<rparr>"

definition tv_is_exact :: "int \<Rightarrow> tree_value \<Rightarrow> bool outcome" where
  "tv_is_exact patch_id v =
     (if tv_has_addition v then av_is_patch_id patch_id (tv_addition v)
      else Inr (dv_get_patchvalue_index patch_id (tv_deletion v) \<ge> 0))"

text \<open>The loops run from the last index down; \<open>n\<close> is one more than the index to look at.\<close>

fun av_last_before :: "addition_value \<Rightarrow> int \<Rightarrow> nat \<Rightarrow> int" where
  "av_last_before a patch_id 0 = - 1"
| "av_last_before a patch_id (Suc i) =
     (let patch_id_at = av_get_patch_id_at (int i) a in
      if patch_id_at \<le> patch_id then patch_id_at else av_last_before a patch_id i)"

fun dv_last_before :: "bool \<Rightarrow> deletion_value \<Rightarrow> int \<Rightarrow> nat \<Rightarrow> int outcome" where
  "dv_last_before hp d patch_id 0 = Inr (- 1)"
| "dv_last_before hp d patch_id (Suc i) =
     bind_outcome (dv_get_patch_at hp (int i) d) (\<lambda>e.
       if el_patch_id e \<le> patch_id then Inr (el_patch_id e) else dv_last_before hp d patch_id i)"

definition tv_get_addition_patch_id :: "int \<Rightarrow> bool \<Rightarrow> tree_value \<Rightarrow> int" where
  "tv_get_addition_patch_id patch_id exact v =
     (if tv_has_addition v then
        if exact then av_get_patchvalue_index patch_id (tv_addition v)
        else av_last_before (tv_addition v) patch_id (nat (av_get_size (tv_addition v)))
      else - 1)"

definition tv_get_deletion_patch_id :: "bool \<Rightarrow> int \<Rightarrow> bool \<Rightarrow> tree_value \<Rightarrow> int outcome" where
  "tv_get_deletion_patch_id hp patch_id exact v =
     (if tv_has_deletion v then
        if exact then Inr (dv_get_patchvalue_index patch_id (tv_deletion v))
        else dv_last_before hp (tv_deletion v) patch_id (nat (dv_get_size (tv_deletion v)))
      else Inr (- 1))"

definition tv_is_addition :: "int \<Rightarrow> bool \<Rightarrow> tree_value \<Rightarrow> bool" where
  "tv_is_addition patch_id exact v \<longleftrightarrow> tv_get_addition_patch_id patch_id exact v \<ge> 0"

definition tv_is_deletion :: "bool \<Rightarrow> int \<Rightarrow> bool \<Rightarrow> tree_value \<Rightarrow> bool outcome" where
  "tv_is_deletion hp patch_id exact v =
     bind_outcome (tv_get_deletion_patch_id hp patch_id exact v) (\<lambda>i. Inr (i \<ge> 0))"

definition tv_exists_in_snapshot :: "bool \<Rightarrow> tree_value \<Rightarrow> bool outcome" where
  "tv_exists_in_snapshot hp v =
     (if tv_has_deletion v then
        if tv_has_addition v
        then bind_outcome (dv_get_patch_at hp 0 (tv_deletion v)) (\<lambda>e.
               Inr (el_patch_id e < av_get_patch_id_at 0 (tv_addition v)))
        else Inr True
      else Inr False)"

definition tv_is_present :: "bool \<Rightarrow> int \<Rightarrow> tree_value \<Rightarrow> bool outcome" where
  "tv_is_present hp patch_id v =
     (let addition = tv_get_addition_patch_id patch_id True v in
      bind_outcome (tv_get_deletion_patch_id hp patch_id True v) (\<lambda>deletion.
        if addition = - 1 \<and> deletion = - 1 then tv_exists_in_snapshot hp v
        else Inr (deletion < addition)))"

definition tv_is_local_change :: "bool \<Rightarrow> int \<Rightarrow> tree_value \<Rightarrow> bool outcome" where
  "tv_is_local_change hp patch_id v =
     (if tv_has_addition v then av_is_local_change patch_id (tv_addition v)
      else if tv_has_deletion v then dv_is_local_change hp patch_id (tv_deletion v) else Inr False)"

definition tv_is_delta_type_equal :: "bool \<Rightarrow> int \<Rightarrow> int \<Rightarrow> tree_value \<Rightarrow> bool outcome" where
  "tv_is_delta_type_equal hp patch_id_start patch_id_end v =
     bind_outcome (tv_is_present hp patch_id_start v) (\<lambda>a.
     bind_outcome (tv_is_present hp patch_id_end v) (\<lambda>b. Inr (a = b)))"

section \<open>The changes of one triple\<close>

text \<open>The changes of a triple in ascending versions: the version, whether the triple is added or deleted,
  and the positions of a deletion. Each change goes to both values, as \<open>PatchTree::append\<close> applies
  them; \<open>lc\<close> is the local-change flag of the deletions.\<close>

type_synonym change = "int \<times> bool \<times> patch_positions"

fun addition_event :: "change \<Rightarrow> event" where
  "addition_event (v, add, p) = (if add then Added v else Deleted v)"

fun deletion_event :: "bool \<Rightarrow> change \<Rightarrow> dv_event" where
  "deletion_event lc (v, add, p) = (if add then Del_removed v else Del_added (dve_new v lc p))"

definition changes_ascending :: "int \<Rightarrow> change list \<Rightarrow> bool" where
  "changes_ascending m cs \<longleftrightarrow> sorted_wrt (<) (map fst cs) \<and> (\<forall>c\<in>set cs. 0 \<le> fst c \<and> fst c \<le> m)"

text \<open>The presence of the triple in a version: the last change at or before it decides; before the first
  change it is the opposite of that change.\<close>

definition last_change :: "change list \<Rightarrow> int \<Rightarrow> bool option" where
  "last_change cs v = (let es = filter (\<lambda>c. fst c \<le> v) cs in if es = [] then None else Some (fst (snd (last es))))"

definition present_at :: "change list \<Rightarrow> int \<Rightarrow> bool" where
  "present_at cs v = (case last_change cs v of Some b \<Rightarrow> b | None \<Rightarrow> cs \<noteq> [] \<and> \<not> fst (snd (hd cs)))"

lemma event_ids [simp]:
  "event_id (addition_event c) = fst c" "dv_event_id (deletion_event lc c) = fst c"
  "is_added (addition_event c) = fst (snd c)" "is_added (version_event (deletion_event lc c)) = (\<not> fst (snd c))"
  by (cases c; simp add: dve_new_def)+

lemma last_change_snoc: "last_change (cs @ [c]) v = (if fst c \<le> v then Some (fst (snd c)) else last_change cs v)"
  by (simp add: last_change_def)

lemma change_status:
  "status_at (map addition_event cs) v \<longleftrightarrow> last_change cs v = Some True"
  "status_at (map version_event (map (deletion_event lc) cs)) v \<longleftrightarrow> last_change cs v = Some False"
  by (induction cs rule: rev_induct) (auto simp: status_at_snoc last_change_snoc, simp_all add: last_change_def)

lemma changes_ascending_events:
  assumes "changes_ascending m cs" "m < INT_MAX"
  shows "ascending 0 INT_MAX (map addition_event cs)" "dv_ascending (map (deletion_event lc) cs)"
    "\<forall>e\<in>set (map (deletion_event lc) cs). dv_event_id e \<le> m"
  using assms by (auto simp: changes_ascending_def ascending_def dv_ascending_def comp_def)

lemma last_change_None: "last_change cs v = None \<longleftrightarrow> (\<forall>c\<in>set cs. v < fst c)"
  by (auto simp: last_change_def filter_empty_conv Let_def not_le)

lemma av_apply_max: "av_apply e v = Inr w \<Longrightarrow> av_max_patch_id v \<le> av_max_patch_id w"
  by (cases "ilv.apply_event e (av_patches v)") (auto simp: av_apply_patches)

lemma av_run_max: "av_run evs v = Inr w \<Longrightarrow> av_max_patch_id v \<le> av_max_patch_id w"
proof (induction evs arbitrary: w rule: rev_induct)
  case Nil
  then show ?case by (simp add: av_run_def)
next
  case (snoc e evs)
  then obtain u where "av_run evs v = Inr u" "av_apply e u = Inr w"
    by (auto simp: av_run_def bind_outcome_eq_Inr)
  then show ?case using snoc.IH [of u] av_apply_max [of e u w] by simp
qed

lemma last_change_Some_ge:
  assumes "sorted_wrt (<) (map fst cs)" "last_change cs x = Some b"
  shows "cs \<noteq> []" "fst (hd cs) \<le> x" "b \<noteq> fst (snd (hd cs)) \<Longrightarrow> fst (hd cs) < x"
proof -
  show ne: "cs \<noteq> []" using assms(2) by (auto simp: last_change_def)
  then obtain c cs' where c: "cs = c # cs'" by (cases cs) auto
  show le: "fst (hd cs) \<le> x"
    using assms last_change_None [of cs x] by (force simp: c)
  show "fst (hd cs) < x" if "b \<noteq> fst (snd (hd cs))"
  proof (rule ccontr)
    assume "\<not> fst (hd cs) < x"
    then have "x = fst c" using le by (simp add: c)
    then have "filter (\<lambda>c. fst c \<le> x) cs = [c]"
      using assms(1) by (auto simp: c filter_empty_conv)
    then show False using assms(2) that by (simp add: last_change_def c)
  qed
qed

lemma last_change_hd:
  assumes "sorted_wrt (<) (map fst cs)" "cs \<noteq> []"
  shows "last_change cs (fst (hd cs)) = Some (fst (snd (hd cs)))"
proof -
  obtain c cs' where c: "cs = c # cs'" using assms(2) by (cases cs) auto
  have "filter (\<lambda>d. fst d \<le> fst c) cs = [c]" using assms(1) by (auto simp: c filter_empty_conv)
  then show ?thesis by (simp add: last_change_def c)
qed

lemma last_change_self:
  assumes "sorted_wrt (<) (map fst cs)" "c \<in> set cs"
  shows "last_change cs (fst c) = Some (fst (snd c))"
proof -
  from split_list [OF assms(2)] obtain us vs where cs: "cs = us @ c # vs" by blast
  have "\<forall>d\<in>set us. fst d \<le> fst c" "\<forall>d\<in>set vs. \<not> fst d \<le> fst c"
    using assms(1) by (force simp: cs sorted_wrt_append)+
  then have "filter (\<lambda>d. fst d \<le> fst c) us = us" "filter (\<lambda>d. fst d \<le> fst c) vs = []"
    by (simp_all add: filter_id_conv filter_empty_conv)
  then have "filter (\<lambda>d. fst d \<le> fst c) cs = us @ [c]" by (simp add: cs)
  then show ?thesis by (simp add: last_change_def)
qed

text \<open>The first version in which a value has the triple, and the version at position 0.\<close>

lemma il_first_element:
  assumes "il_settled k l" "k \<le> lim" "lim \<le> INT_MAX" "il_mem l x" "x < lim"
  shows "il_mem l (il_get_element_at 0 lim l)" "il_get_element_at 0 lim l < lim"
    "il_mem l y \<Longrightarrow> y < lim \<Longrightarrow> il_get_element_at 0 lim l \<le> y"
proof -
  define vs where "vs = il_values lim l"
  note f = il_settled_values [OF assms(1-3), folded vs_def]
  have "x \<in> set vs" unfolding f(1) using assms(4,5) by simp
  then have ne: "vs \<noteq> []" by auto
  have e: "il_get_element_at 0 lim l = vs ! 0" using f(4) [of 0] ne by simp
  have "vs ! 0 \<in> {x. il_mem l x \<and> x < lim}" using ne unfolding f(1) [symmetric] by simp
  then show "il_mem l (il_get_element_at 0 lim l)" "il_get_element_at 0 lim l < lim"
    unfolding e by simp_all
  show "il_mem l y \<Longrightarrow> y < lim \<Longrightarrow> il_get_element_at 0 lim l \<le> y"
  proof -
    assume "il_mem l y" "y < lim"
    then have "y \<in> set vs" unfolding f(1) by simp
    then obtain i where "i < length vs" "vs ! i = y" by (auto simp: in_set_conv_nth)
    then show ?thesis unfolding e using sorted_wrt_nth_less [OF f(2), of 0 i] by (cases "i = 0") auto
  qed
qed

text \<open>The local changes of the deletions of one triple: all of them or none.\<close>

lemma deletion_locals:
  "concat (map local_events (map (deletion_event lc) cs)) =
     (if lc then map (\<lambda>c. version_event (deletion_event lc c)) cs
      else map (\<lambda>c. Deleted (fst c)) (filter (\<lambda>c. fst (snd c)) cs))"
  by (induction cs) (auto simp: dve_new_def)

lemma deletion_value_first:
  assumes "changes_ascending m cs" "- 1 \<le> m" "m < INT_MAX" "\<exists>c\<in>set cs. \<not> fst (snd c)"
    "dv_run True (map (deletion_event lc) cs) (dv_new m) = Inr d"
  shows "\<exists>e. dv_get_patch_at True 0 d = Inr e \<and> last_change cs (el_patch_id e) = Some False \<and>
    (\<forall>y \<le> m. last_change cs y = Some False \<longrightarrow> el_patch_id e \<le> y)"
proof -
  note ev = changes_ascending_events(2,3) [OF assms(1,3), where lc = lc]
  obtain v where v: "dv_run True (map (deletion_event lc) cs) (dv_new m) = Inr v" "dv_max_patch_id v = m + 1"
    "il_settled (m + 1) (dv_patches (dv_elements v))" "il_settled (m + 1) (dv_local_changes (dv_elements v))"
    "\<forall>x < INT_MAX. il_mem (dv_patches (dv_elements v)) x = deleted_at (map (deletion_event lc) cs) x"
    "\<forall>x < INT_MAX. il_mem (dv_local_changes (dv_elements v)) x = local_at (map (deletion_event lc) cs) x"
    "il_start (dv_local_changes (dv_elements v)) = first_added (concat (map local_events (map (deletion_event lc) cs)))"
    "\<forall>q lim p. positions_at (map (deletion_event lc) cs) q = Some p \<longrightarrow>
      v2_get_positions q lim (dv_positions (dv_elements v)) = Inr (Some p)"
    by (rule dv_run_lookup [OF ev assms(2,3)])
  have vd: "v = d" using v(1) assms(5) by simp
  obtain c where c: "c \<in> set cs" "\<not> fst (snd c)" using assms(4) by blast
  have so: "sorted_wrt (<) (map fst cs)" using assms(1) by (simp add: changes_ascending_def)
  have lcm: "last_change cs (fst c) = Some False" using last_change_self [OF so c(1)] c(2) by simp
  have cm: "fst c \<le> m" using assms(1) c(1) by (simp add: changes_ascending_def)
  have mem: "il_mem (dv_patches (dv_elements v)) x \<longleftrightarrow> last_change cs x = Some False" if "x \<le> m" for x
    using v(5) that assms(3) change_status(2) [of lc cs x] by simp
  have mc: "il_mem (dv_patches (dv_elements v)) (fst c)" "fst c < m + 1" using mem cm lcm by auto
  have mm: "m + 1 \<le> INT_MAX" using assms(3) by simp
  define x0 where "x0 = il_get_element_at 0 (m + 1) (dv_patches (dv_elements v))"
  note f = il_first_element [OF v(3) order_refl mm mc, folded x0_def]
  have x0m: "x0 \<le> m" using f(2) by simp
  have lx0: "last_change cs x0 = Some False" using f(1) mem [OF x0m] by simp
  have "\<exists>b. il_is_in x0 (dv_local_changes (dv_elements v)) = Inr b"
  proof (cases "il_start (dv_local_changes (dv_elements v))")
    case None
    then show ?thesis using il_is_in_settled [OF v(4), of x0] by simp
  next
    case (Some a)
    have lc: lc
    proof (rule ccontr)
      assume "\<not> lc"
      then have "first_added (concat (map local_events (map (deletion_event lc) cs))) = None"
        unfolding deletion_locals by (induction cs) auto
      then show False using Some v(7) by simp
    qed
    have "local_at (map (deletion_event lc) cs) x = deleted_at (map (deletion_event lc) cs) x" for x
      unfolding deletion_locals using lc by (simp add: comp_def)
    then have "il_mem (dv_local_changes (dv_elements v)) x0"
      using v(6) mem [OF x0m] lx0 v(5) x0m assms(3) by simp
    then have "a \<le> x0" using il_start_Some [of 1 "dv_local_changes (dv_elements v)" a] Some v(4)
      unfolding il_settled_def by auto
    then show ?thesis using il_is_in_settled [OF v(4), of x0] Some by simp
  qed
  then obtain b where b: "il_is_in x0 (dv_local_changes (dv_elements v)) = Inr b" ..
  obtain p where p: "positions_at (map (deletion_event lc) cs) x0 = Some p"
    using positions_at_deleted lx0 change_status(2) [of lc cs x0] by fastforce
  have "dv_get_patch_at True 0 d = Inr (dve_new x0 b p)"
    using b p v(2,8) vd by (simp add: dv_get_patch_at_def dvi_get_element_at_def Let_def x0_def dve_make_def)
  then show ?thesis using lx0 f(3) mem by (auto simp: dve_new_def)
qed

lemma addition_value_first:
  assumes "changes_ascending m cs" "- 1 \<le> m" "m < INT_MAX" "\<exists>c\<in>set cs. fst (snd c)"
    "av_run (map addition_event cs) (av_new m) = Inr a"
  shows "last_change cs (av_get_patch_id_at 0 a) = Some True \<and>
    (\<forall>y \<le> m. last_change cs y = Some True \<longrightarrow> av_get_patch_id_at 0 a \<le> y)"
proof -
  obtain v k where v: "av_run (map addition_event cs) (av_new m) = Inr v" "il_settled k (av_patches v)"
    "k \<le> av_max_patch_id v" "av_max_patch_id v \<le> INT_MAX"
    "\<forall>x < INT_MAX. il_mem (av_patches v) x = status_at (map addition_event cs) x"
    by (rule av_run_history [OF changes_ascending_events(1) [OF assms(1,3)] assms(2,3)]) (rule that)
  have va: "v = a" using v(1) assms(5) by simp
  have mx: "m + 1 \<le> av_max_patch_id v" using av_run_max [OF v(1)] by (simp add: av_new_def)
  obtain c where c: "c \<in> set cs" "fst (snd c)" using assms(4) by blast
  have so: "sorted_wrt (<) (map fst cs)" using assms(1) by (simp add: changes_ascending_def)
  have cm: "fst c \<le> m" using assms(1) c(1) by (simp add: changes_ascending_def)
  have mem: "il_mem (av_patches v) x \<longleftrightarrow> last_change cs x = Some True" if "x < av_max_patch_id v" for x
    using v(4,5) that change_status(1) [of cs x] by simp
  have mc: "il_mem (av_patches v) (fst c)" "fst c < av_max_patch_id v"
    using mem [of "fst c"] cm mx last_change_self [OF so c(1)] c(2) by auto
  define x0 where "x0 = il_get_element_at 0 (av_max_patch_id v) (av_patches v)"
  note f = il_first_element [OF v(2-4) mc, folded x0_def]
  have "il_max (av_patches v) = INT_MAX" using v(2) unfolding il_settled_def by blast
  then have "av_get_patch_id_at 0 a = x0"
    using f(2) v(4) va by (simp add: av_get_patch_id_at_def Let_def x0_def)
  then show ?thesis using f mem mx by auto
qed

lemma last_change_member: "last_change cs v = Some b \<Longrightarrow> \<exists>c\<in>set cs. fst (snd c) = b"
proof -
  assume a: "last_change cs v = Some b"
  define es where "es = filter (\<lambda>c. fst c \<le> v) cs"
  from a have "es \<noteq> []" "fst (snd (last es)) = b"
    by (auto simp: last_change_def Let_def es_def simp del: filter_empty_conv split: if_splits)
  then show ?thesis using last_in_set [of es] by (auto simp: es_def)
qed

definition changed_value :: "addition_value \<Rightarrow> deletion_value \<Rightarrow> change list \<Rightarrow> tree_value" where
  "changed_value a d cs = \<lparr> tv_addition = a, tv_deletion = d,
     tv_has_addition = (\<exists>c\<in>set cs. fst (snd c)), tv_has_deletion = (\<exists>c\<in>set cs. \<not> fst (snd c)) \<rparr>"

lemma exists_in_snapshot_changes:
  assumes "changes_ascending m cs" "- 1 \<le> m" "m < INT_MAX"
    "av_run (map addition_event cs) (av_new m) = Inr a"
    "dv_run True (map (deletion_event lc) cs) (dv_new m) = Inr d"
  shows "tv_exists_in_snapshot True (changed_value a d cs) = Inr (cs \<noteq> [] \<and> \<not> fst (snd (hd cs)))"
proof -
  have so: "sorted_wrt (<) (map fst cs)" using assms(1) by (simp add: changes_ascending_def)
  consider "cs = []" | "cs \<noteq> []" "\<forall>c\<in>set cs. fst (snd c)" | "cs \<noteq> []" "\<forall>c\<in>set cs. \<not> fst (snd c)"
    | "\<exists>c\<in>set cs. fst (snd c)" "\<exists>c\<in>set cs. \<not> fst (snd c)" by blast
  then show ?thesis
  proof cases
    case 4
    from deletion_value_first [OF assms(1-3) 4(2) assms(5)] obtain e where
      e: "dv_get_patch_at True 0 d = Inr e" "last_change cs (el_patch_id e) = Some False"
        "\<forall>y \<le> m. last_change cs y = Some False \<longrightarrow> el_patch_id e \<le> y" by blast
    note a = addition_value_first [OF assms(1-3) 4(1) assms(4)]
    have ne: "cs \<noteq> []" using 4(1) by auto
    have hm: "fst (hd cs) \<le> m" using ne assms(1) by (simp add: changes_ascending_def)
    note h = last_change_hd [OF so ne]
    have "el_patch_id e < av_get_patch_id_at 0 a \<longleftrightarrow> \<not> fst (snd (hd cs))"
    proof (cases "fst (snd (hd cs))")
      case True
      then have "av_get_patch_id_at 0 a \<le> fst (hd cs)" using a h hm by auto
      moreover have "fst (hd cs) < el_patch_id e" using last_change_Some_ge(3) [OF so e(2)] True by simp
      ultimately show ?thesis using True by simp
    next
      case False
      then have "el_patch_id e \<le> fst (hd cs)" using e(3) h hm by auto
      moreover have "fst (hd cs) < av_get_patch_id_at 0 a"
        using last_change_Some_ge(3) [OF so conjunct1 [OF a]] False by simp
      ultimately show ?thesis using False by simp
    qed
    then show ?thesis using e(1) 4 ne by (simp add: tv_exists_in_snapshot_def changed_value_def)
  next
    case 3
    then have "hd cs \<in> set cs" by simp
    with 3 have "\<not> fst (snd (hd cs))" "\<exists>c\<in>set cs. \<not> fst (snd c)" "\<not> (\<exists>c\<in>set cs. fst (snd c))" by blast+
    with 3 show ?thesis by (simp add: tv_exists_in_snapshot_def changed_value_def)
  next
    case 2
    then have "hd cs \<in> set cs" by simp
    with 2 have "fst (snd (hd cs))" "\<not> (\<exists>c\<in>set cs. \<not> fst (snd c))" by blast+
    with 2 show ?thesis by (simp add: tv_exists_in_snapshot_def changed_value_def)
  qed (simp add: tv_exists_in_snapshot_def changed_value_def)
qed

section \<open>Properties\<close>

text \<open>C16: A tree value tells for every version whether the triple is present. For any ascending sequence of
  changes of a triple, applied to fresh addition and deletion values the way the tree applies them,
  \<open>is_present\<close> answers the last change at or before the version, and before the first change the
  opposite of that change (\<open>exists_in_snapshot\<close>), for deletions that are all local or all global.\<close>

theorem tree_value_presence:
  assumes "changes_ascending m cs" "- 1 \<le> m" "m < INT_MAX"
  shows "\<exists>a d. av_run (map addition_event cs) (av_new m) = Inr a \<and>
    dv_run True (map (deletion_event lc) cs) (dv_new m) = Inr d \<and>
    (\<forall>v. 0 \<le> v \<and> v \<le> m \<longrightarrow> tv_is_present True v (changed_value a d cs) = Inr (present_at cs v))"
proof -
  obtain a k where a: "av_run (map addition_event cs) (av_new m) = Inr a" "il_settled k (av_patches a)"
    "k \<le> av_max_patch_id a" "av_max_patch_id a \<le> INT_MAX"
    "\<forall>x < INT_MAX. il_mem (av_patches a) x = status_at (map addition_event cs) x"
    by (rule av_run_history [OF changes_ascending_events(1) [OF assms(1,3)] assms(2,3)]) (rule that)
  have mx: "m + 1 \<le> av_max_patch_id a" using av_run_max [OF a(1)] by (simp add: av_new_def)
  note ev = changes_ascending_events(2,3) [OF assms(1,3), where lc = lc]
  obtain d where d: "dv_run True (map (deletion_event lc) cs) (dv_new m) = Inr d" "dv_max_patch_id d = m + 1"
    "il_settled (m + 1) (dv_patches (dv_elements d))"
    "\<forall>x < INT_MAX. il_mem (dv_patches (dv_elements d)) x = deleted_at (map (deletion_event lc) cs) x"
    by (rule dv_run_lookup [OF ev assms(2,3)]) (rule that)
  have mm: "m + 1 \<le> INT_MAX" using assms(3) by simp
  have so: "sorted_wrt (<) (map fst cs)" using assms(1) by (simp add: changes_ascending_def)
  have "tv_is_present True v (changed_value a d cs) = Inr (present_at cs v)" if v: "0 \<le> v \<and> v \<le> m" for v
  proof -
    have A: "il_mem (av_patches a) v \<longleftrightarrow> last_change cs v = Some True"
      using a(5) v assms(3) change_status(1) [of cs v] by simp
    have D: "il_mem (dv_patches (dv_elements d)) v \<longleftrightarrow> last_change cs v = Some False"
      using d(4) v assms(3) change_status(2) [of lc cs v] by simp
    have ai: "0 \<le> av_get_patchvalue_index v a \<and> last_change cs v = Some True \<or>
        av_get_patchvalue_index v a = - 1 \<and> last_change cs v \<noteq> Some True"
      using il_index_element(1) [OF a(2-4), of v] il_index_absent [OF a(2-4), of v] A v mx
      by (auto simp: av_get_patchvalue_index_def)
    have di: "0 \<le> dv_get_patchvalue_index v d \<and> last_change cs v = Some False \<or>
        dv_get_patchvalue_index v d = - 1 \<and> last_change cs v \<noteq> Some False"
      using il_index_element(1) [OF d(3) order_refl mm, of v] il_index_absent [OF d(3) order_refl mm, of v] D v d(2)
      by (auto simp: dv_get_patchvalue_index_def dvi_get_index_def)
    note ex = last_change_member [of cs v]
    define w where "w = changed_value a d cs"
    note snap = exists_in_snapshot_changes [OF assms a(1) d(1), folded w_def]
    have add: "0 \<le> tv_get_addition_patch_id v True w \<and> last_change cs v = Some True \<or>
        tv_get_addition_patch_id v True w = - 1 \<and> last_change cs v \<noteq> Some True"
      using ai ex [of True] by (cases "tv_has_addition w")
        (auto simp: tv_get_addition_patch_id_def w_def changed_value_def)
    have "\<exists>i. tv_get_deletion_patch_id True v True w = Inr i \<and>
        (0 \<le> i \<and> last_change cs v = Some False \<or> i = - 1 \<and> last_change cs v \<noteq> Some False)"
      using di ex [of False] by (cases "tv_has_deletion w")
        (auto simp: tv_get_deletion_patch_id_def w_def changed_value_def)
    then obtain i where del: "tv_get_deletion_patch_id True v True w = Inr i"
      "0 \<le> i \<and> last_change cs v = Some False \<or> i = - 1 \<and> last_change cs v \<noteq> Some False" by blast
    have "tv_is_present True v w = Inr (present_at cs v)"
      using add del(2) snap
      by (cases "last_change cs v") (auto simp: tv_is_present_def del(1) present_at_def Let_def)
    then show ?thesis by (simp add: w_def)
  qed
  with a(1) d(1) show ?thesis by blast
qed

theorem tree_value_presence_witness:
  "\<exists>a d. av_run (map addition_event [(2, False, pp_new), (4, True, pp_new)]) (av_new 6) = Inr a \<and>
    dv_run True (map (deletion_event False) [(2, False, pp_new), (4, True, pp_new)]) (dv_new 6) = Inr d \<and>
    tv_is_present True 1 (changed_value a d [(2, False, pp_new), (4, True, pp_new)]) = Inr True \<and>
    tv_is_present True 3 (changed_value a d [(2, False, pp_new), (4, True, pp_new)]) = Inr False"
proof -
  have "changes_ascending 6 [(2, False, pp_new), (4, True, pp_new)]" "- 1 \<le> (6 :: int)" "6 < INT_MAX"
    by (simp_all add: changes_ascending_def INT_MAX_def)
  from tree_value_presence [OF this, of False]
  have "\<exists>a d. av_run (map addition_event [(2, False, pp_new), (4, True, pp_new)]) (av_new 6) = Inr a \<and>
    dv_run True (map (deletion_event False) [(2, False, pp_new), (4, True, pp_new)]) (dv_new 6) = Inr d \<and>
    tv_is_present True 1 (changed_value a d [(2, False, pp_new), (4, True, pp_new)]) =
      Inr (present_at [(2, False, pp_new), (4, True, pp_new)] 1) \<and>
    tv_is_present True 3 (changed_value a d [(2, False, pp_new), (4, True, pp_new)]) =
      Inr (present_at [(2, False, pp_new), (4, True, pp_new)] 3)" by force
  then show ?thesis by (simp add: present_at_def last_change_def)
qed

end
