(* ===== verification/Key_Comparators.thy ===== *)
theory Key_Comparators
  imports Dictionary_Manager Patch_Tree_Value
begin

text \<open>
  The comparators of \<open>patch/triple_comparator.{h,cc}\<close> and \<open>patch/patch_tree_key_comparator.{h,cc}\<close>:
  three component comparators tried in turn. A shared pointer to a dictionary manager is the address
  with the manager it points to, \<open>None\<close> for \<open>nullptr\<close>; two pointers are equal when the addresses are.
\<close>

section \<open>Component comparators\<close>

type_synonym dict_ptr = "(nat \<times> dictionary_manager) option"
type_synonym triplecomp = "triple \<Rightarrow> triple \<Rightarrow> dict_ptr \<Rightarrow> dict_ptr \<Rightarrow> int"
type_synonym keycomp = "triple \<Rightarrow> triple \<Rightarrow> dictionary_manager \<Rightarrow> int"

text \<open>\<open>std::numeric_limits<size_t>::max()\<close>, the id that sorts after all others.\<close>

definition max_id :: u64 where
  "max_id = - 1"

definition component_comparator :: "(triple \<Rightarrow> u64) \<Rightarrow> role \<Rightarrow> triplecomp" where
  "component_comparator get r t1 t2 dict1 dict2 =
     (case (dict1, dict2) of
        (Some (p1, d1), Some (p2, d2)) \<Rightarrow>
          if get t1 = max_id \<or> get t2 = 0 then 1
          else if get t2 = max_id \<or> get t1 = 0 then - 1
          else if p1 = p2 then dm_compare_component (get t1) (get t2) r d1
          else string_compare (dm_id_to_string (get t1) r d1) (dm_id_to_string (get t2) r d2)
      | _ \<Rightarrow> id_difference (get t1) (get t2))"

definition subject_comparator :: triplecomp where
  "subject_comparator = component_comparator subject SUBJECT"

definition predicate_comparator :: triplecomp where
  "predicate_comparator = component_comparator predicate PREDICATE"

definition object_comparator :: triplecomp where
  "object_comparator = component_comparator object OBJECT"

definition key_component :: "(triple \<Rightarrow> u64) \<Rightarrow> role \<Rightarrow> keycomp" where
  "key_component get r e1 e2 dict =
     (if get e1 = max_id \<or> get e2 = 0 then 1
      else if get e2 = max_id \<or> get e1 = 0 then - 1
      else dm_compare_component (get e1) (get e2) r dict)"

definition comp_s :: keycomp where "comp_s = key_component subject SUBJECT"
definition comp_p :: keycomp where "comp_p = key_component predicate PREDICATE"
definition comp_o :: keycomp where "comp_o = key_component object OBJECT"

section \<open>Triple comparators\<close>

datatype component_order = Unknown | SPO | SOP | PSO | POS | OSP | OPS

record triple_comparator =
  tc_comp1 :: triplecomp
  tc_comp2 :: triplecomp
  tc_comp3 :: triplecomp
  tc_dict1 :: dict_ptr
  tc_dict2 :: dict_ptr

text \<open>The first comparison that is not 0 decides.\<close>

definition compare_with :: "triple_comparator \<Rightarrow> triple \<Rightarrow> triple \<Rightarrow> dict_ptr \<Rightarrow> dict_ptr \<Rightarrow> int" where
  "compare_with c t1 t2 dict1 dict2 =
     (let comp = tc_comp1 c t1 t2 dict1 dict2 in
      if comp = 0
      then let comp = tc_comp2 c t1 t2 dict1 dict2 in
           if comp = 0 then tc_comp3 c t1 t2 dict1 dict2 else comp
      else comp)"

definition tc_compare :: "triple_comparator \<Rightarrow> triple \<Rightarrow> triple \<Rightarrow> int" where
  "tc_compare c t1 t2 = compare_with c t1 t2 (tc_dict1 c) (tc_dict2 c)"

definition tc_less :: "triple_comparator \<Rightarrow> triple \<Rightarrow> triple \<Rightarrow> bool" where
  "tc_less c t1 t2 \<longleftrightarrow> tc_compare c t1 t2 < 0"

definition compare_triple_delta ::
  "triple_comparator \<Rightarrow> (nat \<times> dictionary_manager) triple_delta \<Rightarrow> (nat \<times> dictionary_manager) triple_delta \<Rightarrow> int" where
  "compare_triple_delta c t1 t2 = compare_with c (td_triple t1) (td_triple t2) (td_dict t1) (td_dict t2)"

definition compare_triple_versions ::
  "triple_comparator \<Rightarrow> (nat \<times> dictionary_manager) triple_versions \<Rightarrow> (nat \<times> dictionary_manager) triple_versions \<Rightarrow> int" where
  "compare_triple_versions c t1 t2 = compare_with c (tvs_triple t1) (tvs_triple t2) (tvs_dict t1) (tvs_dict t2)"

definition less_triple_delta ::
  "triple_comparator \<Rightarrow> (nat \<times> dictionary_manager) triple_delta \<Rightarrow> (nat \<times> dictionary_manager) triple_delta \<Rightarrow> bool" where
  "less_triple_delta c t1 t2 \<longleftrightarrow>
     compare_with c (td_triple t1) (td_triple t2) (td_dict t1) (td_dict t2) < 0"

definition less_triple_versions ::
  "triple_comparator \<Rightarrow> (nat \<times> dictionary_manager) triple_versions \<Rightarrow> (nat \<times> dictionary_manager) triple_versions \<Rightarrow> bool" where
  "less_triple_versions c t1 t2 \<longleftrightarrow>
     compare_with c (tvs_triple t1) (tvs_triple t2) (tvs_dict t1) (tvs_dict t2) < 0"

definition tc_set_dictionary1 :: "dict_ptr \<Rightarrow> triple_comparator \<Rightarrow> triple_comparator" where
  "tc_set_dictionary1 dict c = c\<lparr> tc_dict1 := dict \<rparr>"

definition tc_set_dictionary2 :: "dict_ptr \<Rightarrow> triple_comparator \<Rightarrow> triple_comparator" where
  "tc_set_dictionary2 dict c = c\<lparr> tc_dict2 := dict \<rparr>"

definition tc_new :: "triplecomp \<Rightarrow> triplecomp \<Rightarrow> triplecomp \<Rightarrow> dict_ptr \<Rightarrow> dict_ptr \<Rightarrow> triple_comparator" where
  "tc_new c1 c2 c3 dict1 dict2 =
     \<lparr> tc_comp1 = c1, tc_comp2 = c2, tc_comp3 = c3, tc_dict1 = dict1, tc_dict2 = dict2 \<rparr>"

definition get_triple_comparator :: "component_order \<Rightarrow> dict_ptr \<Rightarrow> dict_ptr \<Rightarrow> triple_comparator" where
  "get_triple_comparator order =
     (case order of
        SPO \<Rightarrow> tc_new subject_comparator predicate_comparator object_comparator
      | SOP \<Rightarrow> tc_new subject_comparator object_comparator predicate_comparator
      | PSO \<Rightarrow> tc_new predicate_comparator subject_comparator object_comparator
      | POS \<Rightarrow> tc_new predicate_comparator object_comparator subject_comparator
      | OSP \<Rightarrow> tc_new object_comparator subject_comparator predicate_comparator
      | OPS \<Rightarrow> tc_new object_comparator predicate_comparator subject_comparator
      | Unknown \<Rightarrow> tc_new subject_comparator predicate_comparator object_comparator)"

section \<open>Key comparators\<close>

record key_comparator =
  kc_compare_1 :: keycomp
  kc_compare_2 :: keycomp
  kc_compare_3 :: keycomp
  kc_dict :: dictionary_manager

definition key_compare :: "key_comparator \<Rightarrow> triple \<Rightarrow> triple \<Rightarrow> int" where
  "key_compare c e1 e2 =
     (let comp_1 = kc_compare_1 c e1 e2 (kc_dict c) in
      if comp_1 = 0
      then let comp_2 = kc_compare_2 c e1 e2 (kc_dict c) in
           if comp_2 = 0 then kc_compare_3 c e1 e2 (kc_dict c) else comp_2
      else comp_1)"

text \<open>The comparison Kyoto Cabinet calls: of the serialized keys.\<close>

definition key_compare_bytes :: "key_comparator \<Rightarrow> byte list \<Rightarrow> byte list \<Rightarrow> int outcome" where
  "key_compare_bytes c akbuf bkbuf =
     bind_outcome (deserialize_triple akbuf) (\<lambda>e1.
     bind_outcome (deserialize_triple bkbuf) (\<lambda>e2.
       Inr (let comp_1 = kc_compare_1 c e1 e2 (kc_dict c) in
            if comp_1 = 0
            then let comp_2 = kc_compare_2 c e1 e2 (kc_dict c) in
                 if comp_2 = 0 then kc_compare_3 c e1 e2 (kc_dict c) else comp_2
            else comp_1)))"

lemma key_compare_serialized:
  "key_compare_bytes c (serialize_triple a) (serialize_triple b) = Inr (key_compare c a b)"
  using decode_serialize_triple [of a "[]"] decode_serialize_triple [of b "[]"]
  by (simp add: key_compare_bytes_def key_compare_def deserialize_triple_def)

section \<open>Orders from comparisons\<close>

text \<open>A comparison function that orders the values of a set: its sign is antisymmetric and transitive, and
  it is 0 for equal values only.\<close>

locale comparison =
  fixes cmp :: "'a \<Rightarrow> 'a \<Rightarrow> int" and A :: "'a set"
  assumes cmp_zero: "a \<in> A \<Longrightarrow> b \<in> A \<Longrightarrow> cmp a b = 0 \<longleftrightarrow> a = b"
    and cmp_swap: "a \<in> A \<Longrightarrow> b \<in> A \<Longrightarrow> cmp b a > 0 \<longleftrightarrow> cmp a b < 0"
    and cmp_trans: "a \<in> A \<Longrightarrow> b \<in> A \<Longrightarrow> c \<in> A \<Longrightarrow> cmp a b < 0 \<Longrightarrow> cmp b c < 0 \<Longrightarrow> cmp a c < 0"
begin

lemma cmp_self [simp]: "a \<in> A \<Longrightarrow> cmp a a = 0"
  by (simp add: cmp_zero)

lemma cmp_asym: "a \<in> A \<Longrightarrow> b \<in> A \<Longrightarrow> cmp a b < 0 \<Longrightarrow> \<not> cmp b a < 0"
  using cmp_swap [of a b] by simp

lemma cmp_total: "a \<in> A \<Longrightarrow> b \<in> A \<Longrightarrow> cmp a b < 0 \<or> a = b \<or> cmp b a < 0"
  using cmp_swap [of b a] cmp_zero [of a b] by linarith

lemma cmp_less_le_trans:
  "a \<in> A \<Longrightarrow> b \<in> A \<Longrightarrow> c \<in> A \<Longrightarrow> cmp a b < 0 \<Longrightarrow> cmp b c \<le> 0 \<Longrightarrow> cmp a c < 0"
  using cmp_trans [of a b c] cmp_zero [of b c] by (cases "cmp b c = 0") auto

end

text \<open>Three comparisons tried in turn order the triples whose components they order.\<close>

locale component_comparisons =
  c1: comparison c1 A1 + c2: comparison c2 A2 + c3: comparison c3 A3
  for c1 :: "'a \<Rightarrow> 'a \<Rightarrow> int" and A1 and c2 :: "'b \<Rightarrow> 'b \<Rightarrow> int" and A2
    and c3 :: "'c \<Rightarrow> 'c \<Rightarrow> int" and A3
begin

definition lex :: "'a \<times> 'b \<times> 'c \<Rightarrow> 'a \<times> 'b \<times> 'c \<Rightarrow> int" where
  "lex x y = (case (x, y) of ((a1, a2, a3), (b1, b2, b3)) \<Rightarrow>
     if c1 a1 b1 = 0 then if c2 a2 b2 = 0 then c3 a3 b3 else c2 a2 b2 else c1 a1 b1)"

lemma lex_comparison: "comparison lex (A1 \<times> A2 \<times> A3)"
proof
  fix x y z
  assume m: "x \<in> A1 \<times> A2 \<times> A3" "y \<in> A1 \<times> A2 \<times> A3"
  obtain a1 a2 a3 where x: "x = (a1, a2, a3)" "a1 \<in> A1" "a2 \<in> A2" "a3 \<in> A3" using m(1) by auto
  obtain b1 b2 b3 where y: "y = (b1, b2, b3)" "b1 \<in> A1" "b2 \<in> A2" "b3 \<in> A3" using m(2) by auto
  show "lex x y = 0 \<longleftrightarrow> x = y"
    using x y by (simp add: lex_def c1.cmp_zero c2.cmp_zero c3.cmp_zero)
  show "lex y x > 0 \<longleftrightarrow> lex x y < 0"
    using x y c1.cmp_swap [of a1 b1] c2.cmp_swap [of a2 b2] c3.cmp_swap [of a3 b3]
      c1.cmp_zero [of a1 b1] c1.cmp_zero [of b1 a1] c2.cmp_zero [of a2 b2] c2.cmp_zero [of b2 a2]
    by (auto simp: lex_def)
  assume "z \<in> A1 \<times> A2 \<times> A3"
  then obtain d1 d2 d3 where z: "z = (d1, d2, d3)" "d1 \<in> A1" "d2 \<in> A2" "d3 \<in> A3" by auto
  assume l: "lex x y < 0" "lex y z < 0"
  show "lex x z < 0"
    using l x y z c1.cmp_trans [of a1 b1 d1] c2.cmp_trans [of a2 b2 d2] c3.cmp_trans [of a3 b3 d3]
      c1.cmp_zero [of a1 b1] c1.cmp_zero [of b1 d1] c1.cmp_zero [of a1 d1]
      c2.cmp_zero [of a2 b2] c2.cmp_zero [of b2 d2] c2.cmp_zero [of a2 d2]
      c1.cmp_asym [of a1 b1] c2.cmp_asym [of a2 b2]
    by (auto simp: lex_def split: if_splits)
qed

sublocale lex: comparison lex "A1 \<times> A2 \<times> A3"
  by (rule lex_comparison)

end


text \<open>The interpretation the comparators without dictionaries rest on: ids below \<open>2 ^ 31\<close>.\<close>

definition small_ids :: "u64 set" where
  "small_ids = {i. unat i < 2 ^ 31}"

lemma id_comparison: "comparison id_difference small_ids"
proof
  fix a b c
  assume "a \<in> small_ids" "b \<in> small_ids"
  then have d: "id_difference a b = int (unat a) - int (unat b)" "id_difference b a = int (unat b) - int (unat a)"
    by (simp_all only: small_ids_def mem_Collect_eq id_difference_exact)
  show "id_difference a b = 0 \<longleftrightarrow> a = b" unfolding d by (simp only: word_unat_eq_iff) linarith
  show "id_difference b a > 0 \<longleftrightarrow> id_difference a b < 0" unfolding d by linarith
  assume "c \<in> small_ids" "id_difference a b < 0" "id_difference b c < 0"
  moreover from this(1) have "id_difference b c = int (unat b) - int (unat c)"
      "id_difference a c = int (unat a) - int (unat c)"
    using \<open>a \<in> small_ids\<close> \<open>b \<in> small_ids\<close> by (simp_all only: small_ids_def mem_Collect_eq id_difference_exact)
  ultimately show "id_difference a c < 0" using d by linarith
qed

interpretation ids: component_comparisons id_difference small_ids id_difference small_ids id_difference small_ids
  by (intro component_comparisons.intro id_comparison)

text \<open>A comparison with the sign of the comparison of strings orders the values the strings tell apart.\<close>

lemma string_comparison:
  assumes "\<And>a b. a \<in> A \<Longrightarrow> b \<in> A \<Longrightarrow> sgn (cmp a b) = string_compare (f a) (f b)" "inj_on f A"
  shows "comparison cmp A"
proof
  have z: "cmp a b = 0 \<longleftrightarrow> f a = f b" "cmp a b < 0 \<longleftrightarrow> f a < f b" "cmp a b > 0 \<longleftrightarrow> f b < f a"
    if "a \<in> A" "b \<in> A" for a b
    using assms(1) [OF that] by (auto simp: string_compare_def sgn_if split: if_splits)
  fix a b c
  assume m: "a \<in> A" "b \<in> A"
  show "cmp a b = 0 \<longleftrightarrow> a = b" using z(1) [OF m] assms(2) m by (auto simp: inj_on_def)
  show "cmp b a > 0 \<longleftrightarrow> cmp a b < 0" using z(2) [OF m] z(3) [OF m(2,1)] by simp
  assume "c \<in> A" "cmp a b < 0" "cmp b c < 0"
  then show "cmp a c < 0" using z(2) [OF m] z(2) [OF m(2)] z(2) [OF m(1)] by auto
qed

text \<open>A comparison of images orders the preimages an injective function tells apart.\<close>

lemma comparison_image:
  assumes "comparison cmp B" "inj_on f A" "\<And>a. a \<in> A \<Longrightarrow> f a \<in> B"
  shows "comparison (\<lambda>a b. cmp (f a) (f b)) A"
proof
  fix a b c
  assume m: "a \<in> A" "b \<in> A"
  note f = assms(3) [OF m(1)] assms(3) [OF m(2)]
  show "cmp (f a) (f b) = 0 \<longleftrightarrow> a = b"
    using comparison.cmp_zero [OF assms(1) f] assms(2) m by (simp add: inj_on_eq_iff)
  show "cmp (f b) (f a) > 0 \<longleftrightarrow> cmp (f a) (f b) < 0" by (rule comparison.cmp_swap [OF assms(1) f])
  assume "c \<in> A" "cmp (f a) (f b) < 0" "cmp (f b) (f c) < 0"
  then show "cmp (f a) (f c) < 0" using comparison.cmp_trans [OF assms(1) f assms(3)] by blast
qed

lemma comparison_cong:
  assumes "comparison cmp A" "\<And>a b. a \<in> A \<Longrightarrow> b \<in> A \<Longrightarrow> cmp' a b = cmp a b"
  shows "comparison cmp' A"
proof
  fix a b c
  assume m: "a \<in> A" "b \<in> A"
  show "cmp' a b = 0 \<longleftrightarrow> a = b" unfolding assms(2) [OF m] by (rule comparison.cmp_zero [OF assms(1) m])
  show "cmp' b a > 0 \<longleftrightarrow> cmp' a b < 0"
    unfolding assms(2) [OF m] assms(2) [OF m(2,1)] by (rule comparison.cmp_swap [OF assms(1) m])
  assume c: "c \<in> A" "cmp' a b < 0" "cmp' b c < 0"
  then show "cmp' a c < 0"
    using comparison.cmp_trans [OF assms(1) m c(1)] assms(2) [OF m] assms(2) [OF m(2) c(1)]
      assms(2) [OF m(1) c(1)] by simp
qed

section \<open>The order of the keys\<close>

text \<open>The ids of a role that a manager knows: ids with a string of their own, neither the blank 0 nor the
  reserved \<open>max_id\<close>, HDT terms sorted within their sections.\<close>

definition known_ids :: "dictionary_manager \<Rightarrow> role \<Rightarrow> u64 set" where
  "known_ids m r = {i. role_id m r i \<and> i \<noteq> max_id \<and> dm_string_to_id (dm_id_to_string i r m) r m = Inr i}"

definition known_keys :: "dictionary_manager \<Rightarrow> triple set" where
  "known_keys m = {t. subject t \<in> known_ids m SUBJECT \<and> predicate t \<in> known_ids m PREDICATE \<and>
      object t \<in> known_ids m OBJECT}"

lemma known_ids_inj: "inj_on (\<lambda>i. dm_id_to_string i r m) (known_ids m r)"
  by (rule inj_onI) (metis (mono_tags, lifting) Inr_inject known_ids_def mem_Collect_eq)


lemma known_comparison:
  assumes "role_sorted m r" "unat (dm_max_hdt_id m) < 2 ^ 31"
  shows "comparison (\<lambda>a b. dm_compare_component a b r m) (known_ids m r)"
  by (rule string_comparison [OF compare_component_string [OF assms] known_ids_inj])
    (auto simp: known_ids_def)

text \<open>The comparators of the three trees of a store.\<close>

definition spo_comparator :: "dictionary_manager \<Rightarrow> key_comparator" where
  "spo_comparator dict = \<lparr> kc_compare_1 = comp_s, kc_compare_2 = comp_p, kc_compare_3 = comp_o, kc_dict = dict \<rparr>"

definition pos_comparator :: "dictionary_manager \<Rightarrow> key_comparator" where
  "pos_comparator dict = \<lparr> kc_compare_1 = comp_p, kc_compare_2 = comp_o, kc_compare_3 = comp_s, kc_dict = dict \<rparr>"

definition osp_comparator :: "dictionary_manager \<Rightarrow> key_comparator" where
  "osp_comparator dict = \<lparr> kc_compare_1 = comp_o, kc_compare_2 = comp_s, kc_compare_3 = comp_p, kc_dict = dict \<rparr>"

lemma key_component_known:
  "get a \<in> known_ids m r \<Longrightarrow> get b \<in> known_ids m r \<Longrightarrow>
   key_component get r a b m = dm_compare_component (get a) (get b) r m"
  by (auto simp: key_component_def known_ids_def role_id_def)

lemmas comp_defs = comp_s_def comp_p_def comp_o_def

lemma key_comparison:
  assumes "\<And>r. role_sorted m r" "unat (dm_max_hdt_id m) < 2 ^ 31"
  shows "comparison (key_compare (spo_comparator m)) (known_keys m)"
    "comparison (key_compare (pos_comparator m)) (known_keys m)"
    "comparison (key_compare (osp_comparator m)) (known_keys m)"
proof -
  define c where "c r a b = dm_compare_component a b r m" for r a b
  define K where "K = known_ids m"
  have cc: "component_comparisons (c x) (K x) (c y) (K y) (c z) (K z)" for x y z
    unfolding c_def K_def by (intro component_comparisons.intro known_comparison assms)
  note l = component_comparisons.lex_comparison [OF cc]
  have kd: "component_comparisons.lex (c x) (c y) (c z) (a1, a2, a3) (b1, b2, b3) =
      (if c x a1 b1 = 0 then if c y a2 b2 = 0 then c z a3 b3 else c y a2 b2 else c x a1 b1)"
    for x y z a1 a2 a3 b1 b2 b3
    by (simp add: component_comparisons.lex_def [OF cc])
  note kk = known_keys_def key_compare_def Let_def comp_defs key_component_known
  show "comparison (key_compare (spo_comparator m)) (known_keys m)"
    by (rule comparison_cong [OF comparison_image [OF l [of SUBJECT PREDICATE OBJECT],
          of "\<lambda>t. (subject t, predicate t, object t)"]])
      (auto simp: inj_on_def kd c_def K_def kk spo_comparator_def)
  show "comparison (key_compare (pos_comparator m)) (known_keys m)"
    by (rule comparison_cong [OF comparison_image [OF l [of PREDICATE OBJECT SUBJECT],
          of "\<lambda>t. (predicate t, object t, subject t)"]])
      (auto simp: inj_on_def kd c_def K_def kk pos_comparator_def)
  show "comparison (key_compare (osp_comparator m)) (known_keys m)"
    by (rule comparison_cong [OF comparison_image [OF l [of OBJECT SUBJECT PREDICATE],
          of "\<lambda>t. (object t, subject t, predicate t)"]])
      (auto simp: inj_on_def kd c_def K_def kk osp_comparator_def)
qed


text \<open>Without dictionaries the ids themselves order the triples, as long as they are below \<open>2 ^ 31\<close>.\<close>

lemma null_comparison:
  "comparison (tc_compare (get_triple_comparator SPO None None))
     {t. subject t \<in> small_ids \<and> predicate t \<in> small_ids \<and> object t \<in> small_ids}"
  by (rule comparison_cong [OF comparison_image [OF ids.lex_comparison,
        of "\<lambda>t. (subject t, predicate t, object t)"]])
    (auto simp: inj_on_def ids.lex_def tc_compare_def compare_with_def get_triple_comparator_def
      tc_new_def subject_comparator_def predicate_comparator_def object_comparator_def
      component_comparator_def Let_def)

lemma example_known:
  "mk_triple 1 1 3 \<in> known_keys example_manager" "mk_triple 2 1 2 \<in> known_keys example_manager"
  "mk_triple 1 1 2 \<in> known_keys example_manager"
proof -
  have "dm_string_to_id (dm_id_to_string 1 SUBJECT example_manager) SUBJECT example_manager = Inr 1"
    "dm_string_to_id (dm_id_to_string 2 SUBJECT example_manager) SUBJECT example_manager = Inr 2"
    "dm_string_to_id (dm_id_to_string 1 PREDICATE example_manager) PREDICATE example_manager = Inr 1"
    "dm_string_to_id (dm_id_to_string 2 OBJECT example_manager) OBJECT example_manager = Inr 2"
    "dm_string_to_id (dm_id_to_string 3 OBJECT example_manager) OBJECT example_manager = Inr 3"
    by code_simp+
  then show "mk_triple 1 1 3 \<in> known_keys example_manager"
    "mk_triple 2 1 2 \<in> known_keys example_manager" "mk_triple 1 1 2 \<in> known_keys example_manager"
    by (simp_all add: known_keys_def known_ids_def role_id_def max_id_def example_bounds word_le_nat_alt)
qed

section \<open>Properties\<close>

text \<open>C19: The comparators of the SPO, POS and OSP trees are strict total orders on the triples of known
  terms: equal only for equal triples, antisymmetric and transitive; comparing serialized keys, as the
  tree database does, gives the same answer.\<close>

theorem key_comparator_orders:
  assumes "\<forall>r. role_sorted m r" "unat (dm_max_hdt_id m) < 2 ^ 31"
    "c = spo_comparator m \<or> c = pos_comparator m \<or> c = osp_comparator m"
    "x \<in> known_keys m" "y \<in> known_keys m" "z \<in> known_keys m"
  shows "(key_compare c x y = 0 \<longleftrightarrow> x = y) \<and> (key_compare c y x > 0 \<longleftrightarrow> key_compare c x y < 0) \<and>
    (key_compare c x y < 0 \<and> key_compare c y z < 0 \<longrightarrow> key_compare c x z < 0) \<and>
    key_compare_bytes c (serialize_triple x) (serialize_triple y) = Inr (key_compare c x y)"
proof -
  have k: "comparison (key_compare c) (known_keys m)"
    using assms(3) key_comparison [OF assms(1) [rule_format] assms(2)] by blast
  show ?thesis
    using comparison.cmp_zero [OF k assms(4,5)] comparison.cmp_swap [OF k assms(4,5)]
      key_compare_serialized [of c x y] comparison.cmp_trans [OF k assms(4-6)]
    by blast
qed

theorem key_comparator_orders_witness:
  "key_compare (osp_comparator example_manager) (mk_triple 1 1 3) (mk_triple 2 1 2) > 0"
proof -
  have "key_compare (osp_comparator example_manager) (mk_triple 2 1 2) (mk_triple 1 1 3) < 0"
    by code_simp
  then show ?thesis
    using key_comparator_orders [of example_manager "osp_comparator example_manager",
        OF allI [OF example_sorted] _ _ example_known(2,1,3)]
    by (simp add: example_bounds)
qed

end
