(* ===== verification/Kyoto_Cabinet.thy ===== *)
theory Kyoto_Cabinet
  imports Key_Comparators
begin

text \<open>
  The interface of Kyoto Cabinet, the key-value store the code keeps its trees and counters in. The
  library is third-party code: a database is a value of a type parameter with the record of the
  operations the code calls (\<open>tree_db\<close> for \<open>TreeDB\<close>, \<open>hash_db\<close> for \<open>HashDB\<close>), and what the code relies
  on are the laws \<open>tree_laws\<close> and \<open>hash_laws\<close>. Keys of a \<open>TreeDB\<close> are triples; the bytes they are stored
  as compare as the triples do (\<open>key_compare_serialized\<close>). Association lists satisfy the laws
  (\<open>list_tree_laws\<close>, \<open>list_hash_laws\<close>).
\<close>

section \<open>Tree databases\<close>

text \<open>The records of a tree in the order of its comparator: \<open>get\<close>, \<open>set\<close>, and where a cursor moves to: the
  first and last record (\<open>jump()\<close>, \<open>jump_back()\<close>), the first record not before a key (\<open>jump(k)\<close>), the last
  one not after it (\<open>jump_back(k)\<close>), the next and previous ones (\<open>step\<close>, \<open>step_back\<close>).\<close>

record 't tree_db =
  tree_get :: "'t \<Rightarrow> triple \<Rightarrow> byte list option"
  tree_set :: "'t \<Rightarrow> triple \<Rightarrow> byte list \<Rightarrow> 't"
  tree_first :: "'t \<Rightarrow> triple option"
  tree_last :: "'t \<Rightarrow> triple option"
  tree_from :: "'t \<Rightarrow> triple \<Rightarrow> triple option"
  tree_upto :: "'t \<Rightarrow> triple \<Rightarrow> triple option"
  tree_after :: "'t \<Rightarrow> triple \<Rightarrow> triple option"
  tree_before :: "'t \<Rightarrow> triple \<Rightarrow> triple option"

text \<open>A cursor is the key of its record; \<open>None\<close> when it has left the tree.\<close>

type_synonym cursor = "triple option"

definition cursor_get :: "'t tree_db \<Rightarrow> 't \<Rightarrow> cursor \<Rightarrow> (triple \<times> byte list) option" where
  "cursor_get db t c =
     (case c of None \<Rightarrow> None
      | Some k \<Rightarrow> (case tree_get db t k of None \<Rightarrow> None | Some v \<Rightarrow> Some (k, v)))"

definition cursor_step :: "'t tree_db \<Rightarrow> 't \<Rightarrow> cursor \<Rightarrow> cursor" where
  "cursor_step db t c = (case c of None \<Rightarrow> None | Some k \<Rightarrow> tree_after db t k)"

definition cursor_step_back :: "'t tree_db \<Rightarrow> 't \<Rightarrow> cursor \<Rightarrow> cursor" where
  "cursor_step_back db t c = (case c of None \<Rightarrow> None | Some k \<Rightarrow> tree_before db t k)"

definition cursor_set_value :: "'t tree_db \<Rightarrow> 't \<Rightarrow> cursor \<Rightarrow> byte list \<Rightarrow> 't" where
  "cursor_set_value db t c v = (case c of None \<Rightarrow> t | Some k \<Rightarrow> tree_set db t k v)"

text \<open>\<open>keys t\<close> are the keys in comparator order, \<open>valid t\<close> the trees the library builds with keys in \<open>A\<close>.\<close>

definition tree_laws ::
  "'t tree_db \<Rightarrow> (triple \<Rightarrow> triple \<Rightarrow> int) \<Rightarrow> triple set \<Rightarrow> ('t \<Rightarrow> triple list) \<Rightarrow> ('t \<Rightarrow> bool) \<Rightarrow> bool" where
  "tree_laws db cmp A keys valid \<longleftrightarrow>
     (\<forall>t. valid t \<longrightarrow> set (keys t) = dom (tree_get db t) \<and> set (keys t) \<subseteq> A \<and>
        sorted_wrt (\<lambda>a b. cmp a b < 0) (keys t)) \<and>
     (\<forall>t k v. valid t \<and> k \<in> A \<longrightarrow> valid (tree_set db t k v) \<and>
        tree_get db (tree_set db t k v) = (tree_get db t)(k \<mapsto> v)) \<and>
     (\<forall>t. valid t \<longrightarrow> tree_first db t = find (\<lambda>x. True) (keys t)) \<and>
     (\<forall>t. valid t \<longrightarrow> tree_last db t = find (\<lambda>x. True) (rev (keys t))) \<and>
     (\<forall>t k. valid t \<longrightarrow> tree_from db t k = find (\<lambda>x. \<not> cmp x k < 0) (keys t)) \<and>
     (\<forall>t k. valid t \<longrightarrow> tree_upto db t k = find (\<lambda>x. \<not> cmp k x < 0) (rev (keys t))) \<and>
     (\<forall>t k. valid t \<longrightarrow> tree_after db t k = find (\<lambda>x. cmp k x < 0) (keys t)) \<and>
     (\<forall>t k. valid t \<longrightarrow> tree_before db t k = find (\<lambda>x. cmp x k < 0) (rev (keys t)))"

section \<open>Hash databases\<close>

text \<open>\<open>hash_records\<close> are the records in the order a cursor visits them.\<close>

record ('h, 'k) hash_db =
  hash_get :: "'h \<Rightarrow> 'k \<Rightarrow> int option"
  hash_set :: "'h \<Rightarrow> 'k \<Rightarrow> int \<Rightarrow> 'h"
  hash_clear :: "'h \<Rightarrow> 'h"
  hash_records :: "'h \<Rightarrow> ('k \<times> int) list"

definition hash_laws :: "('h, 'k) hash_db \<Rightarrow> bool" where
  "hash_laws db \<longleftrightarrow>
     (\<forall>h k v. hash_get db (hash_set db h k v) = (hash_get db h)(k \<mapsto> v)) \<and>
     (\<forall>h. hash_get db (hash_clear db h) = Map.empty) \<and>
     (\<forall>h. distinct (map fst (hash_records db h)) \<and> map_of (hash_records db h) = hash_get db h)"

lemma hash_lawsD:
  assumes "hash_laws db"
  shows "hash_get db (hash_set db h k v) = (hash_get db h)(k \<mapsto> v)"
    "hash_get db (hash_clear db h) = Map.empty"
    "distinct (map fst (hash_records db h))" "map_of (hash_records db h) = hash_get db h"
  using assms by (simp_all add: hash_laws_def)

section \<open>Association lists\<close>

definition list_hash :: "(('k \<times> int) list, 'k) hash_db" where
  "list_hash = \<lparr> hash_get = map_of,
     hash_set = (\<lambda>h k v. (k, v) # filter (\<lambda>p. fst p \<noteq> k) h),
     hash_clear = (\<lambda>h. []),
     hash_records = (\<lambda>h. map (\<lambda>k. (k, the (map_of h k))) (remdups (map fst h))) \<rparr>"

lemma map_of_filter_neq: "map_of (filter (\<lambda>p. fst p \<noteq> k) h) = (map_of h)(k := None)"
  by (induction h) (auto simp: fun_eq_iff)

lemma list_hash_laws: "hash_laws (list_hash :: (('k \<times> int) list, 'k) hash_db)"
proof -
  have "map_of (map (\<lambda>k. (k, the (map_of h k))) (remdups (map fst h))) = map_of h"
    for h :: "('k \<times> int) list"
  proof
    fix k
    show "map_of (map (\<lambda>k. (k, the (map_of h k))) (remdups (map fst h))) k = map_of h k"
      unfolding map_of_map_restrict restrict_map_def using map_of_eq_None_iff [of h k]
      by (cases "map_of h k") simp_all
  qed
  moreover have "distinct (map fst (map (\<lambda>k. (k, the (map_of h k))) (remdups (map fst h))))"
    for h :: "('k \<times> int) list"
    by (simp add: comp_def)
  ultimately show ?thesis by (simp add: hash_laws_def list_hash_def map_of_filter_neq)
qed

fun list_tree_set :: "(triple \<Rightarrow> triple \<Rightarrow> int) \<Rightarrow> (triple \<times> byte list) list \<Rightarrow> triple \<Rightarrow> byte list \<Rightarrow> (triple \<times> byte list) list" where
  "list_tree_set cmp [] k v = [(k, v)]"
| "list_tree_set cmp ((a, b) # t) k v =
     (if cmp k a < 0 then (k, v) # (a, b) # t
      else if k = a then (k, v) # t else (a, b) # list_tree_set cmp t k v)"

definition list_tree :: "(triple \<Rightarrow> triple \<Rightarrow> int) \<Rightarrow> (triple \<times> byte list) list tree_db" where
  "list_tree cmp =
     \<lparr> tree_get = map_of, tree_set = list_tree_set cmp,
       tree_first = (\<lambda>t. find (\<lambda>x. True) (map fst t)),
       tree_last = (\<lambda>t. find (\<lambda>x. True) (rev (map fst t))),
       tree_from = (\<lambda>t k. find (\<lambda>x. \<not> cmp x k < 0) (map fst t)),
       tree_upto = (\<lambda>t k. find (\<lambda>x. \<not> cmp k x < 0) (rev (map fst t))),
       tree_after = (\<lambda>t k. find (\<lambda>x. cmp k x < 0) (map fst t)),
       tree_before = (\<lambda>t k. find (\<lambda>x. cmp x k < 0) (rev (map fst t))) \<rparr>"

definition list_tree_valid :: "(triple \<Rightarrow> triple \<Rightarrow> int) \<Rightarrow> triple set \<Rightarrow> (triple \<times> byte list) list \<Rightarrow> bool" where
  "list_tree_valid cmp A t \<longleftrightarrow> fst ` set t \<subseteq> A \<and> sorted_wrt (\<lambda>a b. cmp a b < 0) (map fst t)"

lemma set_list_tree_set: "fst ` set (list_tree_set cmp t k v) = insert k (fst ` set t)"
  by (induction cmp t k v rule: list_tree_set.induct) auto

lemma list_tree_set_valid:
  assumes "comparison cmp A" "k \<in> A" "list_tree_valid cmp A t"
  shows "list_tree_valid cmp A (list_tree_set cmp t k v)"
    "map_of (list_tree_set cmp t k v) = (map_of t)(k \<mapsto> v)"
  using assms(3)
proof (induction t)
  case Nil
  { case 1 then show ?case using assms(2) by (simp add: list_tree_valid_def) }
  { case 2 then show ?case by simp }
next
  case (Cons p t)
  obtain a b where p: "p = (a, b)" by (cases p)
  note c = assms(1)
  { case 1
    then have m: "a \<in> A" "fst ` set t \<subseteq> A" "\<forall>x\<in>fst ` set t. cmp a x < 0" "list_tree_valid cmp A t"
      by (auto simp: p list_tree_valid_def)
    then have tot: "cmp k a < 0 \<or> k = a \<or> cmp a k < 0" using comparison.cmp_total [OF c assms(2)] by blast
    have lt: "cmp k a < 0 \<Longrightarrow> \<forall>x\<in>fst ` set t. cmp k x < 0"
      using m comparison.cmp_trans [OF c assms(2) m(1)] by blast
    show ?case
      using 1 m tot lt assms(2) Cons(1) [OF m(4)] set_list_tree_set [of cmp t k v]
      by (auto simp: p list_tree_valid_def simp flip: set_map) }
  { case 2
    then have m: "a \<in> A" "fst ` set t \<subseteq> A" "list_tree_valid cmp A t" "\<forall>x\<in>fst ` set t. cmp a x < 0"
      by (auto simp: p list_tree_valid_def)
    have "k \<notin> fst ` set t" if "cmp k a < 0"
      using m comparison.cmp_asym [OF c m(1) assms(2)] that by blast
    then show ?case
      using Cons(2) [OF m(3)] by (auto simp: p fun_eq_iff map_of_eq_None_iff) }
qed

lemma list_tree_laws:
  assumes "comparison cmp A"
  shows "tree_laws (list_tree cmp) cmp A (map fst) (list_tree_valid cmp A)"
  using list_tree_set_valid [OF assms]
  by (simp add: tree_laws_def list_tree_def) (auto simp: list_tree_valid_def dom_map_of_conv_image_fst)

end
