(* ===== verification/Patch.thy ===== *)
theory Patch
  imports Kyoto_Cabinet
begin

text \<open>
  The patches of \<open>patch/patch.{h,cc}\<close>, their elements (\<open>patch/patch_element.{h,cc}\<close>,
  \<open>patch/patch_element_comparator.{h,cc}\<close>) and the element iterators of
  \<open>patch/patch_element_iterator.{h,cc}\<close>: sorted, unsorted and hashed patches, the merge of a hashed with
  another patch, and the positions of deletions, counted in hash databases.
\<close>

section \<open>Patch elements\<close>

record patch_element =
  pe_triple :: triple
  pe_addition :: bool
  pe_local_change :: bool

definition pe_default :: patch_element where
  "pe_default = \<lparr> pe_triple = default_triple, pe_addition = False, pe_local_change = False \<rparr>"

definition pe_new :: "triple \<Rightarrow> bool \<Rightarrow> patch_element" where
  "pe_new t addition = \<lparr> pe_triple = t, pe_addition = addition, pe_local_change = False \<rparr>"

definition pe_make :: "triple \<Rightarrow> bool \<Rightarrow> bool \<Rightarrow> patch_element" where
  "pe_make t addition local_change =
     \<lparr> pe_triple = t, pe_addition = addition, pe_local_change = local_change \<rparr>"

definition pe_set_triple :: "triple \<Rightarrow> patch_element \<Rightarrow> patch_element" where
  "pe_set_triple t e = e\<lparr> pe_triple := t \<rparr>"

definition pe_set_addition :: "bool \<Rightarrow> patch_element \<Rightarrow> patch_element" where
  "pe_set_addition b e = e\<lparr> pe_addition := b \<rparr>"

definition pe_set_local_change :: "bool \<Rightarrow> patch_element \<Rightarrow> patch_element" where
  "pe_set_local_change b e = e\<lparr> pe_local_change := b \<rparr>"

definition pe_to_string :: "patch_element \<Rightarrow> string" where
  "pe_to_string e = triple_to_string (pe_triple e) @ '' ('' @ (if pe_addition e then ''+'' else ''-'') @ '')''"

definition pe_eq :: "patch_element \<Rightarrow> patch_element \<Rightarrow> bool" where
  "pe_eq e rhs \<longleftrightarrow> triple_eq (pe_triple e) (pe_triple rhs) \<and> pe_addition e = pe_addition rhs"

text \<open>\<open>PatchElementComparator::get\<close>: the order of the triples.\<close>

definition element_less :: "key_comparator \<Rightarrow> patch_element \<Rightarrow> patch_element \<Rightarrow> bool" where
  "element_less c lhs rhs \<longleftrightarrow> key_compare c (pe_triple lhs) (pe_triple rhs) < 0"

section \<open>Sorted patches\<close>

record patch_sorted =
  ps_elements :: "patch_element list"
  ps_comparator :: key_comparator

definition ps_new :: "key_comparator \<Rightarrow> patch_element list \<Rightarrow> patch_sorted" where
  "ps_new c es = \<lparr> ps_elements = es, ps_comparator = c \<rparr>"

definition ps_position :: "patch_element \<Rightarrow> patch_sorted \<Rightarrow> nat" where
  "ps_position element p = lower_bound (\<lambda>e. element_less (ps_comparator p) e element) (ps_elements p)"

definition ps_add :: "patch_element \<Rightarrow> patch_sorted \<Rightarrow> patch_sorted" where
  "ps_add element p =
     (let it = ps_position element p; es = ps_elements p in
      if it \<noteq> length es \<and> triple_eq (pe_triple (es ! it)) (pe_triple element)
      then let was_addition_change = (pe_addition (es ! it) \<noteq> pe_addition element);
               was_local_change = pe_local_change (es ! it);
               element' = (if was_addition_change then pe_set_local_change (\<not> was_local_change) element
                           else element)
           in p\<lparr> ps_elements := es[it := element'] \<rparr>
      else p\<lparr> ps_elements := insert_at it element es \<rparr>)"

definition ps_add_unsorted :: "patch_element \<Rightarrow> patch_sorted \<Rightarrow> patch_sorted" where
  "ps_add_unsorted element p = p\<lparr> ps_elements := ps_elements p @ [element] \<rparr>"

text \<open>\<open>std::sort\<close>: the order of equal elements, which the standard leaves open, is the original one here.\<close>

fun insort_less :: "('a \<Rightarrow> 'a \<Rightarrow> bool) \<Rightarrow> 'a \<Rightarrow> 'a list \<Rightarrow> 'a list" where
  "insort_less lt x [] = [x]"
| "insort_less lt x (y # ys) = (if lt y x then y # insort_less lt x ys else x # y # ys)"

definition std_sort :: "('a \<Rightarrow> 'a \<Rightarrow> bool) \<Rightarrow> 'a list \<Rightarrow> 'a list" where
  "std_sort lt xs = foldr (insort_less lt) xs []"

definition ps_sort :: "patch_sorted \<Rightarrow> patch_sorted" where
  "ps_sort p = p\<lparr> ps_elements := std_sort (element_less (ps_comparator p)) (ps_elements p) \<rparr>"

definition ps_overwrite :: "int \<Rightarrow> patch_element \<Rightarrow> patch_sorted \<Rightarrow> patch_sorted outcome" where
  "ps_overwrite i element p =
     (if 0 \<le> i \<and> i < int (length (ps_elements p))
      then Inr (p\<lparr> ps_elements := (ps_elements p)[nat i := element] \<rparr>)
      else Inl Undefined_behaviour)"

definition ps_get_size :: "patch_sorted \<Rightarrow> nat" where
  "ps_get_size p = length (ps_elements p)"

definition vector_get :: "int \<Rightarrow> patch_element list \<Rightarrow> patch_element outcome" where
  "vector_get index es =
     (if index < 0 \<or> index \<ge> int (length es) then Inl Invalid_argument else Inr (es ! nat index))"

definition ps_get :: "int \<Rightarrow> patch_sorted \<Rightarrow> patch_element outcome" where
  "ps_get index p = vector_get index (ps_elements p)"

text \<open>The loop reads from the element's place down to the first one; a place at the end is a read past
  the vector.\<close>

definition ps_position_of_pattern ::
  "patch_element \<Rightarrow> bool \<Rightarrow> bool \<Rightarrow> bool \<Rightarrow> bool \<Rightarrow> patch_sorted \<Rightarrow> int outcome" where
  "ps_position_of_pattern element s p ob type patch =
     (let it = ps_position element patch in
      if it \<ge> length (ps_elements patch) then Inl Undefined_behaviour
      else Inr (int (length (filter (\<lambda>m.
          (\<not> s \<or> subject (pe_triple m) = subject (pe_triple element)) \<and>
          (\<not> p \<or> predicate (pe_triple m) = predicate (pe_triple element)) \<and>
          (\<not> ob \<or> object (pe_triple m) = object (pe_triple element)) \<and>
          (\<not> type \<or> pe_addition m = pe_addition element)) (take (Suc it) (ps_elements patch)))) - 1))"

definition ps_position_of :: "patch_element \<Rightarrow> patch_sorted \<Rightarrow> int" where
  "ps_position_of element p = int (ps_position element p)"

definition ps_position_of_strict :: "patch_element \<Rightarrow> patch_sorted \<Rightarrow> int" where
  "ps_position_of_strict element p =
     (let it = ps_position element p in
      if it \<noteq> length (ps_elements p) \<and> pe_eq (ps_elements p ! it) element then int it else - 1)"

definition ps_index_of_triple :: "triple \<Rightarrow> patch_sorted \<Rightarrow> int" where
  "ps_index_of_triple t p =
     (let element1 = pe_new t False; it1 = ps_position element1 p in
      if it1 \<noteq> length (ps_elements p) \<and> pe_eq (ps_elements p ! it1) element1 then int it1
      else let element2 = pe_new t True; it2 = ps_position element2 p in
           if it2 \<noteq> length (ps_elements p) \<and> pe_eq (ps_elements p ! it2) element2 then int it2
           else - 1)"

text \<open>\<open>Patch::addAll\<close> and \<open>Patch::to_string\<close>: an iterator over the elements of the other patch.\<close>

definition ps_add_all :: "patch_element list \<Rightarrow> patch_sorted \<Rightarrow> patch_sorted" where
  "ps_add_all es p = foldl (\<lambda>p e. ps_add e p) p es"

definition elements_to_string :: "patch_element list \<Rightarrow> string" where
  "elements_to_string es =
     concat (map (\<lambda>e. pe_to_string e @ (if pe_local_change e then '' L'' else '''') @ [CHR 0x0A]) es)"

section \<open>Unsorted and hashed patches\<close>

record patch_unsorted =
  pu_elements :: "patch_element list"

definition pu_add :: "patch_element \<Rightarrow> patch_unsorted \<Rightarrow> patch_unsorted" where
  "pu_add element p = p\<lparr> pu_elements := pu_elements p @ [element] \<rparr>"

definition pu_get_size :: "patch_unsorted \<Rightarrow> nat" where
  "pu_get_size p = length (pu_elements p)"

definition pu_get :: "int \<Rightarrow> patch_unsorted \<Rightarrow> patch_element outcome" where
  "pu_get index p = vector_get index (pu_elements p)"

text \<open>An \<open>unordered_map\<close> is the list of its entries in iteration order; \<open>insert\<close> keeps an entry that is
  there.\<close>

record patch_hashed =
  ph_elements :: "(triple \<times> bool \<times> bool) list"

definition ph_add :: "patch_element \<Rightarrow> patch_hashed \<Rightarrow> patch_hashed" where
  "ph_add element p =
     (case map_of (ph_elements p) (pe_triple element) of
        Some _ \<Rightarrow> p
      | None \<Rightarrow> p\<lparr> ph_elements :=
          ph_elements p @ [(pe_triple element, pe_addition element, pe_local_change element)] \<rparr>)"

definition ph_get_size :: "patch_hashed \<Rightarrow> nat" where
  "ph_get_size p = length (ph_elements p)"

text \<open>\<open>PatchIteratorHashed::next\<close> over all entries.\<close>

definition ph_iterate :: "patch_hashed \<Rightarrow> patch_element list" where
  "ph_iterate p = map (\<lambda>(t, addition, local_change). pe_make t addition local_change) (ph_elements p)"

text \<open>The bulk insertion of \<open>join_sorted\<close>: one element of the given patch, then the loop over them.\<close>

definition join_element :: "patch_hashed \<Rightarrow> patch_element \<Rightarrow> patch_element" where
  "join_element h element =
     (case map_of (ph_elements h) (pe_triple element) of
        Some (addition, local_change) \<Rightarrow>
          if addition \<noteq> pe_addition element then pe_set_local_change (\<not> local_change) element else element
      | None \<Rightarrow> element)"

definition join_skipped :: "patch_hashed \<Rightarrow> patch_element list \<Rightarrow> triple set" where
  "join_skipped h es = set (map pe_triple (filter (\<lambda>e. map_of (ph_elements h) (pe_triple e) \<noteq> None) es))"

definition ph_join_sorted :: "patch_element list \<Rightarrow> key_comparator \<Rightarrow> patch_hashed \<Rightarrow> patch_sorted" where
  "ph_join_sorted vec c h =
     (if ph_get_size h = 0 then ps_sort (ps_new c vec)
      else
        (let bulk = foldl (\<lambda>p e. ps_add_unsorted (join_element h e) p) (ps_new c []) vec;
             rest = filter (\<lambda>(t, _). t \<notin> join_skipped h vec) (ph_elements h);
             new_patch = foldl (\<lambda>p (t, addition, local_change).
               ps_add_unsorted (pe_make t addition local_change) p) bulk rest
         in ps_sort new_patch))"

section \<open>Positions\<close>

definition contains_and_increment_position :: "('h, u64) hash_db \<Rightarrow> u64 \<Rightarrow> 'h \<Rightarrow> int \<times> 'h" where
  "contains_and_increment_position db hash m =
     (let pos = (case hash_get db m hash of Some p \<Rightarrow> p | None \<Rightarrow> 0)
      in (pos, hash_set db m hash (pos + 1)))"

text \<open>The six hash databases and the counter \<open>___\<close>.\<close>

record 'h position_counters =
  pc_sp :: 'h
  pc_so :: 'h
  pc_s :: 'h
  pc_po :: 'h
  pc_p :: 'h
  pc_o :: 'h
  pc_all :: int

definition pattern_hash :: "u64 \<Rightarrow> u64 \<Rightarrow> u64" where
  "pattern_hash a b = a OR push_bit 16 b"

definition positions :: "('h, u64) hash_db \<Rightarrow> triple \<Rightarrow> 'h position_counters \<Rightarrow> patch_positions \<times> 'h position_counters" where
  "positions db t c =
     (let hsp = pattern_hash (subject t) (predicate t);
          hso = pattern_hash (subject t) (object t);
          hs = subject t;
          hpo = pattern_hash (predicate t) (object t);
          hp = predicate t;
          ho = object t;
          (sp, c_sp) = contains_and_increment_position db hsp (pc_sp c);
          (so, c_so) = contains_and_increment_position db hso (pc_so c);
          (s, c_s) = contains_and_increment_position db hs (pc_s c);
          (po, c_po) = contains_and_increment_position db hpo (pc_po c);
          (p, c_p) = contains_and_increment_position db hp (pc_p c);
          (ob, c_o) = contains_and_increment_position db ho (pc_o c)
      in (\<lparr> pp_sp = sp, pp_so = so, pp_s = s, pp_po = po, pp_p = p, pp_o = ob, pp_all = pc_all c \<rparr>,
          \<lparr> pc_sp = c_sp, pc_so = c_so, pc_s = c_s, pc_po = c_po, pc_p = c_p, pc_o = c_o,
            pc_all = pc_all c + 1 \<rparr>))"

section \<open>Element iterators\<close>

text \<open>\<open>PatchElementIteratorVector\<close>: the vector, what is left of it and the number of elements passed.
  \<open>next\<close> writes the triple and the type of the element it is given, not the local change flag.\<close>

record vector_iterator =
  vi_elements :: "patch_element list"
  vi_rest :: "patch_element list"
  vi_passed :: nat

definition vi_new :: "patch_element list \<Rightarrow> vector_iterator" where
  "vi_new es = \<lparr> vi_elements = es, vi_rest = es, vi_passed = 0 \<rparr>"

definition vi_next :: "patch_element \<Rightarrow> vector_iterator \<Rightarrow> bool \<times> patch_element \<times> vector_iterator" where
  "vi_next element it =
     (case vi_rest it of
        [] \<Rightarrow> (False, element, it)
      | e # es \<Rightarrow> (True, pe_set_addition (pe_addition e) (pe_set_triple (pe_triple e) element),
                  it\<lparr> vi_rest := es, vi_passed := vi_passed it + 1 \<rparr>))"

definition vi_go_to_start :: "vector_iterator \<Rightarrow> vector_iterator" where
  "vi_go_to_start it = it\<lparr> vi_rest := vi_elements it \<rparr>"

text \<open>\<open>PatchElementIteratorTripleStrings\<close> over a list of string triples.\<close>

record strings_iterator =
  si_rest :: "string_triple list"
  si_all :: "string_triple list"
  si_additions :: bool
  si_passed :: nat

definition si_next :: "dict_insert \<Rightarrow> patch_element \<Rightarrow> strings_iterator \<Rightarrow> dictionary_manager \<Rightarrow>
    (bool \<times> patch_element \<times> strings_iterator \<times> dictionary_manager) outcome" where
  "si_next ins element it dict =
     (case si_rest it of
        [] \<Rightarrow> Inr (False, element, it, dict)
      | t # ts \<Rightarrow>
          bind_outcome (triple_of_strings ins (st_subject t) (st_predicate t) (st_object t) dict) (\<lambda>(tr, dict').
            Inr (True, pe_set_addition (si_additions it) (pe_set_triple tr element),
                 it\<lparr> si_rest := ts, si_passed := si_passed it + 1 \<rparr>, dict')))"

definition si_go_to_start :: "strings_iterator \<Rightarrow> strings_iterator" where
  "si_go_to_start it = it\<lparr> si_rest := si_all it \<rparr>"

text \<open>\<open>PatchElementIteratorCombined\<close>: iterators with a buffered element each, over vectors.\<close>

record combined_slot =
  cs_iterator :: vector_iterator
  cs_valid :: bool
  cs_buffer :: patch_element

record combined_iterator =
  ci_slots :: "combined_slot list"
  ci_passed :: nat
  ci_comparator :: key_comparator

definition ci_append_iterator :: "vector_iterator \<Rightarrow> combined_iterator \<Rightarrow> combined_iterator" where
  "ci_append_iterator it c =
     c\<lparr> ci_slots := ci_slots c @ [\<lparr> cs_iterator = it, cs_valid = False, cs_buffer = pe_default \<rparr>] \<rparr>"

text \<open>Fill the buffer of a slot that has no valid one; an attempt counts as passed.\<close>

definition cs_fill :: "combined_slot \<Rightarrow> combined_slot \<times> nat" where
  "cs_fill s =
     (if cs_valid s then (s, 0)
      else let (valid, buffer, it) = vi_next (cs_buffer s) (cs_iterator s)
           in (s\<lparr> cs_iterator := it, cs_valid := valid, cs_buffer := buffer \<rparr>, 1))"

text \<open>The loop over the slots from the index \<open>i\<close>: \<open>chosen\<close> is the slot with the smallest buffered triple
  so far, with that triple.\<close>

fun ci_choose :: "key_comparator \<Rightarrow> nat \<Rightarrow> (nat \<times> triple) option \<Rightarrow> combined_slot list \<Rightarrow>
    combined_slot list \<times> nat \<times> (nat \<times> triple) option" where
  "ci_choose c i chosen [] = ([], 0, chosen)"
| "ci_choose c i chosen (s # slots) =
     (let (s', n) = cs_fill s;
          t = pe_triple (cs_buffer s');
          chosen' = (if cs_valid s' then
                       (case chosen of None \<Rightarrow> Some (i, t)
                        | Some (j, u) \<Rightarrow> if key_compare c t u < 0 then Some (i, t) else chosen)
                     else chosen);
          (slots', m, result) = ci_choose c (Suc i) chosen' slots
      in (s' # slots', n + m, result))"

definition ci_next :: "patch_element \<Rightarrow> combined_iterator \<Rightarrow> bool \<times> patch_element \<times> combined_iterator" where
  "ci_next element c =
     (let (slots, n, chosen) = ci_choose (ci_comparator c) 0 None (ci_slots c);
          c' = c\<lparr> ci_slots := slots, ci_passed := ci_passed c + n \<rparr>
      in case chosen of
           None \<Rightarrow> (False, element, c')
         | Some (i, t) \<Rightarrow>
             (True, cs_buffer (slots ! i),
              c'\<lparr> ci_slots := slots[i := (slots ! i)\<lparr> cs_valid := False, cs_buffer := element \<rparr>] \<rparr>))"

definition ci_go_to_start :: "combined_iterator \<Rightarrow> combined_iterator" where
  "ci_go_to_start c =
     c\<lparr> ci_slots := map (\<lambda>s. s\<lparr> cs_iterator := vi_go_to_start (cs_iterator s) \<rparr>) (ci_slots c) \<rparr>"


section \<open>Sorted patches as maps\<close>

text \<open>The type and the local change flag of each triple of a patch.\<close>

definition patch_map :: "patch_element list \<Rightarrow> triple \<Rightarrow> (bool \<times> bool) option" where
  "patch_map es = map_of (map (\<lambda>e. (pe_triple e, pe_addition e, pe_local_change e)) es)"

text \<open>An element merged with what a patch holds for its triple: a change of type inverts the flag.\<close>

definition merged_flags :: "(bool \<times> bool) option \<Rightarrow> patch_element \<Rightarrow> bool \<times> bool" where
  "merged_flags old e =
     (pe_addition e,
      case old of Some (a, l) \<Rightarrow> if a \<noteq> pe_addition e then \<not> l else pe_local_change e
      | None \<Rightarrow> pe_local_change e)"

definition elements_ok :: "key_comparator \<Rightarrow> triple set \<Rightarrow> patch_element list \<Rightarrow> bool" where
  "elements_ok c A es \<longleftrightarrow> sorted_wrt (element_less c) es \<and> pe_triple ` set es \<subseteq> A"

abbreviation ps_ok :: "triple set \<Rightarrow> patch_sorted \<Rightarrow> bool" where
  "ps_ok A p \<equiv> elements_ok (ps_comparator p) A (ps_elements p)"

lemma patch_map_simps [simp]:
  "patch_map [] = Map.empty"
  "patch_map (e # es) = (patch_map es)(pe_triple e \<mapsto> (pe_addition e, pe_local_change e))"
  by (simp_all add: patch_map_def)

lemma patch_map_None: "patch_map es t = None \<longleftrightarrow> t \<notin> pe_triple ` set es"
  by (induction es) auto

lemma patch_map_append: "patch_map (us @ vs) = patch_map vs ++ patch_map us"
  by (simp add: patch_map_def)

lemma element_eqI:
  "pe_triple a = pe_triple b \<Longrightarrow> pe_addition a = pe_addition b \<Longrightarrow> pe_local_change a = pe_local_change b \<Longrightarrow>
   a = (b :: patch_element)"
  by simp

lemma elements_ok_Cons:
  "elements_ok c A (e # es) \<longleftrightarrow> elements_ok c A es \<and> pe_triple e \<in> A \<and> (\<forall>x\<in>set es. element_less c e x)"
  by (auto simp: elements_ok_def)

lemma elements_ok_append:
  "elements_ok c A (us @ vs) \<longleftrightarrow>
   elements_ok c A us \<and> elements_ok c A vs \<and> (\<forall>x\<in>set us. \<forall>y\<in>set vs. element_less c x y)"
  by (auto simp: elements_ok_def sorted_wrt_append)

text \<open>Where an element goes: after the smaller ones, at its triple or before the larger ones.\<close>

lemma ps_position_split:
  assumes "comparison (key_compare (ps_comparator p)) A" "ps_ok A p" "pe_triple e \<in> A"
  obtains us vs where "ps_elements p = us @ vs" "ps_position e p = length us"
    "\<forall>x\<in>set us. element_less (ps_comparator p) x e"
    "vs = [] \<or> pe_triple (hd vs) = pe_triple e \<and> (\<forall>y\<in>set (tl vs). element_less (ps_comparator p) e y) \<or>
     (\<forall>y\<in>set vs. element_less (ps_comparator p) e y)"
proof -
  define c where "c = ps_comparator p"
  obtain us vs where s: "ps_elements p = us @ vs" "\<forall>x\<in>set us. element_less c x e"
    "vs = [] \<or> \<not> element_less c (hd vs) e" "ps_position e p = length us"
    unfolding ps_position_def c_def by (rule lower_bound_split)
  have "vs = [] \<or> pe_triple (hd vs) = pe_triple e \<and> (\<forall>y\<in>set (tl vs). element_less c e y) \<or>
     (\<forall>y\<in>set vs. element_less c e y)"
  proof (cases vs)
    case (Cons v ws)
    note cmp = assms(1) [folded c_def]
    have v: "pe_triple v \<in> A" "\<forall>y\<in>set ws. element_less c v y" "pe_triple ` set ws \<subseteq> A"
      using assms(2) by (auto simp: s(1) Cons elements_ok_def sorted_wrt_append c_def)
    consider "pe_triple v = pe_triple e" | "key_compare c (pe_triple e) (pe_triple v) < 0"
      using comparison.cmp_total [OF cmp v(1) assms(3)] s(3) Cons by (auto simp: element_less_def)
    then show ?thesis
    proof cases
      case 1
      then show ?thesis using v(2) Cons by (simp add: element_less_def)
    next
      case 2
      then have "\<forall>y\<in>set ws. element_less c e y"
        using v comparison.cmp_trans [OF cmp assms(3) v(1)] unfolding element_less_def by blast
      then show ?thesis using 2 Cons by (simp add: element_less_def)
    qed
  qed simp
  with s that show ?thesis unfolding c_def by blast
qed

lemma ps_add_comparator [simp]: "ps_comparator (ps_add e p) = ps_comparator p"
  by (simp add: ps_add_def Let_def)

lemma ps_add_ok:
  assumes "comparison (key_compare (ps_comparator p)) A" "ps_ok A p" "pe_triple e \<in> A"
  shows "ps_ok A (ps_add e p)"
    "patch_map (ps_elements (ps_add e p)) =
       (patch_map (ps_elements p))(pe_triple e \<mapsto> merged_flags (patch_map (ps_elements p) (pe_triple e)) e)"
proof -
  obtain us vs where s: "ps_elements p = us @ vs" "ps_position e p = length us"
    "\<forall>x\<in>set us. element_less (ps_comparator p) x e"
    "vs = [] \<or> pe_triple (hd vs) = pe_triple e \<and> (\<forall>y\<in>set (tl vs). element_less (ps_comparator p) e y) \<or>
     (\<forall>y\<in>set vs. element_less (ps_comparator p) e y)"
    by (rule ps_position_split [OF assms])
  define c where "c = ps_comparator p"
  note cmp = assms(1) [folded c_def]
  have irr: "\<not> element_less c x y" if "pe_triple x = pe_triple y" "pe_triple x \<in> A" for x y
    using that comparison.cmp_self [OF cmp] by (simp add: element_less_def)
  have inA: "pe_triple ` set us \<subseteq> A" "pe_triple ` set vs \<subseteq> A"
    using assms(2) by (auto simp: s(1) elements_ok_def)
  have eus: "pe_triple e \<notin> pe_triple ` set us" using s(3) irr inA(1) unfolding c_def by force
  consider v ws where "vs = v # ws" "pe_triple v = pe_triple e" "\<forall>y\<in>set ws. element_less c e y"
    | "pe_triple e \<notin> pe_triple ` set vs" "\<forall>y\<in>set vs. element_less c e y"
    using s(4) irr assms(3) unfolding c_def by (cases vs) (auto, force+)
  then have "ps_ok A (ps_add e p) \<and> patch_map (ps_elements (ps_add e p)) =
       (patch_map (ps_elements p))(pe_triple e \<mapsto> merged_flags (patch_map (ps_elements p) (pe_triple e)) e)"
  proof cases
    case 1
    define e' where "e' = (if pe_addition v \<noteq> pe_addition e then pe_set_local_change (\<not> pe_local_change v) e else e)"
    have e': "pe_triple e' = pe_triple e" "(pe_addition e', pe_local_change e') =
        merged_flags (Some (pe_addition v, pe_local_change v)) e"
      by (simp_all add: e'_def pe_set_local_change_def merged_flags_def)
    have a: "ps_elements (ps_add e p) = us @ e' # ws"
      using s(1,2) 1 by (simp add: ps_add_def Let_def triple_eq_iff e'_def)
    have "ps_ok A (ps_add e p)"
      using assms(2,3) 1 e'(1) s(1,3) a
      by (auto simp: elements_ok_append elements_ok_Cons element_less_def c_def)
    moreover have "patch_map us (pe_triple e) = None" using eus by (simp add: patch_map_None)
    ultimately show ?thesis
      using 1(2) e' by (simp add: a s(1) 1(1) patch_map_append map_add_def fun_eq_iff split: option.split)
  next
    case 2
    have a: "ps_elements (ps_add e p) = us @ e # vs"
      using s(1,2) 2(1) by (cases vs) (auto simp: ps_add_def Let_def triple_eq_iff insert_at_def)
    have "ps_ok A (ps_add e p)"
      using assms(2,3) 2 s(1,3) a by (auto simp: elements_ok_append elements_ok_Cons c_def)
    moreover have "patch_map us (pe_triple e) = None" "patch_map vs (pe_triple e) = None"
      using eus 2(1) by (simp_all add: patch_map_None)
    ultimately show ?thesis
      by (simp add: a s(1) patch_map_append map_add_def fun_eq_iff merged_flags_def split: option.split)
  qed
  then show "ps_ok A (ps_add e p)"
    "patch_map (ps_elements (ps_add e p)) =
       (patch_map (ps_elements p))(pe_triple e \<mapsto> merged_flags (patch_map (ps_elements p) (pe_triple e)) e)"
    by blast+
qed


text \<open>Two sorted patches with the same map are the same.\<close>

lemma elements_eq:
  assumes "comparison (key_compare c) A" "elements_ok c A xs" "elements_ok c A ys" "patch_map xs = patch_map ys"
  shows "xs = ys"
  using assms(2-4)
proof (induction xs arbitrary: ys)
  case Nil
  then show ?case by (cases ys) (auto dest: fun_cong [of _ _ "pe_triple (hd ys)"] split: if_splits)
next
  case (Cons x xs)
  note cmp = assms(1)
  have irr: "\<not> element_less c a b" if "pe_triple a = pe_triple b" "pe_triple a \<in> A" for a b
    using that comparison.cmp_self [OF cmp] by (simp add: element_less_def)
  from Cons.prems(3) obtain y ys' where y: "ys = y # ys'"
    by (cases ys) (auto dest: fun_cong [of _ _ "pe_triple x"])
  have ok: "elements_ok c A xs" "elements_ok c A ys'" "pe_triple x \<in> A" "pe_triple y \<in> A"
    "\<forall>z\<in>set xs. element_less c x z" "\<forall>z\<in>set ys'. element_less c y z"
    using Cons.prems(1,2) by (auto simp: y elements_ok_Cons)
  have sets: "insert (pe_triple x) (pe_triple ` set xs) = insert (pe_triple y) (pe_triple ` set ys')"
  proof -
    have "pe_triple ` set (x # xs) = pe_triple ` set ys"
    proof (rule set_eqI)
      fix t
      have "t \<notin> pe_triple ` set (x # xs) \<longleftrightarrow> t \<notin> pe_triple ` set ys"
        unfolding patch_map_None [symmetric] Cons.prems(3) ..
      then show "t \<in> pe_triple ` set (x # xs) \<longleftrightarrow> t \<in> pe_triple ` set ys" by blast
    qed
    then show ?thesis using y by simp
  qed
  have t: "pe_triple x = pe_triple y"
  proof (rule ccontr)
    assume n: "pe_triple x \<noteq> pe_triple y"
    have "pe_triple x \<in> pe_triple ` set ys'" "pe_triple y \<in> pe_triple ` set xs" 
      using n insertI1 [of "pe_triple x" "pe_triple ` set xs", unfolded sets]
        insertI1 [of "pe_triple y" "pe_triple ` set ys'", folded sets] by simp_all
    from this(1) obtain u where u: "pe_triple x = pe_triple u" "u \<in> set ys'" by (rule imageE)
    from \<open>pe_triple y \<in> pe_triple ` set xs\<close> obtain v where v: "pe_triple y = pe_triple v" "v \<in> set xs" by (rule imageE)
    have "element_less c y x" "element_less c x y"
      using bspec [OF ok(5) v(2)] bspec [OF ok(6) u(2)] u(1) v(1) by (simp_all add: element_less_def)
    then show False using comparison.cmp_asym [OF cmp ok(3,4)] by (simp add: element_less_def)
  qed
  have nin: "pe_triple x \<notin> pe_triple ` set xs" "pe_triple y \<notin> pe_triple ` set ys'"
    using ok(3-6) irr by force+
  have "patch_map (x # xs) (pe_triple x) = patch_map (y # ys') (pe_triple x)"
    using fun_cong [OF Cons.prems(3), of "pe_triple x"] y by (simp only:)
  then have "x = y" using t by (intro element_eqI) simp_all
  moreover have "patch_map xs u = patch_map ys' u" for u
  proof (cases "u = pe_triple x")
    case True
    then show ?thesis using nin t by (metis patch_map_None)
  next
    case False
    then show ?thesis using fun_cong [OF Cons.prems(3), of u] t y by simp
  qed
  then have "xs = ys'" using Cons.IH [OF ok(1,2)] by blast
  ultimately show ?case using y by simp
qed

lemma set_insort_less [simp]: "set (insort_less lt x xs) = insert x (set xs)"
  by (induction lt x xs rule: insort_less.induct) auto

lemma set_std_sort [simp]: "set (std_sort lt xs) = set xs"
  by (induction xs) (simp_all add: std_sort_def)

lemma insort_less_ok:
  assumes "comparison (key_compare c) A" "elements_ok c A xs" "pe_triple x \<in> A" "pe_triple x \<notin> pe_triple ` set xs"
  shows "elements_ok c A (insort_less (element_less c) x xs)"
  using assms(2,4)
proof (induction xs)
  case Nil
  then show ?case using assms(3) by (simp add: elements_ok_def)
next
  case (Cons y ys)
  note cmp = assms(1)
  have y: "pe_triple y \<in> A" "elements_ok c A ys" "\<forall>z\<in>set ys. element_less c y z" "pe_triple ` set ys \<subseteq> A"
    using Cons.prems(1) by (auto simp: elements_ok_def)
  show ?case
  proof (cases "element_less c y x")
    case True
    then show ?thesis using Cons y by (simp add: elements_ok_Cons)
  next
    case False
    then have xy: "element_less c x y"
      using comparison.cmp_total [OF cmp assms(3) y(1)] Cons.prems(2) by (auto simp: element_less_def)
    then have "\<forall>z\<in>set ys. element_less c x z"
      using y comparison.cmp_trans [OF cmp assms(3) y(1)] unfolding element_less_def by blast
    then show ?thesis using False xy y assms(3) Cons.prems by (simp add: elements_ok_Cons)
  qed
qed

lemma std_sort_ok:
  assumes "comparison (key_compare c) A" "pe_triple ` set xs \<subseteq> A" "distinct (map pe_triple xs)"
  shows "elements_ok c A (std_sort (element_less c) xs)"
  using assms(2,3)
proof (induction xs)
  case Nil
  then show ?case by (simp add: std_sort_def elements_ok_def)
next
  case (Cons x xs)
  have "elements_ok c A (insort_less (element_less c) x (std_sort (element_less c) xs))"
    by (rule insort_less_ok [OF assms(1)]) (use Cons in auto)
  then show ?case by (simp add: std_sort_def)
qed

lemma patch_map_Some:
  "distinct (map pe_triple es) \<Longrightarrow>
   patch_map es t = Some f \<longleftrightarrow> (\<exists>e\<in>set es. pe_triple e = t \<and> f = (pe_addition e, pe_local_change e))"
  by (induction es) (auto simp: image_iff)

lemma elements_ok_distinct:
  assumes "comparison (key_compare c) A" "elements_ok c A es"
  shows "distinct (map pe_triple es)"
  using assms(2)
proof (induction es)
  case (Cons e es)
  then show ?case using comparison.cmp_self [OF assms(1), of "pe_triple e"]
    by (auto simp: elements_ok_Cons element_less_def)
qed simp

lemma patch_map_sort:
  assumes "comparison (key_compare c) A" "pe_triple ` set xs \<subseteq> A" "distinct (map pe_triple xs)"
  shows "patch_map (std_sort (element_less c) xs) = patch_map xs"
proof
  fix t
  have d: "distinct (map pe_triple (std_sort (element_less c) xs))"
    by (rule elements_ok_distinct [OF assms(1) std_sort_ok [OF assms]])
  have "patch_map (std_sort (element_less c) xs) t = Some f \<longleftrightarrow> patch_map xs t = Some f" for f
    unfolding patch_map_Some [OF d] patch_map_Some [OF assms(3)] by simp
  then show "patch_map (std_sort (element_less c) xs) t = patch_map xs t"
    by (metis not_Some_eq)
qed

abbreviation element_of :: "patch_element list \<Rightarrow> triple \<Rightarrow> patch_element option" where
  "element_of es t \<equiv> find (\<lambda>e. pe_triple e = t) es"

lemma element_of_Some: "element_of es t = Some e \<Longrightarrow> e \<in> set es \<and> pe_triple e = t"
  by (metis (mono_tags, lifting) find_Some_iff nth_mem)

lemma element_of_None: "element_of es t = None \<longleftrightarrow> t \<notin> pe_triple ` set es"
  by (auto simp: find_None_iff)

lemma element_of_map: "patch_map es t = map_option (\<lambda>e. (pe_addition e, pe_local_change e)) (element_of es t)"
  by (induction es) auto

lemma ps_add_all_ok:
  assumes "comparison (key_compare (ps_comparator p)) A" "ps_ok A p" "pe_triple ` set es \<subseteq> A"
    "distinct (map pe_triple es)"
  shows "ps_comparator (ps_add_all es p) = ps_comparator p" "ps_ok A (ps_add_all es p)"
    "patch_map (ps_elements (ps_add_all es p)) t =
       (case element_of es t of None \<Rightarrow> patch_map (ps_elements p) t
        | Some e \<Rightarrow> Some (merged_flags (patch_map (ps_elements p) t) e))"
  using assms
proof (induction es arbitrary: p)
  case Nil
  { case 1 then show ?case by (simp add: ps_add_all_def) }
  { case 2 then show ?case by (simp add: ps_add_all_def) }
  { case 3 then show ?case by (simp add: ps_add_all_def) }
next
  case (Cons e es)
  have step: "ps_add_all (e # es) p = ps_add_all es (ps_add e p)" for p by (simp add: ps_add_all_def)
  { case 1
    then have "ps_ok A (ps_add e p)" using ps_add_ok(1) by simp
    with 1 Cons(1) [of "ps_add e p"] show ?case by (simp add: step) }
  { case 2
    then have "ps_ok A (ps_add e p)" using ps_add_ok(1) by simp
    with 2 Cons(2) [of "ps_add e p"] show ?case by (simp add: step) }
  { case 3
    then have a: "ps_ok A (ps_add e p)" "patch_map (ps_elements (ps_add e p)) =
       (patch_map (ps_elements p))(pe_triple e \<mapsto> merged_flags (patch_map (ps_elements p) (pe_triple e)) e)"
      using ps_add_ok by simp_all
    have ne: "element_of es (pe_triple e) = None" using 3 by (simp add: element_of_None)
    show ?case using 3 Cons(3) [of "ps_add e p"] a ne by (auto simp: step split: option.split) }
qed


lemma join_element_triple [simp]: "pe_triple (join_element h e) = pe_triple e"
  by (simp add: join_element_def pe_set_local_change_def split: option.split)

lemma join_element_flags:
  "(pe_addition (join_element h e), pe_local_change (join_element h e)) =
   merged_flags (map_of (ph_elements h) (pe_triple e)) e"
  by (auto simp: join_element_def pe_set_local_change_def merged_flags_def split: option.split)

lemma ps_add_unsorted_foldl:
  "foldl (\<lambda>p e. ps_add_unsorted (f e) p) p es = p\<lparr> ps_elements := ps_elements p @ map f es \<rparr>"
  by (induction es arbitrary: p) (simp_all add: ps_add_unsorted_def)

definition joined_elements :: "patch_element list \<Rightarrow> patch_hashed \<Rightarrow> patch_element list" where
  "joined_elements vec h =
     map (join_element h) vec @
     filter (\<lambda>e. pe_triple e \<notin> pe_triple ` set vec) (ph_iterate h)"

lemma ph_iterate_triples [simp]: "map pe_triple (ph_iterate h) = map fst (ph_elements h)"
  by (auto simp: ph_iterate_def pe_make_def)

lemma ph_iterate_map: "patch_map (ph_iterate h) = map_of (ph_elements h)"
proof -
  have "map (\<lambda>e. (pe_triple e, pe_addition e, pe_local_change e)) (ph_iterate h) = ph_elements h"
    by (simp add: ph_iterate_def comp_def pe_make_def case_prod_unfold)
  then show ?thesis by (simp add: patch_map_def)
qed

lemma ph_join_sorted_elements:
  "ph_join_sorted vec c h = ps_new c (std_sort (element_less c) (joined_elements vec h))"
proof (cases "ph_elements h = []")
  case True
  then have "map (join_element h) vec = vec" by (simp add: join_element_def map_idI)
  then show ?thesis
    using True by (simp add: ph_join_sorted_def ph_get_size_def joined_elements_def ph_iterate_def ps_sort_def ps_new_def)
next
  case False
  have sk: "t \<in> join_skipped h vec \<longleftrightarrow> t \<in> pe_triple ` set vec" if "t \<in> fst ` set (ph_elements h)" for t
    using that map_of_eq_None_iff [of "ph_elements h" t] by (auto simp: join_skipped_def)
  have f: "map (\<lambda>(t, addition, local_change). pe_make t addition local_change)
      (filter (\<lambda>(t, _). t \<notin> join_skipped h vec) (ph_elements h)) =
      filter (\<lambda>e. pe_triple e \<notin> pe_triple ` set vec) (ph_iterate h)"
    unfolding ph_iterate_def filter_map
    by (rule arg_cong [of _ _ "map _"], rule filter_cong) (use sk in \<open>force simp: pe_make_def\<close>)+
  have u: "foldl (\<lambda>p (t, addition, local_change). ps_add_unsorted (pe_make t addition local_change) p) q xs =
      q\<lparr> ps_elements := ps_elements q @ map (\<lambda>(t, addition, local_change). pe_make t addition local_change) xs \<rparr>"
    for q xs using ps_add_unsorted_foldl [of "\<lambda>(t, addition, local_change). pe_make t addition local_change" q xs]
    by (simp add: case_prod_unfold)
  show ?thesis
    using False by (simp add: ph_join_sorted_def ph_get_size_def Let_def ps_add_unsorted_foldl u f
        joined_elements_def ps_sort_def ps_new_def)
qed

lemma joined_elements_ok:
  assumes "distinct (map pe_triple vec)" "distinct (map fst (ph_elements h))"
  shows "distinct (map pe_triple (joined_elements vec h))"
    "patch_map (joined_elements vec h) t =
       (case element_of vec t of None \<Rightarrow> map_of (ph_elements h) t
        | Some e \<Rightarrow> Some (merged_flags (map_of (ph_elements h) t) e))"
proof -
  have di: "distinct (map pe_triple (ph_iterate h))" using assms(2) by simp
  then show d: "distinct (map pe_triple (joined_elements vec h))"
    using assms(1)
    by (simp add: joined_elements_def comp_def distinct_map_filter disjoint_iff image_iff del: ph_iterate_triples) metis
  show "patch_map (joined_elements vec h) t =
       (case element_of vec t of None \<Rightarrow> map_of (ph_elements h) t
        | Some e \<Rightarrow> Some (merged_flags (map_of (ph_elements h) t) e))"
  proof (cases "element_of vec t")
    case None
    then have nt: "t \<notin> pe_triple ` set vec" by (simp add: element_of_None)
    have "patch_map (joined_elements vec h) t = Some f \<longleftrightarrow> patch_map (ph_iterate h) t = Some f" for f
      unfolding patch_map_Some [OF d] patch_map_Some [OF di] using nt
      by (auto simp: joined_elements_def)
    then have "patch_map (joined_elements vec h) t = patch_map (ph_iterate h) t" by (metis not_Some_eq)
    then show ?thesis using None by (simp add: ph_iterate_map)
  next
    case (Some e)
    then have e: "e \<in> set vec" "pe_triple e = t" using element_of_Some by blast+
    have "patch_map (joined_elements vec h) t = Some (pe_addition (join_element h e), pe_local_change (join_element h e))"
      unfolding patch_map_Some [OF d]
      by (intro bexI [of _ "join_element h e"]) (use e in \<open>simp_all add: joined_elements_def\<close>)
    then show ?thesis using Some e(2) join_element_flags [of h e] by simp
  qed
qed

text \<open>The place of a triple depends on the triple alone.\<close>

lemma ps_position_triple: "pe_triple e = pe_triple e' \<Longrightarrow> ps_position e p = ps_position e' p"
  by (simp add: ps_position_def element_less_def)

lemma pe_new_sel [simp]: "pe_triple (pe_new t b) = t" "pe_addition (pe_new t b) = b"
  by (simp_all add: pe_new_def)

lemma ps_index_present:
  assumes "comparison (key_compare (ps_comparator p)) A" "ps_ok A p" "t \<in> A" "t \<in> pe_triple ` set (ps_elements p)"
  shows "\<exists>i < length (ps_elements p). ps_index_of_triple t p = int i \<and> pe_triple (ps_elements p ! i) = t \<and>
    ps_position (pe_new t b) p = i"
proof -
  obtain us vs where s: "ps_elements p = us @ vs" "ps_position (pe_new t b) p = length us"
    "\<forall>x\<in>set us. element_less (ps_comparator p) x (pe_new t b)"
    "vs = [] \<or> pe_triple (hd vs) = pe_triple (pe_new t b) \<and>
       (\<forall>y\<in>set (tl vs). element_less (ps_comparator p) (pe_new t b) y) \<or>
     (\<forall>y\<in>set vs. element_less (ps_comparator p) (pe_new t b) y)"
    by (rule ps_position_split [OF assms(1,2), of "pe_new t b"]) (simp add: pe_new_def assms(3))
  have irr: "pe_triple x = t \<Longrightarrow> \<not> element_less (ps_comparator p) x (pe_new t b) \<and>
      \<not> element_less (ps_comparator p) (pe_new t b) x" for x
    using comparison.cmp_self [OF assms(1,3)] by (simp add: element_less_def pe_new_def)
  have "t \<in> pe_triple ` set vs" using assms(4) s(1,3) irr by auto
  then have vs: "vs \<noteq> []" "pe_triple (hd vs) = t" using s(4) irr by (auto simp: pe_new_def)
  have pos: "ps_position (pe_new t b') p = length us" for b'
    using ps_position_triple [of "pe_new t b'" "pe_new t b"] s(2) by (simp add: pe_new_def)
  have "ps_elements p ! length us = hd vs" using s(1) vs(1) by (simp add: nth_append hd_conv_nth)
  moreover have "length us < length (ps_elements p)" using s(1) vs(1) by simp
  moreover from calculation have "ps_index_of_triple t p = int (length us)"
    using vs(2) by (auto simp: ps_index_of_triple_def pos Let_def pe_eq_def triple_eq_iff)
  ultimately show ?thesis using vs(2) s(2) by auto
qed

lemma ps_index_absent:
  assumes "t \<notin> pe_triple ` set (ps_elements p)"
  shows "ps_index_of_triple t p = - 1"
proof -
  have "pe_triple (ps_elements p ! i) \<noteq> t" if "i < length (ps_elements p)" for i
    using that assms by (metis image_eqI nth_mem)
  moreover have "ps_position e p \<le> length (ps_elements p)" for e
    by (simp add: ps_position_def lower_bound_le_length)
  ultimately show ?thesis
    by (auto simp: ps_index_of_triple_def Let_def pe_eq_def triple_eq_iff pe_new_def le_less)
qed

section \<open>Counting positions\<close>

text \<open>The positions of a sequence of deletions.\<close>

fun positions_run :: "('h, u64) hash_db \<Rightarrow> 'h position_counters \<Rightarrow> triple list \<Rightarrow> patch_positions list" where
  "positions_run db c [] = []"
| "positions_run db c (t # ts) = (case positions db t c of (p, c') \<Rightarrow> p # positions_run db c' ts)"

text \<open>How many of the earlier deletions have the same hash.\<close>

definition occurrences :: "(triple \<Rightarrow> 'a) \<Rightarrow> triple list \<Rightarrow> 'a \<Rightarrow> int" where
  "occurrences f us k = int (length (filter (\<lambda>u. f u = k) us))"

definition counts :: "('h, u64) hash_db \<Rightarrow> (triple \<Rightarrow> u64) \<Rightarrow> triple list \<Rightarrow> 'h \<Rightarrow> bool" where
  "counts db f us h \<longleftrightarrow>
     (\<forall>k. (case hash_get db h k of None \<Rightarrow> 0 | Some n \<Rightarrow> n) = occurrences f us k)"

lemma counts_step:
  assumes "hash_laws db" "counts db f us h"
  shows "\<exists>h'. contains_and_increment_position db (f t) h = (occurrences f us (f t), h') \<and> counts db f (us @ [t]) h'"
  using assms(2) hash_lawsD(1) [OF assms(1)]
  by (auto simp: contains_and_increment_position_def counts_def occurrences_def Let_def)

definition sp_hash :: "triple \<Rightarrow> u64" where "sp_hash t = pattern_hash (subject t) (predicate t)"
definition so_hash :: "triple \<Rightarrow> u64" where "so_hash t = pattern_hash (subject t) (object t)"
definition po_hash :: "triple \<Rightarrow> u64" where "po_hash t = pattern_hash (predicate t) (object t)"

definition counters_ok :: "('h, u64) hash_db \<Rightarrow> triple list \<Rightarrow> 'h position_counters \<Rightarrow> bool" where
  "counters_ok db us c \<longleftrightarrow>
     counts db sp_hash us (pc_sp c) \<and> counts db so_hash us (pc_so c) \<and> counts db subject us (pc_s c) \<and>
     counts db po_hash us (pc_po c) \<and> counts db predicate us (pc_p c) \<and> counts db object us (pc_o c) \<and>
     pc_all c = int (length us)"

definition hashed_positions :: "triple list \<Rightarrow> triple \<Rightarrow> patch_positions" where
  "hashed_positions us t =
     \<lparr> pp_sp = occurrences sp_hash us (sp_hash t), pp_so = occurrences so_hash us (so_hash t),
       pp_s = occurrences subject us (subject t), pp_po = occurrences po_hash us (po_hash t),
       pp_p = occurrences predicate us (predicate t), pp_o = occurrences object us (object t),
       pp_all = int (length us) \<rparr>"

lemma positions_step:
  assumes "hash_laws db" "counters_ok db us c"
  shows "\<exists>c'. positions db t c = (hashed_positions us t, c') \<and> counters_ok db (us @ [t]) c'"
proof -
  note st = counts_step [OF assms(1)]
  have c: "counts db sp_hash us (pc_sp c)" "counts db so_hash us (pc_so c)" "counts db subject us (pc_s c)"
    "counts db po_hash us (pc_po c)" "counts db predicate us (pc_p c)" "counts db object us (pc_o c)"
    "pc_all c = int (length us)"
    using assms(2) by (simp_all add: counters_ok_def)
  obtain h1 where 1: "contains_and_increment_position db (sp_hash t) (pc_sp c) = (occurrences sp_hash us (sp_hash t), h1)"
    "counts db sp_hash (us @ [t]) h1" using st [OF c(1), of t] by blast
  obtain h2 where 2: "contains_and_increment_position db (so_hash t) (pc_so c) = (occurrences so_hash us (so_hash t), h2)"
    "counts db so_hash (us @ [t]) h2" using st [OF c(2), of t] by blast
  obtain h3 where 3: "contains_and_increment_position db (subject t) (pc_s c) = (occurrences subject us (subject t), h3)"
    "counts db subject (us @ [t]) h3" using st [OF c(3), of t] by blast
  obtain h4 where 4: "contains_and_increment_position db (po_hash t) (pc_po c) = (occurrences po_hash us (po_hash t), h4)"
    "counts db po_hash (us @ [t]) h4" using st [OF c(4), of t] by blast
  obtain h5 where 5: "contains_and_increment_position db (predicate t) (pc_p c) = (occurrences predicate us (predicate t), h5)"
    "counts db predicate (us @ [t]) h5" using st [OF c(5), of t] by blast
  obtain h6 where 6: "contains_and_increment_position db (object t) (pc_o c) = (occurrences object us (object t), h6)"
    "counts db object (us @ [t]) h6" using st [OF c(6), of t] by blast
  show ?thesis
    using 1 2 3 4 5 6 c(7)
    by (simp add: positions_def Let_def counters_ok_def hashed_positions_def
        flip: sp_hash_def so_hash_def po_hash_def)
qed

lemma positions_run_nth:
  assumes "hash_laws db" "counters_ok db us c" "i < length ts"
  shows "positions_run db c ts ! i = hashed_positions (us @ take i ts) (ts ! i)"
  using assms(2,3)
proof (induction ts arbitrary: us c i)
  case (Cons t ts)
  obtain c' where c: "positions db t c = (hashed_positions us t, c')" "counters_ok db (us @ [t]) c'"
    using positions_step [OF assms(1) Cons.prems(1)] by blast
  show ?case
  proof (cases i)
    case 0
    then show ?thesis using c(1) by simp
  next
    case (Suc j)
    then show ?thesis using c Cons.IH [OF c(2), of j] Cons.prems(2) by simp
  qed
qed simp

text \<open>Below \<open>2 ^ 16\<close> the hash of two ids tells them apart.\<close>

definition id16 :: "u64 \<Rightarrow> bool" where
  "id16 i \<longleftrightarrow> 0 < i \<and> take_bit 16 i = i"

lemma pattern_hash_parts:
  assumes "take_bit 16 a = a" "take_bit 16 b = b"
  shows "take_bit 16 (pattern_hash a b) = a" "drop_bit 16 (pattern_hash a b) = b"
proof -
  have ba: "bit a n \<Longrightarrow> n < 16" "bit b n \<Longrightarrow> n < 16" for n
    using assms by (metis bit_take_bit_iff)+
  show "take_bit 16 (pattern_hash a b) = a"
    by (rule bit_word_eqI) (use ba in \<open>auto simp: pattern_hash_def bit_simps\<close>)
  show "drop_bit 16 (pattern_hash a b) = b"
    by (rule bit_word_eqI) (use ba in \<open>auto simp: pattern_hash_def bit_simps dest: ba\<close>)
qed

lemma pattern_hash_inj:
  "id16 a \<Longrightarrow> id16 b \<Longrightarrow> id16 a' \<Longrightarrow> id16 b' \<Longrightarrow> pattern_hash a b = pattern_hash a' b' \<longleftrightarrow> a = a' \<and> b = b'"
  using pattern_hash_parts [of a b] pattern_hash_parts [of a' b'] by (auto simp: id16_def)

definition triple16 :: "triple \<Rightarrow> bool" where
  "triple16 t \<longleftrightarrow> id16 (subject t) \<and> id16 (predicate t) \<and> id16 (object t)"

text \<open>The patterns a triple matches with at least one blank.\<close>

definition pattern_of :: "bool \<Rightarrow> bool \<Rightarrow> bool \<Rightarrow> triple \<Rightarrow> triple" where
  "pattern_of s p ob t =
     mk_triple (if s then subject t else 0) (if p then predicate t else 0) (if ob then object t else 0)"

lemma hashed_positions_pattern:
  assumes "triple16 t" "\<forall>u\<in>set us. triple16 u" "\<not> (s \<and> p \<and> ob)"
  shows "get_by_pattern (hashed_positions us t) (pattern_of s p ob t) =
    int (length (filter (\<lambda>u. pattern_match_triple u (pattern_of s p ob t)) us))"
proof -
  have t: "id16 (subject t)" "id16 (predicate t)" "id16 (object t)" using assms(1) by (simp_all add: triple16_def)
  have z: "subject t \<noteq> 0" "predicate t \<noteq> 0" "object t \<noteq> 0" "0 < subject t" "0 < predicate t" "0 < object t"
    using t by (auto simp: id16_def)
  have h: "u \<in> set us \<Longrightarrow> sp_hash u = sp_hash t \<longleftrightarrow> subject u = subject t \<and> predicate u = predicate t"
    "u \<in> set us \<Longrightarrow> so_hash u = so_hash t \<longleftrightarrow> subject u = subject t \<and> object u = object t"
    "u \<in> set us \<Longrightarrow> po_hash u = po_hash t \<longleftrightarrow> predicate u = predicate t \<and> object u = object t" for u
    using assms(2) t pattern_hash_inj
    by (auto simp: sp_hash_def so_hash_def po_hash_def triple16_def)
  have f: "filter (\<lambda>u. sp_hash u = sp_hash t) us = filter (\<lambda>u. subject t = subject u \<and> predicate t = predicate u) us"
    "filter (\<lambda>u. so_hash u = so_hash t) us = filter (\<lambda>u. subject t = subject u \<and> object t = object u) us"
    "filter (\<lambda>u. po_hash u = po_hash t) us = filter (\<lambda>u. predicate t = predicate u \<and> object t = object u) us"
    by (rule filter_cong [OF refl], use h in auto)+
  show ?thesis
    using assms(3) z
    by (cases s; cases p; cases ob)
      (simp_all add: get_by_pattern_def hashed_positions_def pattern_of_def pattern_match_triple_def
        f occurrences_def
        eq_commute [of _ "subject t"] eq_commute [of _ "predicate t"] eq_commute [of _ "object t"])
qed

section \<open>Properties\<close>

text \<open>C20: A sorted patch is an ordered map from triples: \<open>add\<close> keeps the elements in the strict order of the
  triples and changes the entry of one triple only. A new triple gets the flags of the element; a triple
  that is there gets its type, and when the type changes, the opposite of its local change flag.\<close>

theorem patch_sorted_add:
  assumes "comparison (key_compare (ps_comparator p)) A" "ps_ok A p" "pe_triple e \<in> A"
  shows "ps_ok A (ps_add e p) \<and>
    patch_map (ps_elements (ps_add e p)) =
      (patch_map (ps_elements p))(pe_triple e \<mapsto>
        (pe_addition e,
         case patch_map (ps_elements p) (pe_triple e) of
           None \<Rightarrow> pe_local_change e
         | Some (addition, local_change) \<Rightarrow>
             if addition \<noteq> pe_addition e then \<not> local_change else pe_local_change e))"
  using ps_add_ok [OF assms] by (simp add: merged_flags_def)

text \<open>C21: The bulk merge of a hashed patch with another patch that has no two elements of the same triple gives
  the sorted patch that adding all elements of the hashed patch and then all elements of the other one at a
  time gives.\<close>

theorem join_sorted_adds_all:
  assumes "comparison (key_compare c) A" "distinct (map pe_triple vec)" "distinct (map fst (ph_elements h))"
    "pe_triple ` set vec \<subseteq> A" "fst ` set (ph_elements h) \<subseteq> A"
  shows "ph_join_sorted vec c h = ps_add_all vec (ps_add_all (ph_iterate h) (ps_new c []))"
proof -
  define p where "p = ps_add_all (ph_iterate h) (ps_new c [])"
  define q where "q = ps_add_all vec p"
  have it: "pe_triple ` set (ph_iterate h) \<subseteq> A" "distinct (map pe_triple (ph_iterate h))"
    using assms(3,5) by (simp_all flip: set_map)
  have n: "ps_comparator (ps_new c []) = c" "ps_ok A (ps_new c [])" "patch_map (ps_elements (ps_new c [])) = Map.empty"
    by (simp_all add: ps_new_def elements_ok_def)
  note pa = ps_add_all_ok [OF _ n(2) it, unfolded n(1), OF assms(1), folded p_def]
  have "patch_map (ps_elements p) t = patch_map (ph_iterate h) t" for t
    by (simp add: pa(3) n(3) element_of_map [of "ph_iterate h"] merged_flags_def split: option.split)
  then have pm: "patch_map (ps_elements p) t = map_of (ph_elements h) t" for t by (simp add: ph_iterate_map)
  have okp: "ps_ok A p" using pa(1,2) by simp
  note qa = ps_add_all_ok [OF _ okp assms(4,2), unfolded pa(1), OF assms(1), folded q_def]
  define js where "js = std_sort (element_less c) (joined_elements vec h)"
  have jA: "pe_triple ` set (joined_elements vec h) \<subseteq> A"
    using assms(4) it(1) by (auto simp: joined_elements_def)
  note j = joined_elements_ok [OF assms(2,3)]
  have "js = ps_elements q"
  proof (rule elements_eq [OF assms(1)])
    show "elements_ok c A js" unfolding js_def by (rule std_sort_ok [OF assms(1) jA j(1)])
    show "elements_ok c A (ps_elements q)" using qa(1,2) by simp
    show "patch_map js = patch_map (ps_elements q)"
      unfolding js_def patch_map_sort [OF assms(1) jA j(1)] by (rule ext) (simp add: j(2) qa(3) pm split: option.split)
  qed
  then have "ps_new c js = q" using qa(1) by (simp add: ps_new_def)
  then show ?thesis unfolding ph_join_sorted_elements js_def q_def p_def .
qed


lemma example_comparison: "comparison (key_compare (spo_comparator example_manager)) (known_keys example_manager)"
  by (rule key_comparison(1) [OF example_sorted]) (simp add: example_bounds)

theorem patch_sorted_add_witness:
  "patch_map (ps_elements (ps_add (pe_new (mk_triple 1 1 2) True)
      (ps_new (spo_comparator example_manager) [pe_new (mk_triple 1 1 2) False]))) (mk_triple 1 1 2) =
   Some (True, True)"
  using patch_sorted_add [of "ps_new (spo_comparator example_manager) [pe_new (mk_triple 1 1 2) False]"
      "known_keys example_manager" "pe_new (mk_triple 1 1 2) True"]
    example_comparison example_known(3)
  by (simp add: ps_new_def elements_ok_def pe_new_def)

theorem join_sorted_adds_all_witness:
  "ph_join_sorted [pe_new (mk_triple 2 1 2) True] (spo_comparator example_manager)
     \<lparr> ph_elements = [(mk_triple 1 1 2, False, False)] \<rparr> =
   ps_add_all [pe_new (mk_triple 2 1 2) True]
     (ps_add_all (ph_iterate \<lparr> ph_elements = [(mk_triple 1 1 2, False, False)] \<rparr>)
       (ps_new (spo_comparator example_manager) []))"
  by (rule join_sorted_adds_all [OF example_comparison])
    (use example_known in \<open>simp_all add: pe_new_def\<close>)

text \<open>C22: \<open>index_of_triple\<close> finds a triple whatever its type: in a sorted patch it is the index of the
  element with this triple, and -1 exactly when the patch has none.\<close>

theorem patch_index_of_triple:
  assumes "comparison (key_compare (ps_comparator p)) A" "ps_ok A p" "t \<in> A"
  shows "if t \<in> pe_triple ` set (ps_elements p)
    then 0 \<le> ps_index_of_triple t p \<and> ps_index_of_triple t p < int (length (ps_elements p)) \<and>
      pe_triple (ps_elements p ! nat (ps_index_of_triple t p)) = t
    else ps_index_of_triple t p = - 1"
  using ps_index_present [OF assms, where b = True] ps_index_absent [of t p] by auto

theorem patch_index_of_triple_witness:
  "ps_index_of_triple (mk_triple 2 1 2) (ps_new (spo_comparator example_manager) [pe_new (mk_triple 1 1 2) False]) = - 1"
  using patch_index_of_triple [of "ps_new (spo_comparator example_manager) [pe_new (mk_triple 1 1 2) False]"
      "known_keys example_manager" "mk_triple 2 1 2"]
    example_comparison example_known
  by (simp add: ps_new_def elements_ok_def pe_new_def)

text \<open>C23: The positions given to a sequence of deletions: for ids below \<open>2 ^ 16\<close>, the position of a deletion
  for any pattern with a blank that it matches is the number of earlier deletions that match the pattern,
  for every pattern of the seven.\<close>

theorem positions_count_matches:
  assumes "hash_laws db" "counters_ok db [] c" "\<forall>t\<in>set ts. triple16 t" "i < length ts" "\<not> (s \<and> p \<and> ob)"
  shows "get_by_pattern (positions_run db c ts ! i) (pattern_of s p ob (ts ! i)) =
    int (length (filter (\<lambda>u. pattern_match_triple u (pattern_of s p ob (ts ! i))) (take i ts)))"
  unfolding positions_run_nth [OF assms(1,2,4), simplified]
  by (rule hashed_positions_pattern [OF _ _ assms(5)]) (use assms(3,4) in \<open>auto dest: in_set_takeD\<close>)

definition cleared_counters :: "(u64 \<times> int) list position_counters" where
  "cleared_counters = \<lparr> pc_sp = [], pc_so = [], pc_s = [], pc_po = [], pc_p = [], pc_o = [], pc_all = 0 \<rparr>"

lemma cleared_counters_ok: "counters_ok list_hash [] cleared_counters"
  by (simp add: counters_ok_def cleared_counters_def counts_def occurrences_def list_hash_def)

theorem positions_count_matches_witness:
  "get_by_pattern (positions_run list_hash cleared_counters [mk_triple 1 2 3, mk_triple 4 2 1, mk_triple 1 2 5] ! 2)
     (mk_triple 1 2 0) = 1"
  using positions_count_matches [OF list_hash_laws cleared_counters_ok,
      of "[mk_triple 1 2 3, mk_triple 4 2 1, mk_triple 1 2 5]" 2 True True False]
  by (simp add: triple16_def id16_def pattern_of_def pattern_match_triple_def)

text \<open>C24: Where the positions go wrong: the position of a deletion for the pattern of its subject and predicate
  is the number of earlier deletions that match the pattern and, on top, of those that do not match it but have
  the same key. For a subject from \<open>2 ^ 16\<close> on and any nonzero predicate there are such triples: those with the
  low 16 bits of the subject as their subject and with the other bits of it put into the predicate.\<close>

theorem positions_collide:
  assumes "hash_laws db" "counters_ok db [] c" "i < length ts" "2 ^ 16 \<le> unat (subject (ts ! i))" "predicate (ts ! i) \<noteq> 0"
  shows "get_by_pattern (positions_run db c ts ! i) (mk_triple (subject (ts ! i)) (predicate (ts ! i)) 0) =
      int (length (filter (\<lambda>u. pattern_match_triple u (mk_triple (subject (ts ! i)) (predicate (ts ! i)) 0)) (take i ts))) +
      int (length (filter (\<lambda>u. \<not> pattern_match_triple u (mk_triple (subject (ts ! i)) (predicate (ts ! i)) 0) \<and>
        pattern_hash (subject u) (predicate u) = pattern_hash (subject (ts ! i)) (predicate (ts ! i))) (take i ts))) \<and>
    (\<forall>ob. let u = mk_triple (take_bit 16 (subject (ts ! i))) (predicate (ts ! i) OR drop_bit 16 (subject (ts ! i))) ob in
      \<not> pattern_match_triple u (mk_triple (subject (ts ! i)) (predicate (ts ! i)) 0) \<and>
      pattern_hash (subject u) (predicate u) = pattern_hash (subject (ts ! i)) (predicate (ts ! i)))"
proof -
  define t where "t = ts ! i"
  define M where "M u \<longleftrightarrow> pattern_match_triple u (mk_triple (subject t) (predicate t) 0)" for u
  have t: "subject t \<noteq> 0" "predicate t \<noteq> 0" "2 ^ 16 \<le> unat (subject t)" using assms(4,5) by (auto simp: t_def)
  have M: "M u \<longleftrightarrow> subject u = subject t \<and> predicate u = predicate t" for u
    using t(1,2) by (auto simp: M_def pattern_match_triple_def)
  have "occurrences sp_hash us (sp_hash t) = int (length (filter M us)) + int (length (filter (\<lambda>u. \<not> M u \<and> sp_hash u = sp_hash t) us))" for us
    by (induction us) (auto simp: occurrences_def M sp_hash_def)
  then have "get_by_pattern (positions_run db c ts ! i) (mk_triple (subject t) (predicate t) 0) =
      int (length (filter M (take i ts))) + int (length (filter (\<lambda>u. \<not> M u \<and> sp_hash u = sp_hash t) (take i ts)))"
    using t(1,2) positions_run_nth [OF assms(1-3)]
    by (simp add: get_by_pattern_def hashed_positions_def word_neq_0_conv flip: t_def)
  moreover have "pattern_hash (take_bit 16 (subject t)) (predicate t OR drop_bit 16 (subject t)) = pattern_hash (subject t) (predicate t)"
    by (rule bit_word_eqI) (auto simp: pattern_hash_def bit_simps)
  moreover have "take_bit 16 (subject t) \<noteq> subject t"
  proof
    assume "take_bit 16 (subject t) = subject t"
    then have "unat (subject t) < 2 ^ 16" by (metis take_bit_nat_less_exp unsigned_take_bit_eq)
    then show False using t(3) by simp
  qed
  ultimately show ?thesis unfolding t_def [symmetric] M_def [symmetric] by (simp add: M [abs_def] sp_hash_def)
qed

theorem positions_collide_witness:
  "get_by_pattern (positions_run list_hash cleared_counters [mk_triple 1 1 1, mk_triple 65537 1 2] ! 1) (mk_triple 65537 1 0) = 1"
proof -
  have "pattern_hash 1 1 = pattern_hash 65537 1" by code_simp
  then show ?thesis
    using positions_collide [OF list_hash_laws cleared_counters_ok, of 1 "[mk_triple 1 1 1, mk_triple 65537 1 2]"]
    by (simp add: pattern_match_triple_def)
qed

end
