(* ===== verification/Triple_Store.thy ===== *)
theory Triple_Store
  imports Patch
begin

text \<open>
  \<open>TripleStore\<close> of \<open>patch/triple_store.{h,cc}\<close>: the three addition trees and the three deletion trees of a
  patch tree, in SPO, POS and OSP order, and the counts of additions per triple pattern. Trees and count
  databases are Kyoto Cabinet values (theory \<open>Kyoto_Cabinet\<close>); \<open>db\<close> and \<open>cdb\<close> are their operations.
\<close>

section \<open>The order of a pattern\<close>

definition is_default_tree :: "triple \<Rightarrow> bool" where
  "is_default_tree triple_pattern \<longleftrightarrow>
     (let s = subject triple_pattern > 0; p = predicate triple_pattern > 0; ob = object triple_pattern > 0
      in (s \<and> p) \<or> (\<not> p \<and> \<not> ob))"

definition get_query_order :: "triple \<Rightarrow> component_order" where
  "get_query_order triple_pattern =
     (let s = subject triple_pattern > 0; p = predicate triple_pattern > 0; ob = object triple_pattern > 0 in
      if s \<and> p \<and> ob then SPO
      else if s \<and> p \<and> \<not> ob then SPO
      else if s \<and> \<not> p \<and> ob then OSP
      else if s \<and> \<not> p \<and> \<not> ob then SPO
      else if \<not> s \<and> p \<and> ob then POS
      else if \<not> s \<and> p \<and> \<not> ob then POS
      else if \<not> s \<and> \<not> p \<and> ob then OSP
      else SPO)"

definition get_query_order_string :: "string_triple \<Rightarrow> component_order" where
  "get_query_order_string triple_pattern =
     (let s = if st_subject triple_pattern = '''' then 0 else 1;
          p = if st_predicate triple_pattern = '''' then 0 else 1;
          ob = if st_object triple_pattern = '''' then 0 else 1
      in get_query_order (mk_triple s p ob))"

section \<open>The store\<close>

record ('t, 'c) triple_store =
  ts_spo_deletions :: 't
  ts_pos_deletions :: 't
  ts_osp_deletions :: 't
  ts_spo_additions :: 't
  ts_pos_additions :: 't
  ts_osp_additions :: 't
  ts_count_additions :: 'c
  ts_temp_count_additions :: 'c
  ts_dict :: dictionary_manager
  ts_flush_additions :: int
  ts_flush_deletions :: int

definition FLUSH_TRIPLES_COUNT :: int where "FLUSH_TRIPLES_COUNT = 500000"
definition MIN_ADDITION_COUNT :: int where "MIN_ADDITION_COUNT = 100"

definition get_additions_tree :: "triple \<Rightarrow> ('t, 'c) triple_store \<Rightarrow> 't" where
  "get_additions_tree triple_pattern st =
     (let order = get_query_order triple_pattern in
      if order = OSP then ts_osp_additions st
      else if order = POS then ts_pos_additions st else ts_spo_additions st)"

definition get_default_additions_tree :: "('t, 'c) triple_store \<Rightarrow> 't" where
  "get_default_additions_tree st = ts_spo_additions st"

definition get_deletions_tree :: "triple \<Rightarrow> ('t, 'c) triple_store \<Rightarrow> 't" where
  "get_deletions_tree triple_pattern st =
     (let order = get_query_order triple_pattern in
      if order = OSP then ts_osp_deletions st
      else if order = POS then ts_pos_deletions st else ts_spo_deletions st)"

definition get_default_deletions_tree :: "('t, 'c) triple_store \<Rightarrow> 't" where
  "get_default_deletions_tree st = ts_spo_deletions st"

definition get_spo_comparator :: "('t, 'c) triple_store \<Rightarrow> key_comparator" where
  "get_spo_comparator st = spo_comparator (ts_dict st)"

section \<open>Insertion\<close>

text \<open>\<open>insertAdditionSingle(key, value, cursor)\<close>: the value goes to the record of the cursor, or to the key
  when no cursor is given (\<open>None\<close>), and to the key in the two other trees. Synchronizing the trees to disk
  only resets the counter here.\<close>

definition insert_addition_value ::
  "'t tree_db \<Rightarrow> triple \<Rightarrow> addition_value \<Rightarrow> cursor option \<Rightarrow> ('t, 'c) triple_store \<Rightarrow> ('t, 'c) triple_store" where
  "insert_addition_value db key value cursor st =
     (let raw_value = av_serialize value;
          spo = (case cursor of
                   Some c \<Rightarrow> cursor_set_value db (ts_spo_additions st) c raw_value
                 | None \<Rightarrow> tree_set db (ts_spo_additions st) key raw_value);
          flush = ts_flush_additions st + 1
      in st\<lparr> ts_spo_additions := spo,
             ts_pos_additions := tree_set db (ts_pos_additions st) key raw_value,
             ts_osp_additions := tree_set db (ts_osp_additions st) key raw_value,
             ts_flush_additions := (if flush > FLUSH_TRIPLES_COUNT then 0 else flush) \<rparr>)"

definition insert_deletion_value ::
  "'t tree_db \<Rightarrow> triple \<Rightarrow> deletion_value \<Rightarrow> deletion_value \<Rightarrow> cursor option \<Rightarrow> ('t, 'c) triple_store \<Rightarrow>
   ('t, 'c) triple_store" where
  "insert_deletion_value db key value value_reduced cursor st =
     (let raw_value = dv_serialize value;
          raw_value_reduced = dv_serialize value_reduced;
          spo = (case cursor of
                   Some c \<Rightarrow> cursor_set_value db (ts_spo_deletions st) c raw_value
                 | None \<Rightarrow> tree_set db (ts_spo_deletions st) key raw_value);
          flush = ts_flush_deletions st + 1
      in st\<lparr> ts_spo_deletions := spo,
             ts_pos_deletions := tree_set db (ts_pos_deletions st) key raw_value_reduced,
             ts_osp_deletions := tree_set db (ts_osp_deletions st) key raw_value_reduced,
             ts_flush_deletions := (if flush > FLUSH_TRIPLES_COUNT then 0 else flush) \<rparr>)"

section \<open>Addition counts\<close>

definition increment_addition_count ::
  "('c, triple_version) hash_db \<Rightarrow> triple_version \<Rightarrow> ('t, 'c) triple_store \<Rightarrow> ('t, 'c) triple_store" where
  "increment_addition_count cdb tv st =
     (let pos = (case hash_get cdb (ts_temp_count_additions st) tv of Some p \<Rightarrow> p | None \<Rightarrow> 0)
      in st\<lparr> ts_temp_count_additions := hash_set cdb (ts_temp_count_additions st) tv (pos + 1) \<rparr>)"

definition tv_key :: "int \<Rightarrow> triple \<Rightarrow> triple_version" where
  "tv_key patch_id t = \<lparr> tv_patch_id = patch_id, tv_triple = t \<rparr>"

definition increment_addition_counts ::
  "('c, triple_version) hash_db \<Rightarrow> int \<Rightarrow> triple \<Rightarrow> ('t, 'c) triple_store \<Rightarrow> ('t, 'c) triple_store" where
  "increment_addition_counts cdb patch_id t st =
     (let inc = (\<lambda>pt. increment_addition_count cdb (tv_key patch_id pt))
      in inc (mk_triple 0 0 (object t))
        (inc (mk_triple 0 0 0)
        (inc (mk_triple 0 (predicate t) (object t))
        (inc (mk_triple 0 (predicate t) 0)
        (inc (mk_triple (subject t) 0 (object t))
        (inc (mk_triple (subject t) 0 0)
        (inc (mk_triple (subject t) (predicate t) 0) st)))))))"

definition get_addition_count ::
  "('c, triple_version) hash_db \<Rightarrow> int \<Rightarrow> triple \<Rightarrow> ('t, 'c) triple_store \<Rightarrow> int" where
  "get_addition_count cdb patch_id t st =
     (case hash_get cdb (ts_count_additions st) (tv_key patch_id t) of Some count \<Rightarrow> count | None \<Rightarrow> 0)"

text \<open>The loop of \<open>flush_addition_counts\<close> steps to the next record before it reads one, so it visits all
  records but the first.\<close>

definition flush_records :: "('c, triple_version) hash_db \<Rightarrow> (triple_version \<times> int) list \<Rightarrow> 'c \<times> int \<Rightarrow> 'c \<times> int" where
  "flush_records cdb records acc =
     foldl (\<lambda>(counts, added) (k, count).
        if count \<ge> MIN_ADDITION_COUNT then (hash_set cdb counts k count, added + 1) else (counts, added))
       acc records"

definition flush_addition_counts ::
  "('c, triple_version) hash_db \<Rightarrow> ('t, 'c) triple_store \<Rightarrow> int \<times> ('t, 'c) triple_store" where
  "flush_addition_counts cdb st =
     (let (counts, added) = flush_records cdb (tl (hash_records cdb (ts_temp_count_additions st)))
                              (ts_count_additions st, 0)
      in (added, st\<lparr> ts_count_additions := counts,
                     ts_temp_count_additions := hash_clear cdb (ts_temp_count_additions st) \<rparr>))"

section \<open>Insertion of one version\<close>

definition insert_addition_single ::
  "'t tree_db \<Rightarrow> ('c, triple_version) hash_db \<Rightarrow> triple \<Rightarrow> int \<Rightarrow> bool \<Rightarrow> bool \<Rightarrow> cursor option \<Rightarrow>
   ('t, 'c) triple_store \<Rightarrow> ('t, 'c) triple_store outcome" where
  "insert_addition_single db cdb key patch_id local_change ignore_existing cursor st =
     bind_outcome
       (if ignore_existing then Inr (av_new patch_id)
        else case (case cursor of None \<Rightarrow> tree_get db (ts_spo_additions st) key
                   | Some c \<Rightarrow> map_option snd (cursor_get db (ts_spo_additions st) c)) of
               Some raw_value \<Rightarrow> av_deserialize raw_value (av_new patch_id)
             | None \<Rightarrow> Inr (av_new patch_id)) (\<lambda>value.
     bind_outcome (av_add patch_id value) (\<lambda>(_, value).
     bind_outcome (if local_change then av_set_local_change patch_id value else Inr (False, value)) (\<lambda>(_, value).
       let st = insert_addition_value db key value None st
       in Inr (if \<not> local_change then increment_addition_counts cdb patch_id key st else st))))"

definition insert_deletion_single ::
  "'t tree_db \<Rightarrow> triple \<Rightarrow> patch_positions \<Rightarrow> int \<Rightarrow> bool \<Rightarrow> bool \<Rightarrow> cursor option \<Rightarrow>
   ('t, 'c) triple_store \<Rightarrow> ('t, 'c) triple_store outcome" where
  "insert_deletion_single db key pp patch_id local_change ignore_existing cursor st =
     bind_outcome
       (if ignore_existing then Inr (dv_new patch_id)
        else case (case cursor of None \<Rightarrow> tree_get db (ts_spo_deletions st) key
                   | Some c \<Rightarrow> map_option snd (cursor_get db (ts_spo_deletions st) c)) of
               Some raw_value \<Rightarrow> dv_deserialize raw_value (dv_new patch_id)
             | None \<Rightarrow> Inr (dv_new patch_id)) (\<lambda>value.
     let element = dve_new patch_id False pp;
         element = (if local_change then dve_set_local_change element else element) in
     bind_outcome (dv_add True element value) (\<lambda>(_, value).
     bind_outcome (dv_to_reduced True value) (\<lambda>value_reduced.
       Inr (insert_deletion_value db key value value_reduced None st))))"


section \<open>Matches of a pattern are contiguous\<close>

definition order_comparator :: "component_order \<Rightarrow> dictionary_manager \<Rightarrow> key_comparator" where
  "order_comparator order m =
     (if order = OSP then osp_comparator m else if order = POS then pos_comparator m else spo_comparator m)"

lemma comparison_between:
  assumes "comparison cmp A" "a \<in> A" "b \<in> A" "cmp a b \<le> 0" "cmp b a \<le> 0"
  shows "a = b"
  using assms comparison.cmp_swap [OF assms(1-3)] comparison.cmp_zero [OF assms(1-3)] by linarith

text \<open>A key between two keys that agree on the first components of the order agrees with them.\<close>

lemma lex_between:
  assumes "comparison c1 A1" "comparison c2 A2"
    "a1 \<in> A1" "b1 \<in> A1" "a2 \<in> A2" "b2 \<in> A2"
    "c1 a1 b1 < 0 \<or> c1 a1 b1 = 0 \<and> (c2 a2 b2 < 0 \<or> c2 a2 b2 = 0 \<and> x < 0)"
    "c1 b1 a1 < 0 \<or> c1 b1 a1 = 0 \<and> (c2 b2 d2 < 0 \<or> c2 b2 d2 = 0 \<and> y < 0)"
  shows "b1 = a1" "d2 = a2 \<Longrightarrow> b2 = a2"
proof -
  have z: "a1 = b1" by (rule comparison_between [OF assms(1,3,4)]) (use assms(7,8) in auto)
  then show "b1 = a1" by simp
  have "c1 a1 b1 = 0" "c1 b1 a1 = 0" using z comparison.cmp_self [OF assms(1,3)] by auto
  then have "c2 a2 b2 \<le> 0" "c2 b2 d2 \<le> 0" using assms(7,8) by auto
  then show "d2 = a2 \<Longrightarrow> b2 = a2" using comparison_between [OF assms(2,5,6)] by auto
qed

lemma key_compare_less:
  "key_compare c a b < 0 \<longleftrightarrow>
     kc_compare_1 c a b (kc_dict c) < 0 \<or> kc_compare_1 c a b (kc_dict c) = 0 \<and>
     (kc_compare_2 c a b (kc_dict c) < 0 \<or> kc_compare_2 c a b (kc_dict c) = 0 \<and>
      kc_compare_3 c a b (kc_dict c) < 0)"
  by (auto simp: key_compare_def Let_def)

lemma components_between:
  assumes "\<And>r. role_sorted m r" "unat (dm_max_hdt_id m) < 2 ^ 31"
    "kc_compare_1 c = key_component get1 r1" "kc_compare_2 c = key_component get2 r2" "kc_dict c = m"
    "\<And>x. x \<in> known_keys m \<Longrightarrow> get1 x \<in> known_ids m r1 \<and> get2 x \<in> known_ids m r2"
    "a \<in> known_keys m" "b \<in> known_keys m" "d \<in> known_keys m"
    "key_compare c a b < 0" "key_compare c b d < 0" "get1 a = get1 d"
  shows "get1 b = get1 a" "get2 d = get2 a \<Longrightarrow> get2 b = get2 a"
proof -
  note k = assms(6) [OF assms(7)] assms(6) [OF assms(8)] assms(6) [OF assms(9)]
  define c1 where "c1 = (\<lambda>x y. dm_compare_component x y r1 m)"
  define c2 where "c2 = (\<lambda>x y. dm_compare_component x y r2 m)"
  have e: "kc_compare_1 c a b (kc_dict c) = c1 (get1 a) (get1 b)" "kc_compare_1 c b d (kc_dict c) = c1 (get1 b) (get1 a)"
    "kc_compare_2 c a b (kc_dict c) = c2 (get2 a) (get2 b)" "kc_compare_2 c b d (kc_dict c) = c2 (get2 b) (get2 d)"
    using k assms(12) unfolding assms(3-5) c1_def c2_def by (simp_all add: key_component_known)
  note lt = assms(10,11) [unfolded key_compare_less e]
  have cc: "comparison c1 (known_ids m r1)" "comparison c2 (known_ids m r2)"
    unfolding c1_def c2_def by (rule known_comparison [OF assms(1,2)])+
  show "get1 b = get1 a" "get2 d = get2 a \<Longrightarrow> get2 b = get2 a"
    using lex_between [OF cc _ _ _ _ lt] k by blast+
qed

lemma get_query_order_cases:
  assumes "\<not> (subject pt > 0 \<and> predicate pt > 0 \<and> object pt > 0)"
  shows "get_query_order pt = SPO \<and> object pt = 0 \<and> (subject pt = 0 \<longrightarrow> predicate pt = 0) \<or>
    get_query_order pt = POS \<and> subject pt = 0 \<and> predicate pt \<noteq> 0 \<or>
    get_query_order pt = OSP \<and> predicate pt = 0 \<and> object pt \<noteq> 0"
  using assms
  by (cases "subject pt = 0"; cases "predicate pt = 0"; cases "object pt = 0")
    (simp_all add: get_query_order_def word_gt_0)

text \<open>Every pattern's components come first in the order chosen for it.\<close>

lemma pattern_between:
  assumes "\<And>r. role_sorted m r" "unat (dm_max_hdt_id m) < 2 ^ 31"
    "a \<in> known_keys m" "b \<in> known_keys m" "d \<in> known_keys m"
    "key_compare (order_comparator (get_query_order pt) m) a b < 0"
    "key_compare (order_comparator (get_query_order pt) m) b d < 0"
    "pattern_match_triple a pt" "pattern_match_triple d pt"
    "\<not> (subject pt > 0 \<and> predicate pt > 0 \<and> object pt > 0)"
  shows "pattern_match_triple b pt"
proof -
  note cb = components_between [OF assms(1,2) _ _ _ _ assms(3-5)]
  have K: "\<And>x. x \<in> known_keys m \<Longrightarrow> subject x \<in> known_ids m SUBJECT \<and> predicate x \<in> known_ids m PREDICATE"
    "\<And>x. x \<in> known_keys m \<Longrightarrow> predicate x \<in> known_ids m PREDICATE \<and> object x \<in> known_ids m OBJECT"
    "\<And>x. x \<in> known_keys m \<Longrightarrow> object x \<in> known_ids m OBJECT \<and> subject x \<in> known_ids m SUBJECT"
    by (simp_all add: known_keys_def)
  consider "get_query_order pt = SPO" "object pt = 0" "subject pt = 0 \<longrightarrow> predicate pt = 0"
    | "get_query_order pt = POS" "subject pt = 0" "predicate pt \<noteq> 0"
    | "get_query_order pt = OSP" "predicate pt = 0" "object pt \<noteq> 0"
    using get_query_order_cases [OF assms(10)] by blast
  then show ?thesis
  proof cases
    case 1
    note r = cb [of "spo_comparator m" subject SUBJECT predicate PREDICATE, OF _ _ _ K(1)]
    show ?thesis
    proof (cases "subject pt = 0")
      case True
      then show ?thesis using 1 by (simp add: pattern_match_triple_def)
    next
      case False
      then have e: "subject a = subject d" using assms(8,9) by (simp add: pattern_match_triple_def)
      have "subject b = subject a" "predicate d = predicate a \<Longrightarrow> predicate b = predicate a"
        by (rule r; use assms(6,7) 1(1) e in \<open>simp add: order_comparator_def spo_comparator_def comp_defs\<close>)+
      then show ?thesis using assms(8,9) 1(2) by (auto simp: pattern_match_triple_def)
    qed
  next
    case 2
    note r = cb [of "pos_comparator m" predicate PREDICATE object OBJECT, OF _ _ _ K(2)]
    have e: "predicate a = predicate d" using 2 assms(8,9) by (simp add: pattern_match_triple_def)
    have "predicate b = predicate a" "object d = object a \<Longrightarrow> object b = object a"
      by (rule r; use assms(6,7) 2(1) e in \<open>simp add: order_comparator_def pos_comparator_def comp_defs\<close>)+
    then show ?thesis using assms(8,9) 2(2) by (auto simp: pattern_match_triple_def)
  next
    case 3
    note r = cb [of "osp_comparator m" object OBJECT subject SUBJECT, OF _ _ _ K(3)]
    have e: "object a = object d" using 3 assms(8,9) by (simp add: pattern_match_triple_def)
    have "object b = object a" "subject d = subject a \<Longrightarrow> subject b = subject a"
      by (rule r; use assms(6,7) 3(1) e in \<open>simp add: order_comparator_def osp_comparator_def comp_defs\<close>)+
    then show ?thesis using assms(8,9) 3(2) by (auto simp: pattern_match_triple_def)
  qed
qed

section \<open>The invariant of the trees\<close>

text \<open>All trees are trees of their order, the three addition trees hold the same records, and the POS and
  OSP deletion trees hold the reduced values of the SPO deletion tree.\<close>

definition reduced_record :: "byte list \<Rightarrow> byte list \<Rightarrow> bool" where
  "reduced_record raw raw_reduced \<longleftrightarrow>
     (\<exists>v r. raw = dv_serialize v \<and> dv_to_reduced True v = Inr r \<and> raw_reduced = dv_serialize r)"

definition trees_valid :: "(component_order \<Rightarrow> 't \<Rightarrow> bool) \<Rightarrow> ('t, 'c) triple_store \<Rightarrow> bool" where
  "trees_valid valid st \<longleftrightarrow>
     valid SPO (ts_spo_deletions st) \<and> valid POS (ts_pos_deletions st) \<and> valid OSP (ts_osp_deletions st) \<and>
     valid SPO (ts_spo_additions st) \<and> valid POS (ts_pos_additions st) \<and> valid OSP (ts_osp_additions st)"

definition store_ok :: "'t tree_db \<Rightarrow> (component_order \<Rightarrow> 't \<Rightarrow> bool) \<Rightarrow> ('t, 'c) triple_store \<Rightarrow> bool" where
  "store_ok db valid st \<longleftrightarrow> trees_valid valid st \<and>
     tree_get db (ts_pos_additions st) = tree_get db (ts_spo_additions st) \<and>
     tree_get db (ts_osp_additions st) = tree_get db (ts_spo_additions st) \<and>
     tree_get db (ts_osp_deletions st) = tree_get db (ts_pos_deletions st) \<and>
     (\<forall>k. rel_option reduced_record (tree_get db (ts_spo_deletions st) k) (tree_get db (ts_pos_deletions st) k))"

definition store_laws ::
  "'t tree_db \<Rightarrow> dictionary_manager \<Rightarrow> triple set \<Rightarrow> ('t \<Rightarrow> triple list) \<Rightarrow> (component_order \<Rightarrow> 't \<Rightarrow> bool) \<Rightarrow> bool" where
  "store_laws db m A keys valid \<longleftrightarrow>
     (\<forall>order. tree_laws db (key_compare (order_comparator order m)) A keys (valid order))"

lemma tree_laws_set:
  assumes "tree_laws db cmp A keys valid" "valid t" "k \<in> A"
  shows "valid (tree_set db t k v)" "tree_get db (tree_set db t k v) = (tree_get db t)(k \<mapsto> v)"
  using assms unfolding tree_laws_def by blast+

lemma insert_addition_value_ok:
  assumes "store_laws db m A keys valid" "store_ok db valid st" "key \<in> A"
    "cursor = None \<or> cursor = Some (Some key)"
  shows "store_ok db valid (insert_addition_value db key value cursor st)"
    "tree_get db (ts_spo_additions (insert_addition_value db key value cursor st)) =
       (tree_get db (ts_spo_additions st))(key \<mapsto> av_serialize value)"
    "ts_spo_deletions (insert_addition_value db key value cursor st) = ts_spo_deletions st"
proof -
  note l = tree_laws_set [OF spec [OF assms(1) [unfolded store_laws_def]]]
  have v: "valid SPO (ts_spo_additions st)" "valid POS (ts_pos_additions st)" "valid OSP (ts_osp_additions st)"
    using assms(2) by (simp_all add: store_ok_def trees_valid_def)
  have c: "(case cursor of Some c \<Rightarrow> cursor_set_value db (ts_spo_additions st) c (av_serialize value)
      | None \<Rightarrow> tree_set db (ts_spo_additions st) key (av_serialize value)) =
      tree_set db (ts_spo_additions st) key (av_serialize value)"
    using assms(4) by (auto simp: cursor_set_value_def)
  show "store_ok db valid (insert_addition_value db key value cursor st)"
    "tree_get db (ts_spo_additions (insert_addition_value db key value cursor st)) =
       (tree_get db (ts_spo_additions st))(key \<mapsto> av_serialize value)"
    "ts_spo_deletions (insert_addition_value db key value cursor st) = ts_spo_deletions st"
    using assms(2) v l(1) [OF _ assms(3)] l(2) [OF v(1) assms(3)] l(2) [OF v(2) assms(3)] l(2) [OF v(3) assms(3)]
    by (simp_all add: insert_addition_value_def c Let_def store_ok_def trees_valid_def)
qed

lemma insert_deletion_value_ok:
  assumes "store_laws db m A keys valid" "store_ok db valid st" "key \<in> A"
    "cursor = None \<or> cursor = Some (Some key)" "dv_to_reduced True value = Inr reduced"
  shows "store_ok db valid (insert_deletion_value db key value reduced cursor st)"
    "tree_get db (ts_spo_deletions (insert_deletion_value db key value reduced cursor st)) =
       (tree_get db (ts_spo_deletions st))(key \<mapsto> dv_serialize value)"
    "ts_spo_additions (insert_deletion_value db key value reduced cursor st) = ts_spo_additions st"
proof -
  note l = tree_laws_set [OF spec [OF assms(1) [unfolded store_laws_def]]]
  have v: "valid SPO (ts_spo_deletions st)" "valid POS (ts_pos_deletions st)" "valid OSP (ts_osp_deletions st)"
    using assms(2) by (simp_all add: store_ok_def trees_valid_def)
  have c: "(case cursor of Some c \<Rightarrow> cursor_set_value db (ts_spo_deletions st) c (dv_serialize value)
      | None \<Rightarrow> tree_set db (ts_spo_deletions st) key (dv_serialize value)) =
      tree_set db (ts_spo_deletions st) key (dv_serialize value)"
    using assms(4) by (auto simp: cursor_set_value_def)
  have "reduced_record (dv_serialize value) (dv_serialize reduced)"
    using assms(5) by (auto simp: reduced_record_def)
  then show "store_ok db valid (insert_deletion_value db key value reduced cursor st)"
    "tree_get db (ts_spo_deletions (insert_deletion_value db key value reduced cursor st)) =
       (tree_get db (ts_spo_deletions st))(key \<mapsto> dv_serialize value)"
    "ts_spo_additions (insert_deletion_value db key value reduced cursor st) = ts_spo_additions st"
    using assms(2) v l(1) [OF _ assms(3)] l(2) [OF v(1) assms(3)] l(2) [OF v(2) assms(3)] l(2) [OF v(3) assms(3)]
    by (simp_all add: insert_deletion_value_def c Let_def store_ok_def trees_valid_def)
qed

lemma increment_counts_trees:
  "store_ok db valid (increment_addition_counts cdb p t st) \<longleftrightarrow> store_ok db valid st"
  "ts_spo_additions (increment_addition_counts cdb p t st) = ts_spo_additions st"
  "ts_spo_deletions (increment_addition_counts cdb p t st) = ts_spo_deletions st"
  by (simp_all add: increment_addition_counts_def increment_addition_count_def Let_def store_ok_def trees_valid_def)


section \<open>What the counts count\<close>

definition temp_count :: "('c, triple_version) hash_db \<Rightarrow> ('t, 'c) triple_store \<Rightarrow> triple_version \<Rightarrow> int" where
  "temp_count cdb st k = (case hash_get cdb (ts_temp_count_additions st) k of Some n \<Rightarrow> n | None \<Rightarrow> 0)"

lemma increment_addition_count_temp:
  "hash_laws cdb \<Longrightarrow>
   temp_count cdb (increment_addition_count cdb tv st) k = temp_count cdb st k + (if k = tv then 1 else 0)"
  by (simp add: temp_count_def increment_addition_count_def Let_def hash_lawsD(1) split: option.split)

text \<open>A pattern with a blank that matches the triple.\<close>

definition counted_pattern :: "triple \<Rightarrow> triple \<Rightarrow> bool" where
  "counted_pattern pt t \<longleftrightarrow> pattern_match_triple t pt \<and> (subject pt = 0 \<or> predicate pt = 0 \<or> object pt = 0)"

definition no_blank :: "triple \<Rightarrow> bool" where
  "no_blank t \<longleftrightarrow> subject t \<noteq> 0 \<and> predicate t \<noteq> 0 \<and> object t \<noteq> 0"

lemma increment_addition_counts_temp:
  assumes "hash_laws cdb" "no_blank t"
  shows "temp_count cdb (increment_addition_counts cdb p t st) (tv_key q pt) =
    temp_count cdb st (tv_key q pt) + (if q = p \<and> counted_pattern pt t then 1 else 0)"
proof -
  obtain s' p' o' where pt: "pt = mk_triple s' p' o'" by (rule triple_cases)
  have n: "subject t \<noteq> 0" "predicate t \<noteq> 0" "object t \<noteq> 0" using assms(2) by (simp_all add: no_blank_def)
  show ?thesis
    unfolding increment_addition_counts_def Let_def increment_addition_count_temp [OF assms(1)]
    using n by (cases "s' = 0"; cases "p' = 0"; cases "o' = 0")
      (auto simp: tv_key_def pt counted_pattern_def pattern_match_triple_def)
qed

definition count_all ::
  "('c, triple_version) hash_db \<Rightarrow> int \<Rightarrow> triple list \<Rightarrow> ('t, 'c) triple_store \<Rightarrow> ('t, 'c) triple_store" where
  "count_all cdb p ts st = foldl (\<lambda>st t. increment_addition_counts cdb p t st) st ts"

lemma count_all_temp:
  assumes "hash_laws cdb" "\<forall>t\<in>set ts. no_blank t"
  shows "temp_count cdb (count_all cdb p ts st) (tv_key q pt) =
    temp_count cdb st (tv_key q pt) + (if q = p then int (length (filter (counted_pattern pt) ts)) else 0)"
  using assms(2)
  by (induction ts arbitrary: st)
    (simp_all add: count_all_def increment_addition_counts_temp [OF assms(1)])

lemma count_all_counts: "ts_count_additions (count_all cdb p ts st) = ts_count_additions st"
  by (induction ts arbitrary: st)
    (simp_all add: count_all_def increment_addition_counts_def increment_addition_count_def Let_def)

lemma flush_records_get:
  assumes "hash_laws cdb" "distinct (map fst records)"
  shows "hash_get cdb (fst (flush_records cdb records acc)) k =
    (case map_of records k of
       Some n \<Rightarrow> if n \<ge> MIN_ADDITION_COUNT then Some n else hash_get cdb (fst acc) k
     | None \<Rightarrow> hash_get cdb (fst acc) k)"
  using assms(2)
proof (induction records arbitrary: acc)
  case Nil
  then show ?case by (simp add: flush_records_def)
next
  case (Cons r records)
  obtain k' n where r: "r = (k', n)" by (cases r)
  obtain h a where acc: "acc = (h, a)" by (cases acc)
  have "map_of records k' = None" using Cons.prems by (simp add: r map_of_eq_None_iff)
  moreover have "flush_records cdb (r # records) acc =
      flush_records cdb records (if n \<ge> MIN_ADDITION_COUNT then (hash_set cdb h k' n, a + 1) else (h, a))"
    by (simp add: flush_records_def r acc)
  ultimately show ?case
    using Cons.IH Cons.prems hash_lawsD(1) [OF assms(1), of h k' n]
    by (auto simp: r acc split: option.split)
qed

lemma flush_addition_counts_get:
  assumes "hash_laws cdb" "flush_addition_counts cdb st = (added, st')"
    "hash_records cdb (ts_temp_count_additions st) = first # rest" "fst first \<noteq> tv_key p pt"
  shows "get_addition_count cdb p pt st' =
    (if temp_count cdb st (tv_key p pt) \<ge> MIN_ADDITION_COUNT then temp_count cdb st (tv_key p pt)
     else get_addition_count cdb p pt st)"
proof -
  have d: "distinct (map fst rest)" "map_of rest (tv_key p pt) = hash_get cdb (ts_temp_count_additions st) (tv_key p pt)"
    using hash_lawsD(3,4) [OF assms(1), of "ts_temp_count_additions st"] assms(3,4)
    by (auto dest!: fun_cong [of _ _ "tv_key p pt"] simp: map_of_Cons_code split: prod.splits if_splits) 
  have "ts_count_additions st' = fst (flush_records cdb rest (ts_count_additions st, 0))"
    using assms(2,3) by (auto simp: flush_addition_counts_def Let_def split: prod.splits)
  then show ?thesis
    using flush_records_get [OF assms(1) d(1), of "(ts_count_additions st, 0)" "tv_key p pt"] d(2)
    by (auto simp: get_addition_count_def temp_count_def MIN_ADDITION_COUNT_def split: option.split)
qed


section \<open>Trees that are sorted lists\<close>

text \<open>An instance of the trees of a store: a sorted association list with the order it is kept in.\<close>

definition ordered_tree :: "dictionary_manager \<Rightarrow> (component_order \<times> (triple \<times> byte list) list) tree_db" where
  "ordered_tree m =
     (let db = (\<lambda>t. list_tree (key_compare (order_comparator (fst t) m))) in
      \<lparr> tree_get = (\<lambda>t. tree_get (db t) (snd t)), tree_set = (\<lambda>t k v. (fst t, tree_set (db t) (snd t) k v)),
        tree_first = (\<lambda>t. tree_first (db t) (snd t)), tree_last = (\<lambda>t. tree_last (db t) (snd t)),
        tree_from = (\<lambda>t. tree_from (db t) (snd t)), tree_upto = (\<lambda>t. tree_upto (db t) (snd t)),
        tree_after = (\<lambda>t. tree_after (db t) (snd t)), tree_before = (\<lambda>t. tree_before (db t) (snd t)) \<rparr>)"

definition ordered_tree_valid ::
  "dictionary_manager \<Rightarrow> component_order \<Rightarrow> component_order \<times> (triple \<times> byte list) list \<Rightarrow> bool" where
  "ordered_tree_valid m order t \<longleftrightarrow>
     fst t = order \<and> list_tree_valid (key_compare (order_comparator order m)) (known_keys m) (snd t)"

lemma order_comparison:
  assumes "\<And>r. role_sorted m r" "unat (dm_max_hdt_id m) < 2 ^ 31"
  shows "comparison (key_compare (order_comparator order m)) (known_keys m)"
  using key_comparison [OF assms] by (simp add: order_comparator_def)

lemma ordered_tree_laws:
  assumes "\<And>r. role_sorted m r" "unat (dm_max_hdt_id m) < 2 ^ 31"
  shows "store_laws (ordered_tree m) m (known_keys m) (\<lambda>t. map fst (snd t)) (ordered_tree_valid m)"
  unfolding store_laws_def
proof
  fix order
  show "tree_laws (ordered_tree m) (key_compare (order_comparator order m)) (known_keys m)
      (\<lambda>t. map fst (snd t)) (ordered_tree_valid m order)"
    using list_tree_laws [OF order_comparison [OF assms], of order]
    by (auto simp: tree_laws_def ordered_tree_def ordered_tree_valid_def Let_def simp del: set_map)
qed

definition empty_store :: "dictionary_manager \<Rightarrow>
  (component_order \<times> (triple \<times> byte list) list, (triple_version \<times> int) list) triple_store" where
  "empty_store m =
     \<lparr> ts_spo_deletions = (SPO, []), ts_pos_deletions = (POS, []), ts_osp_deletions = (OSP, []),
       ts_spo_additions = (SPO, []), ts_pos_additions = (POS, []), ts_osp_additions = (OSP, []),
       ts_count_additions = [], ts_temp_count_additions = [], ts_dict = m,
       ts_flush_additions = 0, ts_flush_deletions = 0 \<rparr>"

lemma empty_store_ok: "store_ok (ordered_tree m) (ordered_tree_valid m) (empty_store m)"
  by (simp add: store_ok_def trees_valid_def empty_store_def ordered_tree_valid_def list_tree_valid_def
      ordered_tree_def list_tree_def Let_def)

section \<open>First values\<close>

text \<open>The values a triple gets with its first change in a version.\<close>

definition open_run :: "int \<Rightarrow> interval_list" where
  "open_run patch_id = \<lparr> il_max = INT_MAX, il_intervals = [(patch_id, INT_MAX)] \<rparr>"

definition first_addition :: "int \<Rightarrow> bool \<Rightarrow> addition_value" where
  "first_addition patch_id local_change =
     \<lparr> av_patches = open_run patch_id,
       av_local_changes = (if local_change then open_run patch_id else il_new INT_MAX),
       av_max_patch_id = patch_id + 1 \<rparr>"

definition first_deletion :: "int \<Rightarrow> bool \<Rightarrow> patch_positions \<Rightarrow> deletion_value" where
  "first_deletion patch_id local_change pp =
     \<lparr> dv_elements = \<lparr> dv_patches = open_run patch_id,
         dv_local_changes = (if local_change then open_run patch_id else il_new INT_MAX),
         dv_positions = [(patch_id, pp)] \<rparr>,
       dv_max_patch_id = patch_id + 1 \<rparr>"

lemma il_addition_new: "il_addition k (il_new INT_MAX) = Inr (True, open_run k)"
  by (simp add: il_addition_def il_new_def open_run_def lower_bound_def)

lemma il_is_in_first: "k < INT_MAX \<Longrightarrow> il_is_in k (open_run k) = Inr True" "il_is_in k (il_new INT_MAX) = Inr False"
  by (simp_all add: il_is_in_def il_new_def open_run_def lower_bound_def)

lemma first_addition_value:
  "av_add k (av_new k) = Inr (True, first_addition k False)"
  "av_set_local_change k (first_addition k False) = Inr (True, first_addition k True)"
  by (simp_all add: av_add_def av_new_def av_raise_max_def il_addition_new first_addition_def av_set_local_change_def)

lemma first_deletion_value:
  "dv_add True (dve_new k lc pp) (dv_new k) = Inr (True, first_deletion k lc pp)"
  by (simp add: dv_add_def dv_new_def dvi_addition_def dvi_new_def il_addition_new first_deletion_def
      v2_insert_positions_def dve_new_def)

lemma first_deletion_reduced:
  assumes "k < INT_MAX"
  shows "\<exists>r. dv_to_reduced True (first_deletion k lc pp) = Inr r"
proof -
  have "dv_get_size (first_deletion k lc pp) = 1"
    by (simp add: dv_get_size_def dvi_size_def il_get_size_def first_deletion_def open_run_def)
  then have n: "nat (dv_get_size (first_deletion k lc pp)) = Suc 0" by simp
  have "il_get_element_at 0 (k + 1) (open_run k) = k"
    by (simp add: il_get_element_at_def open_run_def)
  moreover have "\<exists>b. il_is_in k (if lc then open_run k else il_new INT_MAX) = Inr b"
    using il_is_in_first(1) [OF assms] il_is_in_first(2) by simp
  moreover have "v2_get_positions k lim [(k, pp)] = Inr (Some pp)" for lim
    by (simp add: v2_get_positions_def lower_bound_def)
  ultimately obtain e where e: "dv_get_patch_at True 0 (first_deletion k lc pp) = Inr e"
    by (auto simp: dv_get_patch_at_def dvi_get_element_at_def first_deletion_def)
  obtain x where "dv_add False (dve_new (el_patch_id e) (el_local_change e) pp_new)
      (dv_new (dv_max_patch_id (first_deletion k lc pp))) = Inr x"
    by (cases "el_local_change e")
      (simp_all add: dv_add_def dv_new_def dvi_addition_def dvi_new_def il_addition_new dve_new_def Let_def)
  then show ?thesis
    unfolding dv_to_reduced_def n using e by (cases x) simp
qed

section \<open>Properties\<close>

text \<open>C25: The tree chosen for a pattern keeps the matches of the pattern together: in the order of the
  chosen tree, a triple between two matches is a match. An iterator over that tree may therefore stop at
  the first triple after a match that does not match.\<close>

theorem query_order_contiguous:
  assumes "\<forall>r. role_sorted m r" "unat (dm_max_hdt_id m) < 2 ^ 31"
    "a \<in> known_keys m" "b \<in> known_keys m" "d \<in> known_keys m"
    "cmp = key_compare (order_comparator (get_query_order pt) m)" "cmp a b < 0" "cmp b d < 0"
    "pattern_match_triple a pt" "pattern_match_triple d pt"
  shows "pattern_match_triple b pt"
proof (cases "subject pt > 0 \<and> predicate pt > 0 \<and> object pt > 0")
  case True
  then have "a = d" using assms(9,10) by (cases a; cases d) (auto simp: pattern_match_triple_def)
  moreover have "comparison cmp (known_keys m)"
    using key_comparison [OF assms(1) [rule_format] assms(2)] assms(6) by (simp add: order_comparator_def)
  ultimately show ?thesis using comparison.cmp_asym [of cmp "known_keys m" a b] assms(3,4,7,8) by simp
next
  case False
  then show ?thesis using pattern_between [OF assms(1) [rule_format] assms(2-5)] assms(6-10) by blast
qed

theorem query_order_contiguous_witness:
  "pattern_match_triple (mk_triple 1 1 3) (mk_triple 0 1 0)"
proof -
  have "key_compare (order_comparator (get_query_order (mk_triple 0 1 0)) example_manager)
      (mk_triple 2 1 2) (mk_triple 1 1 3) < 0" by code_simp
  moreover have "key_compare (order_comparator (get_query_order (mk_triple 0 1 0)) example_manager)
      (mk_triple 1 1 3) (mk_triple 2 1 3) < 0" by code_simp
  moreover have "mk_triple 2 1 3 \<in> known_keys example_manager"
    using example_known by (simp add: known_keys_def)
  ultimately show ?thesis
    using query_order_contiguous [of example_manager "mk_triple 2 1 2" "mk_triple 1 1 3" "mk_triple 2 1 3",
        OF allI [OF example_sorted] _ example_known(2,1)]
    by (simp add: example_bounds pattern_match_triple_def)
qed

text \<open>The first change of a triple: the call succeeds and stores the first value.\<close>

lemma insert_addition_first:
  "insert_addition_single db cdb key patch_id local_change True None st =
     Inr (let st = insert_addition_value db key (first_addition patch_id local_change) None st
          in if \<not> local_change then increment_addition_counts cdb patch_id key st else st)"
  by (cases local_change) (simp_all add: insert_addition_single_def first_addition_value)

lemma insert_deletion_first:
  assumes "patch_id < INT_MAX"
  shows "\<exists>r. dv_to_reduced True (first_deletion patch_id local_change pp) = Inr r \<and>
    insert_deletion_single db key pp patch_id local_change True None st =
      Inr (insert_deletion_value db key (first_deletion patch_id local_change pp) r None st)"
proof -
  obtain r where r: "dv_to_reduced True (first_deletion patch_id local_change pp) = Inr r"
    using first_deletion_reduced [OF assms] by blast
  have "dve_set_local_change (dve_new patch_id False pp) = dve_new patch_id True pp"
    by (simp add: dve_set_local_change_def dve_new_def)
  then show ?thesis
    using r by (cases local_change) (simp_all add: insert_deletion_single_def first_deletion_value)
qed

text \<open>C26: Inserting the first change of a triple succeeds and keeps the six trees consistent: the three
  addition trees hold the same records, the POS and OSP deletion trees the reduced values of the SPO
  deletion tree. The triple's record is the value with the one open version, and no other record changes.\<close>

theorem insertion_keeps_trees_consistent:
  assumes "store_laws db m A keys valid" "store_ok db valid st" "key \<in> A" "patch_id < INT_MAX"
  shows "(\<exists>st'. insert_addition_single db cdb key patch_id local_change True None st = Inr st' \<and>
      store_ok db valid st' \<and>
      tree_get db (ts_spo_additions st') =
        (tree_get db (ts_spo_additions st))(key \<mapsto> av_serialize (first_addition patch_id local_change)) \<and>
      ts_spo_deletions st' = ts_spo_deletions st) \<and>
    (\<exists>st'. insert_deletion_single db key pp patch_id local_change True None st = Inr st' \<and>
      store_ok db valid st' \<and>
      tree_get db (ts_spo_deletions st') =
        (tree_get db (ts_spo_deletions st))(key \<mapsto> dv_serialize (first_deletion patch_id local_change pp)) \<and>
      ts_spo_additions st' = ts_spo_additions st)"
proof (intro conjI)
  note a = insert_addition_value_ok [OF assms(1-3), of None]
  note f = insert_addition_first [of db cdb key patch_id local_change st]
  show "\<exists>st'. insert_addition_single db cdb key patch_id local_change True None st = Inr st' \<and>
      store_ok db valid st' \<and>
      tree_get db (ts_spo_additions st') =
        (tree_get db (ts_spo_additions st))(key \<mapsto> av_serialize (first_addition patch_id local_change)) \<and>
      ts_spo_deletions st' = ts_spo_deletions st"
    using a f by (cases local_change) (simp_all add: increment_counts_trees)
  obtain r where r: "dv_to_reduced True (first_deletion patch_id local_change pp) = Inr r"
    "insert_deletion_single db key pp patch_id local_change True None st =
      Inr (insert_deletion_value db key (first_deletion patch_id local_change pp) r None st)"
    using insert_deletion_first [OF assms(4)] by blast
  note d = insert_deletion_value_ok [OF assms(1-3), of None, OF _ r(1)]
  show "\<exists>st'. insert_deletion_single db key pp patch_id local_change True None st = Inr st' \<and>
      store_ok db valid st' \<and>
      tree_get db (ts_spo_deletions st') =
        (tree_get db (ts_spo_deletions st))(key \<mapsto> dv_serialize (first_deletion patch_id local_change pp)) \<and>
      ts_spo_additions st' = ts_spo_additions st"
    using d r(2) by simp
qed

theorem insertion_keeps_trees_consistent_witness:
  "\<exists>st'. insert_deletion_single (ordered_tree example_manager) (mk_triple 1 1 2) pp_new 3 True True None
       (empty_store example_manager) = Inr st' \<and>
     store_ok (ordered_tree example_manager) (ordered_tree_valid example_manager) st'"
proof -
  have "unat (dm_max_hdt_id example_manager) < 2 ^ 31" by (simp add: example_bounds)
  note l = ordered_tree_laws [OF example_sorted this]
  show ?thesis
    using insertion_keeps_trees_consistent [OF l empty_store_ok example_known(3), of 3 list_hash True pp_new]
    by (auto simp: INT_MAX_def)
qed

text \<open>C27: After the additions of a version are counted and the counts flushed, the count stored for a
  pattern with a blank is the number of counted triples that match it, when it reaches the minimum for
  storage, and what was stored before otherwise. The pattern must not be the first record of the counts:
  the flush steps over that one.\<close>

theorem addition_counts_flushed:
  assumes "hash_laws cdb" "\<forall>t\<in>set ts. no_blank t" "hash_records cdb (ts_temp_count_additions st) = []"
    "flush_addition_counts cdb (count_all cdb p ts st) = (added, st')"
    "fst (hd (hash_records cdb (ts_temp_count_additions (count_all cdb p ts st)))) \<noteq> tv_key p pt"
  shows "get_addition_count cdb p pt st' =
    (let n = int (length (filter (counted_pattern pt) ts))
     in if n \<ge> MIN_ADDITION_COUNT then n else get_addition_count cdb p pt st)"
proof -
  have z: "temp_count cdb st (tv_key p pt) = 0"
    using fun_cong [OF hash_lawsD(4) [OF assms(1), of "ts_temp_count_additions st"], of "tv_key p pt"] assms(3)
    by (simp add: temp_count_def split: option.split)
  have n: "temp_count cdb (count_all cdb p ts st) (tv_key p pt) = int (length (filter (counted_pattern pt) ts))"
    using count_all_temp [OF assms(1,2), of p st p pt] z by simp
  have g: "get_addition_count cdb p pt (count_all cdb p ts st) = get_addition_count cdb p pt st"
    by (simp add: get_addition_count_def count_all_counts)
  show ?thesis
  proof (cases "hash_records cdb (ts_temp_count_additions (count_all cdb p ts st))")
    case Nil
    then have "temp_count cdb (count_all cdb p ts st) (tv_key p pt) = 0"
      using fun_cong [OF hash_lawsD(4) [OF assms(1), of "ts_temp_count_additions (count_all cdb p ts st)"],
          of "tv_key p pt"]
      by (simp add: temp_count_def split: option.split)
    moreover have "ts_count_additions st' = ts_count_additions st"
      using assms(4) by (auto simp: flush_addition_counts_def Nil flush_records_def count_all_counts)
    ultimately show ?thesis
      using n by (simp add: get_addition_count_def MIN_ADDITION_COUNT_def)
  next
    case (Cons first rest)
    then show ?thesis
      using flush_addition_counts_get [OF assms(1,4) Cons] assms(5) n g by (simp add: Let_def)
  qed
qed

theorem addition_counts_flushed_witness:
  "get_addition_count list_hash 1 (mk_triple 0 7 0)
     (snd (flush_addition_counts list_hash (count_all list_hash 1
        (map (\<lambda>i. mk_triple i 7 8) [1, 2]) (empty_store example_manager)))) = 0"
proof -
  let ?st = "empty_store example_manager"
  let ?ts = "map (\<lambda>i. mk_triple i 7 8) [1, 2 :: u64]"
  obtain added st' where f: "flush_addition_counts list_hash (count_all list_hash 1 ?ts ?st) = (added, st')"
    by (metis surj_pair)
  have "get_addition_count list_hash 1 (mk_triple 0 7 0) st' =
    (let n = int (length (filter (counted_pattern (mk_triple 0 7 0)) ?ts))
     in if n \<ge> MIN_ADDITION_COUNT then n else get_addition_count list_hash 1 (mk_triple 0 7 0) ?st)"
  proof (rule addition_counts_flushed [OF list_hash_laws _ _ f])
    show "fst (hd (hash_records list_hash (ts_temp_count_additions (count_all list_hash 1 ?ts ?st)))) \<noteq>
        tv_key 1 (mk_triple 0 7 0)"
      by code_simp
  qed (simp_all add: no_blank_def empty_store_def list_hash_def)
  then show ?thesis
    unfolding f by (simp add: MIN_ADDITION_COUNT_def get_addition_count_def empty_store_def list_hash_def)
qed

end
