(* ===== verification/Patch_Tree.thy ===== *)
theory Patch_Tree
  imports Triple_Store
begin

text \<open>
  \<open>PatchTree\<close> of \<open>patch/patch_tree.{h,cc}\<close>, the part that writes: \<open>append\<close> merges a sorted patch with the
  SPO deletion and addition trees in one pass over the three, and stores each triple's change as a new
  version. The build with compressed values (\<open>COMPRESSED_ADD_VALUES\<close>, \<open>COMPRESSED_DEL_VALUES\<close>) is the one
  modelled. Progress messages are left out. \<open>kc\<close> holds the operations of the Kyoto Cabinet databases.
\<close>

section \<open>The tree\<close>

record ('t, 'c, 'h) kyoto =
  kc_tree :: "'t tree_db"
  kc_count :: "('c, triple_version) hash_db"
  kc_position :: "('h, u64) hash_db"

record ('t, 'c, 'h) patch_tree =
  pt_store :: "('t, 'c) triple_store"
  pt_counters :: "'h position_counters"
  pt_min_patch_id :: int
  pt_max_patch_id :: int
  pt_readonly :: bool

definition clear_temp_insertion_trees :: "('t, 'c, 'h) kyoto \<Rightarrow> 'h position_counters \<Rightarrow> 'h position_counters" where
  "clear_temp_insertion_trees kc c =
     (let clear = hash_clear (kc_position kc) in
      c\<lparr> pc_sp := clear (pc_sp c), pc_so := clear (pc_so c), pc_s := clear (pc_s c),
         pc_po := clear (pc_po c), pc_p := clear (pc_p c), pc_o := clear (pc_o c) \<rparr>)"

section \<open>The merge: its state\<close>

text \<open>What the branches of the merge work on: the store, the position counters and the two value objects
  the records are read into. An object is reused, so its \<open>max_patch_id\<close> stays from record to record.\<close>

record ('t, 'c, 'h) merge_state =
  ms_store :: "('t, 'c) triple_store"
  ms_counters :: "'h position_counters"
  ms_dvalue :: deletion_value
  ms_avalue :: addition_value

text \<open>The variables of the loop: the iterator of the patch and its current element (P), the cursors of the
  deletion and addition trees and their current keys (D, A), which of the three to advance, and which have
  ended.\<close>

record ('t, 'c, 'h, 'i) append_state =
  as_data :: "('t, 'c, 'h) merge_state"
  as_iter :: 'i
  as_element :: patch_element
  as_dcur :: cursor
  as_acur :: cursor
  as_dkey :: triple
  as_akey :: triple
  as_step_p :: bool
  as_step_d :: bool
  as_step_a :: bool
  as_p_ended :: bool
  as_d_ended :: bool
  as_a_ended :: bool

section \<open>The comparison macros\<close>

definition comp_addition :: "(triple \<Rightarrow> triple \<Rightarrow> int) \<Rightarrow> ('t, 'c, 'h, 'i) append_state \<Rightarrow> int" where
  "comp_addition cmp s = cmp (pe_triple (as_element s)) (as_akey s)"

definition comp_deletion :: "(triple \<Rightarrow> triple \<Rightarrow> int) \<Rightarrow> ('t, 'c, 'h, 'i) append_state \<Rightarrow> int" where
  "comp_deletion cmp s = cmp (pe_triple (as_element s)) (as_dkey s)"

definition comp_deletion_addition :: "(triple \<Rightarrow> triple \<Rightarrow> int) \<Rightarrow> ('t, 'c, 'h, 'i) append_state \<Rightarrow> int" where
  "comp_deletion_addition cmp s = cmp (as_dkey s) (as_akey s)"

definition p_lt_d :: "(triple \<Rightarrow> triple \<Rightarrow> int) \<Rightarrow> ('t, 'c, 'h, 'i) append_state \<Rightarrow> bool" where
  "p_lt_d cmp s \<longleftrightarrow> \<not> as_p_ended s \<and> (as_d_ended s \<or> comp_deletion cmp s < 0)"

definition p_lt_a :: "(triple \<Rightarrow> triple \<Rightarrow> int) \<Rightarrow> ('t, 'c, 'h, 'i) append_state \<Rightarrow> bool" where
  "p_lt_a cmp s \<longleftrightarrow> \<not> as_p_ended s \<and> (as_a_ended s \<or> comp_addition cmp s < 0)"

definition p_eq_d :: "(triple \<Rightarrow> triple \<Rightarrow> int) \<Rightarrow> ('t, 'c, 'h, 'i) append_state \<Rightarrow> bool" where
  "p_eq_d cmp s \<longleftrightarrow> \<not> as_p_ended s \<and> \<not> as_d_ended s \<and> comp_deletion cmp s = 0"

definition p_eq_a :: "(triple \<Rightarrow> triple \<Rightarrow> int) \<Rightarrow> ('t, 'c, 'h, 'i) append_state \<Rightarrow> bool" where
  "p_eq_a cmp s \<longleftrightarrow> \<not> as_p_ended s \<and> \<not> as_a_ended s \<and> comp_addition cmp s = 0"

definition p_gt_d :: "(triple \<Rightarrow> triple \<Rightarrow> int) \<Rightarrow> ('t, 'c, 'h, 'i) append_state \<Rightarrow> bool" where
  "p_gt_d cmp s \<longleftrightarrow> \<not> as_d_ended s \<and> (as_p_ended s \<or> comp_deletion cmp s > 0)"

definition p_gt_a :: "(triple \<Rightarrow> triple \<Rightarrow> int) \<Rightarrow> ('t, 'c, 'h, 'i) append_state \<Rightarrow> bool" where
  "p_gt_a cmp s \<longleftrightarrow> \<not> as_a_ended s \<and> (as_p_ended s \<or> comp_addition cmp s > 0)"

definition d_lt_a :: "(triple \<Rightarrow> triple \<Rightarrow> int) \<Rightarrow> ('t, 'c, 'h, 'i) append_state \<Rightarrow> bool" where
  "d_lt_a cmp s \<longleftrightarrow> \<not> as_d_ended s \<and> (as_a_ended s \<or> comp_deletion_addition cmp s < 0)"

definition a_lt_d :: "(triple \<Rightarrow> triple \<Rightarrow> int) \<Rightarrow> ('t, 'c, 'h, 'i) append_state \<Rightarrow> bool" where
  "a_lt_d cmp s \<longleftrightarrow> \<not> as_a_ended s \<and> (as_d_ended s \<or> comp_deletion_addition cmp s > 0)"

section \<open>The branches\<close>

text \<open>Write the deletion value object to its record; the value reduced for the other trees comes first.\<close>

definition store_deletion ::
  "('t, 'c, 'h) kyoto \<Rightarrow> triple \<Rightarrow> cursor \<Rightarrow> ('t, 'c, 'h) merge_state \<Rightarrow> ('t, 'c, 'h) merge_state outcome" where
  "store_deletion kc key cur ms =
     bind_outcome (dv_to_reduced True (ms_dvalue ms)) (\<lambda>reduced.
       Inr (ms\<lparr> ms_store := insert_deletion_value (kc_tree kc) key (ms_dvalue ms) reduced (Some cur) (ms_store ms) \<rparr>))"

definition store_addition ::
  "('t, 'c, 'h) kyoto \<Rightarrow> triple \<Rightarrow> cursor \<Rightarrow> ('t, 'c, 'h) merge_state \<Rightarrow> ('t, 'c, 'h) merge_state" where
  "store_addition kc key cur ms =
     ms\<lparr> ms_store := insert_addition_value (kc_tree kc) key (ms_avalue ms) (Some cur) (ms_store ms) \<rparr>"

definition count_addition ::
  "('t, 'c, 'h) kyoto \<Rightarrow> int \<Rightarrow> triple \<Rightarrow> ('t, 'c, 'h) merge_state \<Rightarrow> ('t, 'c, 'h) merge_state" where
  "count_addition kc patch_id key ms =
     ms\<lparr> ms_store := increment_addition_counts (kc_count kc) patch_id key (ms_store ms) \<rparr>"

text \<open>Count the addition unless it is a local change in a version.\<close>

definition count_unless_local ::
  "('t, 'c, 'h) kyoto \<Rightarrow> int \<Rightarrow> int \<Rightarrow> triple \<Rightarrow> ('t, 'c, 'h) merge_state \<Rightarrow> ('t, 'c, 'h) merge_state outcome" where
  "count_unless_local kc version patch_id key ms =
     bind_outcome (av_is_local_change version (ms_avalue ms)) (\<lambda>local_change.
       Inr (if \<not> local_change then count_addition kc patch_id key ms else ms))"

definition count_first ::
  "('t, 'c, 'h) kyoto \<Rightarrow> triple \<Rightarrow> ('t, 'c, 'h) merge_state \<Rightarrow> ('t, 'c, 'h) merge_state outcome" where
  "count_first kc key ms = count_unless_local kc (av_get_patch_id_at 0 (ms_avalue ms)) 0 key ms"

text \<open>The positions of a deletion: none for a local change.\<close>

definition next_positions ::
  "('t, 'c, 'h) kyoto \<Rightarrow> bool \<Rightarrow> triple \<Rightarrow> ('t, 'c, 'h) merge_state \<Rightarrow> patch_positions \<times> ('t, 'c, 'h) merge_state" where
  "next_positions kc local_change t ms =
     (if local_change then (pp_new, ms)
      else let (pp, c) = positions (kc_position kc) t (ms_counters ms) in (pp, ms\<lparr> ms_counters := c \<rparr>))"

text \<open>\<open>D < P\<close> and \<open>D < A\<close>: the deletion stays, with the positions it has in this version.\<close>

definition branch_deletion ::
  "('t, 'c, 'h) kyoto \<Rightarrow> int \<Rightarrow> triple \<Rightarrow> cursor \<Rightarrow> ('t, 'c, 'h) merge_state \<Rightarrow> ('t, 'c, 'h) merge_state outcome" where
  "branch_deletion kc patch_id dkey dcur ms =
     bind_outcome (dv_get_patch_at True 0 (ms_dvalue ms)) (\<lambda>first.
       if el_patch_id first \<le> patch_id then
         bind_outcome (dv_is_local_change True patch_id (ms_dvalue ms)) (\<lambda>local_change.
           let (pp, ms) = next_positions kc local_change dkey ms;
               index = dv_get_patchvalue_index patch_id (ms_dvalue ms) in
           bind_outcome
             (if index < 0 then Inr True
              else bind_outcome (dv_get_patch_at True index (ms_dvalue ms)) (\<lambda>e.
                     Inr (\<not> pp_eq (el_positions e) pp))) (\<lambda>insert.
           if insert then
             bind_outcome (dv_add True (dve_new patch_id False pp) (ms_dvalue ms)) (\<lambda>(has_changed, value).
             let ms = ms\<lparr> ms_dvalue := value \<rparr> in
             bind_outcome (store_deletion kc dkey dcur ms) (\<lambda>stored.
               Inr (if has_changed then stored else ms)))
           else Inr ms))
       else Inr ms)"

text \<open>\<open>A < P\<close> and \<open>A < D\<close>: the addition stays.\<close>

definition branch_addition ::
  "('t, 'c, 'h) kyoto \<Rightarrow> int \<Rightarrow> triple \<Rightarrow> cursor \<Rightarrow> ('t, 'c, 'h) merge_state \<Rightarrow> ('t, 'c, 'h) merge_state outcome" where
  "branch_addition kc patch_id akey acur ms =
     bind_outcome
       (if av_get_patch_id_at 0 (ms_avalue ms) \<le> patch_id
        then bind_outcome (av_is_patch_id patch_id (ms_avalue ms)) (\<lambda>b. Inr (\<not> b)) else Inr False) (\<lambda>insert.
     bind_outcome
       (if insert then
          bind_outcome (av_add patch_id (ms_avalue ms)) (\<lambda>(has_changed, value).
            let ms = ms\<lparr> ms_avalue := value \<rparr>
            in Inr (if has_changed then store_addition kc akey acur ms else ms))
        else Inr ms) (\<lambda>ms.
     bind_outcome (count_unless_local kc patch_id patch_id akey ms) (\<lambda>ms.
       count_first kc akey ms)))"

text \<open>\<open>P < A\<close> and \<open>P < D\<close>: a new triple.\<close>

definition branch_patch ::
  "('t, 'c, 'h) kyoto \<Rightarrow> int \<Rightarrow> patch_element \<Rightarrow> ('t, 'c, 'h) merge_state \<Rightarrow> ('t, 'c, 'h) merge_state outcome" where
  "branch_patch kc patch_id element ms =
     (if pe_addition element then
        bind_outcome (insert_addition_single (kc_tree kc) (kc_count kc) (pe_triple element) patch_id False True None
                        (ms_store ms)) (\<lambda>st.
          Inr (count_addition kc 0 (pe_triple element) (ms\<lparr> ms_store := st \<rparr>)))
      else
        (let (pp, ms) = next_positions kc False (pe_triple element) ms in
         bind_outcome (insert_deletion_single (kc_tree kc) (pe_triple element) pp patch_id False True None
                         (ms_store ms)) (\<lambda>st. Inr (ms\<lparr> ms_store := st \<rparr>))))"

text \<open>\<open>P = D\<close> and \<open>P < A\<close>: the deletion is undone by a local addition, or carried over.\<close>

definition branch_patch_deletion ::
  "('t, 'c, 'h) kyoto \<Rightarrow> int \<Rightarrow> patch_element \<Rightarrow> triple \<Rightarrow> cursor \<Rightarrow> ('t, 'c, 'h) merge_state \<Rightarrow>
   ('t, 'c, 'h) merge_state outcome" where
  "branch_patch_deletion kc patch_id element dkey dcur ms =
     (if pe_addition element then
        bind_outcome (dv_del patch_id (ms_dvalue ms)) (\<lambda>(has_changed, value).
        let ms = ms\<lparr> ms_dvalue := value \<rparr> in
        bind_outcome (if has_changed then store_deletion kc dkey dcur ms else Inr ms) (\<lambda>ms.
        bind_outcome (insert_addition_single (kc_tree kc) (kc_count kc) (pe_triple element) patch_id True True None
                        (ms_store ms)) (\<lambda>st. Inr (ms\<lparr> ms_store := st \<rparr>))))
      else
        bind_outcome (dv_is_local_change True patch_id (ms_dvalue ms)) (\<lambda>was_local_change.
        let (pp, ms) = next_positions kc was_local_change (pe_triple element) ms;
            el = dve_new patch_id False pp;
            el = (if was_local_change then dve_set_local_change el else el) in
        bind_outcome (dv_add True el (ms_dvalue ms)) (\<lambda>(has_changed, value).
        let ms = ms\<lparr> ms_dvalue := value \<rparr> in
          if has_changed then store_deletion kc dkey dcur ms else Inr ms)))"

text \<open>\<open>P = A\<close> and \<open>P < D\<close>: the addition is undone by a local deletion, or carried over.\<close>

definition branch_patch_addition ::
  "('t, 'c, 'h) kyoto \<Rightarrow> int \<Rightarrow> patch_element \<Rightarrow> triple \<Rightarrow> cursor \<Rightarrow> ('t, 'c, 'h) merge_state \<Rightarrow>
   ('t, 'c, 'h) merge_state outcome" where
  "branch_patch_addition kc patch_id element akey acur ms =
     bind_outcome
       (if \<not> pe_addition element then
          bind_outcome (av_del patch_id (ms_avalue ms)) (\<lambda>(ch1, value).
          bind_outcome (av_unset_local_change patch_id value) (\<lambda>(ch2, value).
          let ms = ms\<lparr> ms_avalue := value \<rparr>;
              ms = (if ch1 \<or> ch2 then store_addition kc akey acur ms else ms) in
          bind_outcome (insert_deletion_single (kc_tree kc) (pe_triple element) pp_new patch_id True True None
                          (ms_store ms)) (\<lambda>st. Inr (ms\<lparr> ms_store := st \<rparr>))))
        else
          bind_outcome (av_add patch_id (ms_avalue ms)) (\<lambda>(has_changed, value).
          let ms = ms\<lparr> ms_avalue := value \<rparr>;
              ms = (if has_changed then store_addition kc akey acur ms else ms) in
          count_unless_local kc patch_id patch_id akey ms)) (\<lambda>ms.
     count_first kc akey ms)"

text \<open>\<open>D = A < P\<close>, or \<open>P = A = D\<close>, the \<open>else\<close> of the chain: which of the two values has the larger last
  version decides, inverted when the triple is in the patch. \<open>element\<close> is the current element of the patch,
  which is past the triple in the first case.\<close>

definition inverted_add ::
  "('t, 'c, 'h) kyoto \<Rightarrow> int \<Rightarrow> bool \<Rightarrow> triple \<Rightarrow> triple \<Rightarrow> cursor \<Rightarrow> cursor \<Rightarrow> ('t, 'c, 'h) merge_state \<Rightarrow>
   ('t, 'c, 'h) merge_state outcome" where
  "inverted_add kc patch_id is_local_change dkey akey dcur acur ms =
     bind_outcome (av_add patch_id (ms_avalue ms)) (\<lambda>(ch1, value).
     bind_outcome (if is_local_change then av_set_local_change patch_id value else Inr (False, value)) (\<lambda>(ch2, value).
     let ms = ms\<lparr> ms_avalue := value \<rparr>;
         ms = (if ch1 \<or> ch2 then store_addition kc akey acur ms else ms);
         ms = (if \<not> is_local_change then count_addition kc patch_id akey ms else ms) in
     bind_outcome (dv_del patch_id (ms_dvalue ms)) (\<lambda>(has_changed_del, value).
     let ms = ms\<lparr> ms_dvalue := value \<rparr> in
       if has_changed_del then store_deletion kc dkey dcur ms else Inr ms)))"

definition inverted_delete ::
  "('t, 'c, 'h) kyoto \<Rightarrow> int \<Rightarrow> bool \<Rightarrow> patch_element \<Rightarrow> triple \<Rightarrow> triple \<Rightarrow> cursor \<Rightarrow> cursor \<Rightarrow>
   ('t, 'c, 'h) merge_state \<Rightarrow> ('t, 'c, 'h) merge_state outcome" where
  "inverted_delete kc patch_id is_local_change element dkey akey dcur acur ms =
     (let (pp, ms) = next_positions kc is_local_change (pe_triple element) ms;
          el = dve_new patch_id False pp;
          el = (if is_local_change then dve_set_local_change el else el) in
      bind_outcome (dv_add True el (ms_dvalue ms)) (\<lambda>(has_changed_del, value).
      let ms = ms\<lparr> ms_dvalue := value \<rparr> in
      bind_outcome (if has_changed_del then store_deletion kc dkey dcur ms else Inr ms) (\<lambda>ms.
      bind_outcome (av_del patch_id (ms_avalue ms)) (\<lambda>(ch1, value).
      bind_outcome (av_is_local_change patch_id value) (\<lambda>local_change.
      bind_outcome (if local_change then av_unset_local_change patch_id value else Inr (False, value)) (\<lambda>(ch2, value).
      let ms = ms\<lparr> ms_avalue := value \<rparr> in
        Inr (if ch1 \<or> ch2 then store_addition kc akey acur ms else ms)))))))"

definition branch_equal ::
  "('t, 'c, 'h) kyoto \<Rightarrow> int \<Rightarrow> bool \<Rightarrow> patch_element \<Rightarrow> triple \<Rightarrow> triple \<Rightarrow> cursor \<Rightarrow> cursor \<Rightarrow>
   ('t, 'c, 'h) merge_state \<Rightarrow> ('t, 'c, 'h) merge_state outcome" where
  "branch_equal kc patch_id should_step_patch element dkey akey dcur acur ms =
     (let avalue = av_set_max_patch_id patch_id (ms_avalue ms);
          dvalue = ms_dvalue ms;
          largest_addition = av_get_patch_id_at (av_get_size avalue - 1) avalue in
      bind_outcome (dv_get_patch_at True (dv_get_size dvalue - 1) dvalue) (\<lambda>last.
      let largest_deletion = el_patch_id last in
      bind_outcome (if largest_addition < largest_deletion then dv_is_local_change True patch_id dvalue
                    else av_is_local_change patch_id avalue) (\<lambda>is_local_change.
      let add_addition = (largest_addition > largest_deletion);
          add_deletion = (largest_deletion > largest_addition);
          is_local_change = (if should_step_patch then \<not> is_local_change else is_local_change);
          add_addition = (if should_step_patch then \<not> add_addition else add_addition);
          add_deletion = (if should_step_patch then \<not> add_deletion else add_deletion);
          ms = ms\<lparr> ms_avalue := av_set_max_patch_id (patch_id + 1) avalue \<rparr> in
      bind_outcome (count_first kc akey ms) (\<lambda>ms.
        if add_addition then inverted_add kc patch_id is_local_change dkey akey dcur acur ms
        else if add_deletion
          then inverted_delete kc patch_id is_local_change element dkey akey dcur acur ms
        else Inr ms))))"

section \<open>The loop\<close>

definition read_patch ::
  "(patch_element \<Rightarrow> 'i \<Rightarrow> bool \<times> patch_element \<times> 'i) \<Rightarrow> ('t, 'c, 'h, 'i) append_state \<Rightarrow>
   ('t, 'c, 'h, 'i) append_state" where
  "read_patch next s =
     (if as_step_p s then
        let (b, e, it) = next (as_element s) (as_iter s)
        in s\<lparr> as_p_ended := \<not> b, as_element := e, as_iter := it \<rparr>
      else s)"

definition read_deletion ::
  "('t, 'c, 'h) kyoto \<Rightarrow> ('t, 'c, 'h, 'i) append_state \<Rightarrow> ('t, 'c, 'h, 'i) append_state outcome" where
  "read_deletion kc s =
     (if as_step_d s then
        case cursor_get (kc_tree kc) (get_default_deletions_tree (ms_store (as_data s))) (as_dcur s) of
          None \<Rightarrow> Inr (s\<lparr> as_d_ended := True \<rparr>)
        | Some (k, raw) \<Rightarrow>
            bind_outcome (dv_deserialize raw (ms_dvalue (as_data s))) (\<lambda>value.
              Inr (s\<lparr> as_d_ended := False, as_data := (as_data s)\<lparr> ms_dvalue := value \<rparr>, as_dkey := k \<rparr>))
      else Inr s)"

definition read_addition ::
  "('t, 'c, 'h) kyoto \<Rightarrow> ('t, 'c, 'h, 'i) append_state \<Rightarrow> ('t, 'c, 'h, 'i) append_state outcome" where
  "read_addition kc s =
     (if as_step_a s then
        case cursor_get (kc_tree kc) (get_default_additions_tree (ms_store (as_data s))) (as_acur s) of
          None \<Rightarrow> Inr (s\<lparr> as_a_ended := True \<rparr>)
        | Some (k, raw) \<Rightarrow>
            bind_outcome (av_deserialize raw (ms_avalue (as_data s))) (\<lambda>value.
              Inr (s\<lparr> as_a_ended := False, as_data := (as_data s)\<lparr> ms_avalue := value \<rparr>, as_akey := k \<rparr>))
      else Inr s)"

definition set_steps ::
  "bool \<Rightarrow> bool \<Rightarrow> bool \<Rightarrow> ('t, 'c, 'h) merge_state \<Rightarrow> ('t, 'c, 'h, 'i) append_state \<Rightarrow> ('t, 'c, 'h, 'i) append_state" where
  "set_steps p d a data s = s\<lparr> as_data := data, as_step_p := p, as_step_d := d, as_step_a := a \<rparr>"

definition append_branch ::
  "('t, 'c, 'h) kyoto \<Rightarrow> int \<Rightarrow> ('t, 'c, 'h, 'i) append_state \<Rightarrow> ('t, 'c, 'h, 'i) append_state outcome" where
  "append_branch kc patch_id s =
     (let ms = as_data s; cmp = key_compare (get_spo_comparator (ms_store ms));
          element = as_element s; dkey = as_dkey s; akey = as_akey s; dcur = as_dcur s; acur = as_acur s in
      if p_gt_d cmp s \<and> d_lt_a cmp s then
        bind_outcome (branch_deletion kc patch_id dkey dcur ms) (\<lambda>ms. Inr (set_steps False True False ms s))
      else if p_gt_a cmp s \<and> a_lt_d cmp s then
        bind_outcome (branch_addition kc patch_id akey acur ms) (\<lambda>ms. Inr (set_steps False False True ms s))
      else if p_lt_a cmp s \<and> p_lt_d cmp s then
        bind_outcome (branch_patch kc patch_id element ms) (\<lambda>ms. Inr (set_steps True False False ms s))
      else if p_eq_d cmp s \<and> p_lt_a cmp s then
        bind_outcome (branch_patch_deletion kc patch_id element dkey dcur ms) (\<lambda>ms.
          Inr (set_steps True True False ms s))
      else if p_eq_a cmp s \<and> p_lt_d cmp s then
        bind_outcome (branch_patch_addition kc patch_id element akey acur ms) (\<lambda>ms.
          Inr (set_steps True False True ms s))
      else
        (let should_step_patch = (\<not> p_gt_d cmp s) in
         bind_outcome (branch_equal kc patch_id should_step_patch element dkey akey dcur acur ms) (\<lambda>ms.
           Inr (set_steps should_step_patch True True ms s))))"

definition step_cursors :: "('t, 'c, 'h) kyoto \<Rightarrow> ('t, 'c, 'h, 'i) append_state \<Rightarrow> ('t, 'c, 'h, 'i) append_state" where
  "step_cursors kc s =
     (let d = as_step_d s \<and> \<not> as_d_ended s; a = as_step_a s \<and> \<not> as_a_ended s;
          st = ms_store (as_data s) in
      s\<lparr> as_step_d := d, as_step_a := a,
         as_dcur := (if d then cursor_step (kc_tree kc) (get_default_deletions_tree st) (as_dcur s) else as_dcur s),
         as_acur := (if a then cursor_step (kc_tree kc) (get_default_additions_tree st) (as_acur s) else as_acur s) \<rparr>)"

text \<open>The loop as far as \<open>fuel\<close> goes; \<open>None\<close> when it has not ended by then.\<close>

fun append_loop ::
  "('t, 'c, 'h) kyoto \<Rightarrow> (patch_element \<Rightarrow> 'i \<Rightarrow> bool \<times> patch_element \<times> 'i) \<Rightarrow> int \<Rightarrow> nat \<Rightarrow>
   ('t, 'c, 'h, 'i) append_state \<Rightarrow> ('t, 'c, 'h, 'i) append_state outcome option" where
  "append_loop kc next patch_id 0 s = None"
| "append_loop kc next patch_id (Suc fuel) s =
     (case bind_outcome (read_deletion kc (read_patch next s)) (read_addition kc) of
        Inl e \<Rightarrow> Some (Inl e)
      | Inr s \<Rightarrow>
          if as_p_ended s \<and> as_d_ended s \<and> as_a_ended s then Some (Inr s)
          else (case append_branch kc patch_id s of
                  Inl e \<Rightarrow> Some (Inl e)
                | Inr s \<Rightarrow> append_loop kc next patch_id fuel (step_cursors kc s)))"

section \<open>Appending a patch\<close>

definition append_start ::
  "('t, 'c, 'h) kyoto \<Rightarrow> 'i \<Rightarrow> ('t, 'c, 'h) patch_tree \<Rightarrow> ('t, 'c, 'h, 'i) append_state" where
  "append_start kc it pt =
     (let st = pt_store pt in
      \<lparr> as_data = \<lparr> ms_store = st, ms_counters = (clear_temp_insertion_trees kc (pt_counters pt))\<lparr> pc_all := 0 \<rparr>,
           ms_dvalue = dv_new (pt_max_patch_id pt), ms_avalue = av_new (pt_max_patch_id pt) \<rparr>,
        as_iter = it, as_element = pe_new (mk_triple 0 0 0) True,
        as_dcur = tree_first (kc_tree kc) (get_default_deletions_tree st),
        as_acur = tree_first (kc_tree kc) (get_default_additions_tree st),
        as_dkey = default_triple, as_akey = default_triple,
        as_step_p = True, as_step_d = True, as_step_a = True,
        as_p_ended = False, as_d_ended = False, as_a_ended = False \<rparr>)"

definition append_finish ::
  "('t, 'c, 'h) kyoto \<Rightarrow> int \<Rightarrow> ('t, 'c, 'h) merge_state \<Rightarrow> ('t, 'c, 'h) patch_tree \<Rightarrow> ('t, 'c, 'h) patch_tree" where
  "append_finish kc patch_id ms pt =
     pt\<lparr> pt_store := snd (flush_addition_counts (kc_count kc) (ms_store ms)),
         pt_counters := ms_counters ms,
         pt_max_patch_id := (if patch_id > pt_max_patch_id pt then patch_id else pt_max_patch_id pt) \<rparr>"

definition append_unsafe ::
  "('t, 'c, 'h) kyoto \<Rightarrow> (patch_element \<Rightarrow> 'i \<Rightarrow> bool \<times> patch_element \<times> 'i) \<Rightarrow> nat \<Rightarrow> 'i \<Rightarrow> int \<Rightarrow>
   ('t, 'c, 'h) patch_tree \<Rightarrow> ('t, 'c, 'h) patch_tree outcome option" where
  "append_unsafe kc next fuel it patch_id pt =
     (if pt_readonly pt then Some (Inl Invalid_argument)
      else (case append_loop kc next patch_id fuel (append_start kc it pt) of
              None \<Rightarrow> None
            | Some (Inl e) \<Rightarrow> Some (Inl e)
            | Some (Inr s) \<Rightarrow> Some (Inr (append_finish kc patch_id (as_data s) pt))))"

section \<open>Membership\<close>

definition contains_addition ::
  "('t, 'c, 'h) kyoto \<Rightarrow> patch_element \<Rightarrow> int \<Rightarrow> ('t, 'c, 'h) patch_tree \<Rightarrow> bool outcome" where
  "contains_addition kc element patch_id pt =
     (case tree_get (kc_tree kc) (get_default_additions_tree (pt_store pt)) (pe_triple element) of
        None \<Rightarrow> Inr False
      | Some raw_value \<Rightarrow>
          bind_outcome (av_deserialize raw_value (av_new (pt_max_patch_id pt))) (av_is_patch_id patch_id))"

definition contains_deletion ::
  "('t, 'c, 'h) kyoto \<Rightarrow> patch_element \<Rightarrow> int \<Rightarrow> ('t, 'c, 'h) patch_tree \<Rightarrow> bool outcome" where
  "contains_deletion kc element patch_id pt =
     (case tree_get (kc_tree kc) (get_default_deletions_tree (pt_store pt)) (pe_triple element) of
        None \<Rightarrow> Inr False
      | Some raw_value \<Rightarrow>
          bind_outcome (dv_deserialize raw_value (dv_new (pt_max_patch_id pt))) (\<lambda>value.
            Inr (dv_get_patchvalue_index patch_id value \<ge> 0)))"

definition contains ::
  "('t, 'c, 'h) kyoto \<Rightarrow> patch_element \<Rightarrow> int \<Rightarrow> bool \<Rightarrow> ('t, 'c, 'h) patch_tree \<Rightarrow> bool outcome" where
  "contains kc element patch_id ignore_type pt =
     (if ignore_type then
        bind_outcome (contains_addition kc element patch_id pt) (\<lambda>b.
          if b then Inr True else contains_deletion kc element patch_id pt)
      else if pe_addition element then contains_addition kc element patch_id pt
      else contains_deletion kc element patch_id pt)"

text \<open>The check of \<open>append\<close>: whether an element of the patch is in the tree for the version already.\<close>

fun contains_any ::
  "('t, 'c, 'h) kyoto \<Rightarrow> (patch_element \<Rightarrow> 'i \<Rightarrow> bool \<times> patch_element \<times> 'i) \<Rightarrow> nat \<Rightarrow> patch_element \<Rightarrow> 'i \<Rightarrow> int \<Rightarrow>
   ('t, 'c, 'h) patch_tree \<Rightarrow> (bool \<times> 'i) outcome option" where
  "contains_any kc next 0 element it patch_id pt = None"
| "contains_any kc next (Suc fuel) element it patch_id pt =
     (let (b, element, it) = next element it in
      if \<not> b then Some (Inr (False, it))
      else (case contains kc element patch_id True pt of
              Inl e \<Rightarrow> Some (Inl e)
            | Inr True \<Rightarrow> Some (Inr (True, it))
            | Inr False \<Rightarrow> contains_any kc next fuel element it patch_id pt))"

definition append_checked ::
  "('t, 'c, 'h) kyoto \<Rightarrow> (patch_element \<Rightarrow> 'i \<Rightarrow> bool \<times> patch_element \<times> 'i) \<Rightarrow> ('i \<Rightarrow> 'i) \<Rightarrow> nat \<Rightarrow> 'i \<Rightarrow> int \<Rightarrow>
   ('t, 'c, 'h) patch_tree \<Rightarrow> (bool \<times> ('t, 'c, 'h) patch_tree) outcome option" where
  "append_checked kc next go_to_start fuel it patch_id pt =
     (case contains_any kc next fuel (pe_new (mk_triple 0 0 0) True) it patch_id pt of
        None \<Rightarrow> None
      | Some (Inl e) \<Rightarrow> Some (Inl e)
      | Some (Inr (True, it)) \<Rightarrow> Some (Inr (False, pt))
      | Some (Inr (False, it)) \<Rightarrow>
          (case append_unsafe kc next fuel (go_to_start it) patch_id pt of
             None \<Rightarrow> None
           | Some (Inl e) \<Rightarrow> Some (Inl e)
           | Some (Inr pt) \<Rightarrow> Some (Inr (True, pt))))"

definition append_patch ::
  "('t, 'c, 'h) kyoto \<Rightarrow> nat \<Rightarrow> patch_sorted \<Rightarrow> int \<Rightarrow> ('t, 'c, 'h) patch_tree \<Rightarrow>
   (bool \<times> ('t, 'c, 'h) patch_tree) outcome option" where
  "append_patch kc fuel patch patch_id pt =
     append_checked kc vi_next vi_go_to_start fuel (vi_new (ps_elements patch)) patch_id pt"

section \<open>Values of a triple\<close>

definition get_deletion_value ::
  "('t, 'c, 'h) kyoto \<Rightarrow> triple \<Rightarrow> ('t, 'c, 'h) patch_tree \<Rightarrow> deletion_value option outcome" where
  "get_deletion_value kc t pt =
     (case tree_get (kc_tree kc) (get_default_deletions_tree (pt_store pt)) t of
        None \<Rightarrow> Inr None
      | Some raw \<Rightarrow> bind_outcome (dv_deserialize raw (dv_new (pt_max_patch_id pt))) (\<lambda>v. Inr (Some v)))"

definition get_addition_value ::
  "('t, 'c, 'h) kyoto \<Rightarrow> triple \<Rightarrow> ('t, 'c, 'h) patch_tree \<Rightarrow> addition_value option outcome" where
  "get_addition_value kc t pt =
     (case tree_get (kc_tree kc) (get_default_additions_tree (pt_store pt)) t of
        None \<Rightarrow> Inr None
      | Some raw \<Rightarrow> bind_outcome (av_deserialize raw (av_new (pt_max_patch_id pt))) (\<lambda>v. Inr (Some v)))"

text \<open>The value of the first triple of the tree at or after the pattern, when it matches the pattern.\<close>

definition get_deletion_value_after ::
  "('t, 'c, 'h) kyoto \<Rightarrow> triple \<Rightarrow> ('t, 'c, 'h) patch_tree \<Rightarrow> deletion_value option outcome" where
  "get_deletion_value_after kc triple_pattern pt =
     (let tree = get_deletions_tree triple_pattern (pt_store pt) in
      case cursor_get (kc_tree kc) tree (tree_from (kc_tree kc) tree triple_pattern) of
        None \<Rightarrow> Inr None
      | Some (t, raw) \<Rightarrow>
          if \<not> pattern_match_triple t triple_pattern then Inr None
          else bind_outcome (dv_deserialize raw (dv_new (pt_max_patch_id pt))) (\<lambda>v. Inr (Some v)))"

end
