(* ===== verification/Patch_Tree_Merge.thy ===== *)
theory Patch_Tree_Merge
  imports Patch_Tree
begin

text \<open>
  What \<open>append\<close> does (theory \<open>Patch_Tree\<close>): its three-way merge is a visit of every triple of the patch and
  of the two trees, once each, in the order of the comparator.
\<close>

section \<open>The reference\<close>

text \<open>Read the records of a triple, then take the branch for where the triple is; \<open>here\<close> tells whether it is
  in the patch, whose current element is \<open>cur\<close>.\<close>

definition load_deletion ::
  "('t, 'c, 'h) kyoto \<Rightarrow> triple \<Rightarrow> ('t, 'c, 'h) merge_state \<Rightarrow> ('t, 'c, 'h) merge_state outcome" where
  "load_deletion kc t ms =
     (case tree_get (kc_tree kc) (ts_spo_deletions (ms_store ms)) t of
        None \<Rightarrow> Inr ms
      | Some raw \<Rightarrow> bind_outcome (dv_deserialize raw (ms_dvalue ms)) (\<lambda>v. Inr (ms\<lparr> ms_dvalue := v \<rparr>)))"

definition load_addition ::
  "('t, 'c, 'h) kyoto \<Rightarrow> triple \<Rightarrow> ('t, 'c, 'h) merge_state \<Rightarrow> ('t, 'c, 'h) merge_state outcome" where
  "load_addition kc t ms =
     (case tree_get (kc_tree kc) (ts_spo_additions (ms_store ms)) t of
        None \<Rightarrow> Inr ms
      | Some raw \<Rightarrow> bind_outcome (av_deserialize raw (ms_avalue ms)) (\<lambda>v. Inr (ms\<lparr> ms_avalue := v \<rparr>)))"

definition is_deleted_key :: "('t, 'c, 'h) kyoto \<Rightarrow> triple \<Rightarrow> ('t, 'c) triple_store \<Rightarrow> bool" where
  "is_deleted_key kc t st \<longleftrightarrow> tree_get (kc_tree kc) (ts_spo_deletions st) t \<noteq> None"

definition is_added_key :: "('t, 'c, 'h) kyoto \<Rightarrow> triple \<Rightarrow> ('t, 'c) triple_store \<Rightarrow> bool" where
  "is_added_key kc t st \<longleftrightarrow> tree_get (kc_tree kc) (ts_spo_additions st) t \<noteq> None"

definition visit_branch ::
  "('t, 'c, 'h) kyoto \<Rightarrow> int \<Rightarrow> triple \<Rightarrow> bool \<Rightarrow> patch_element \<Rightarrow> bool \<Rightarrow> bool \<Rightarrow> ('t, 'c, 'h) merge_state \<Rightarrow>
   ('t, 'c, 'h) merge_state outcome" where
  "visit_branch kc patch_id t here cur d a ms =
     (if d \<and> a then branch_equal kc patch_id here cur t t (Some t) (Some t) ms
      else if d then
        if here then branch_patch_deletion kc patch_id cur t (Some t) ms
        else branch_deletion kc patch_id t (Some t) ms
      else if a then
        if here then branch_patch_addition kc patch_id cur t (Some t) ms
        else branch_addition kc patch_id t (Some t) ms
      else if here then branch_patch kc patch_id cur ms
      else Inr ms)"

definition visit ::
  "('t, 'c, 'h) kyoto \<Rightarrow> int \<Rightarrow> triple \<Rightarrow> bool \<Rightarrow> patch_element \<Rightarrow> ('t, 'c, 'h) merge_state \<Rightarrow>
   ('t, 'c, 'h) merge_state outcome" where
  "visit kc patch_id t here cur ms =
     bind_outcome (load_deletion kc t ms) (\<lambda>ms.
     bind_outcome (load_addition kc t ms) (\<lambda>ms.
       visit_branch kc patch_id t here cur (is_deleted_key kc t (ms_store ms)) (is_added_key kc t (ms_store ms)) ms))"

text \<open>The current element of a patch with the elements \<open>es\<close> left: the last one when none is left.\<close>

definition current :: "patch_element list \<Rightarrow> patch_element \<Rightarrow> patch_element" where
  "current es prev = (case es of [] \<Rightarrow> prev | e # _ \<Rightarrow> e)"

definition at_head :: "triple \<Rightarrow> triple list \<Rightarrow> bool" where
  "at_head t ts \<longleftrightarrow> (case ts of [] \<Rightarrow> False | x # _ \<Rightarrow> x = t)"

definition past :: "triple \<Rightarrow> triple list \<Rightarrow> triple list" where
  "past t ts = (if at_head t ts then tl ts else ts)"

fun visit_all ::
  "('t, 'c, 'h) kyoto \<Rightarrow> int \<Rightarrow> triple list \<Rightarrow> patch_element list \<Rightarrow> patch_element \<Rightarrow> ('t, 'c, 'h) merge_state \<Rightarrow>
   ('t, 'c, 'h) merge_state outcome" where
  "visit_all kc patch_id [] es prev ms = Inr ms"
| "visit_all kc patch_id (t # ts) es prev ms =
     (let here = at_head t (map pe_triple es); cur = current es prev in
      bind_outcome (visit kc patch_id t here cur ms) (\<lambda>ms.
        visit_all kc patch_id ts (if here then tl es else es) cur ms))"

section \<open>Trees and sorted lists\<close>

abbreviation ascending :: "(triple \<Rightarrow> triple \<Rightarrow> int) \<Rightarrow> triple list \<Rightarrow> bool" where
  "ascending cmp \<equiv> sorted_wrt (\<lambda>a b. cmp a b < 0)"

lemma ascending_unique:
  assumes "comparison cmp A" "ascending cmp xs" "ascending cmp ys" "set xs = set ys" "set xs \<subseteq> A"
  shows "xs = ys"
  using assms(2-)
proof (induction xs arbitrary: ys)
  case Nil
  then show ?case by simp
next
  case (Cons x xs)
  obtain y zs where ys: "ys = y # zs" using Cons.prems(3) by (cases ys) auto
  note asym = comparison.cmp_asym [OF assms(1)]
  have irr: "a \<in> A \<Longrightarrow> \<not> cmp a a < 0" for a using comparison.cmp_self [OF assms(1)] by simp
  have inA: "x \<in> A" "y \<in> A" "set xs \<subseteq> A" "set zs \<subseteq> A" using Cons.prems(3,4) by (auto simp: ys)
  have "x = y"
  proof (rule ccontr)
    assume "x \<noteq> y"
    then have "x \<in> set zs" "y \<in> set xs" using Cons.prems(3) by (auto simp: ys)
    then show False using Cons.prems(1,2) asym [OF inA(1,2)] by (auto simp: ys)
  qed
  moreover have "x \<notin> set xs" "y \<notin> set zs" using Cons.prems(1,2) irr inA by (auto simp: ys)
  ultimately show ?case using Cons.IH [of zs] Cons.prems inA by (simp add: ys insert_ident)
qed

lemma find_after:
  assumes "comparison cmp A" "ascending cmp (xs @ k # ds)" "set (xs @ k # ds) \<subseteq> A"
  shows "find (\<lambda>x. cmp k x < 0) (xs @ k # ds) = find (\<lambda>x. True) ds"
proof -
  have "\<not> cmp k x < 0" if "x \<in> set xs" for x
    using assms(2,3) comparison.cmp_asym [OF assms(1), of x k] that by (auto simp: sorted_wrt_append)
  then have "find (\<lambda>x. cmp k x < 0) (xs @ ys) = find (\<lambda>x. cmp k x < 0) ys" for ys
    by (induction xs) auto
  moreover have "\<not> cmp k k < 0" using comparison.cmp_self [OF assms(1)] assms(3) by simp
  moreover have "find (\<lambda>x. cmp k x < 0) ds = find (\<lambda>x. True) ds"
    using assms(2) by (cases ds) (auto simp: sorted_wrt_append)
  ultimately show ?thesis by simp
qed

text \<open>The keys from a place on are the same when a tree gets a key before that place.\<close>

lemma keys_suffix:
  assumes "comparison cmp A" "ascending cmp l" "ascending cmp (xs @ ds)" "set l \<subseteq> A"
    "set l = set (xs @ ds) \<or> set l = insert t (set (xs @ ds))" "t \<in> A" "\<forall>x\<in>set ds. cmp t x < 0"
  shows "\<exists>ys. l = ys @ ds"
proof -
  let ?ys = "filter (\<lambda>x. x \<notin> set ds) l"
  have sub: "set ?ys \<subseteq> insert t (set xs)" using assms(5) by auto
  have "ascending cmp (?ys @ ds)"
    using assms(2,3,7) sub by (auto simp: sorted_wrt_append intro: sorted_wrt_filter)
  moreover have "set (?ys @ ds) = set l" using assms(5) by auto
  ultimately have "l = ?ys @ ds" by (intro ascending_unique [OF assms(1,2)]) (use assms(4) in auto)
  then show ?thesis ..
qed

section \<open>What a branch touches\<close>

text \<open>The records of one triple only; the trees stay consistent, and a record that is there stays there.\<close>

definition touches ::
  "('t, 'c, 'h) kyoto \<Rightarrow> (component_order \<Rightarrow> 't \<Rightarrow> bool) \<Rightarrow> triple \<Rightarrow> ('t, 'c) triple_store \<Rightarrow> ('t, 'c) triple_store \<Rightarrow> bool" where
  "touches kc valid t st st' \<longleftrightarrow>
     (store_ok (kc_tree kc) valid st \<longrightarrow> store_ok (kc_tree kc) valid st' \<and>
      (\<forall>k. k \<noteq> t \<longrightarrow> tree_get (kc_tree kc) (ts_spo_deletions st') k = tree_get (kc_tree kc) (ts_spo_deletions st) k \<and>
        tree_get (kc_tree kc) (ts_spo_additions st') k = tree_get (kc_tree kc) (ts_spo_additions st) k) \<and>
      (is_deleted_key kc t st \<longrightarrow> is_deleted_key kc t st') \<and> (is_added_key kc t st \<longrightarrow> is_added_key kc t st') \<and>
      ts_dict st' = ts_dict st)"

lemma touches_refl [simp]: "touches kc valid t st st"
  by (simp add: touches_def)

lemma touches_trans: "touches kc valid t st st' \<Longrightarrow> touches kc valid t st' st'' \<Longrightarrow> touches kc valid t st st''"
  by (auto simp: touches_def)

lemma dict_insert_values [simp]:
  "ts_dict (insert_addition_value db key v cur st) = ts_dict st"
  "ts_dict (insert_deletion_value db key w r cur st) = ts_dict st"
  "ts_dict (increment_addition_counts cdb p t st) = ts_dict st"
  by (simp_all add: insert_addition_value_def insert_deletion_value_def increment_addition_counts_def
      increment_addition_count_def Let_def)

lemma touches_addition:
  assumes "store_laws (kc_tree kc) m A keys valid" "t \<in> A" "cursor = None \<or> cursor = Some (Some t)"
  shows "touches kc valid t st (insert_addition_value (kc_tree kc) t v cursor st)"
  unfolding touches_def is_deleted_key_def is_added_key_def
proof
  let ?st = "insert_addition_value (kc_tree kc) t v cursor st"
  assume "store_ok (kc_tree kc) valid st"
  note a = insert_addition_value_ok [OF assms(1) this assms(2,3), of v]
  show "store_ok (kc_tree kc) valid ?st \<and>
      (\<forall>k. k \<noteq> t \<longrightarrow>
         tree_get (kc_tree kc) (ts_spo_deletions ?st) k =
           tree_get (kc_tree kc) (ts_spo_deletions st) k \<and>
         tree_get (kc_tree kc) (ts_spo_additions ?st) k =
           tree_get (kc_tree kc) (ts_spo_additions st) k) \<and>
      (tree_get (kc_tree kc) (ts_spo_deletions st) t \<noteq> None \<longrightarrow>
         tree_get (kc_tree kc) (ts_spo_deletions ?st) t \<noteq> None) \<and>
      (tree_get (kc_tree kc) (ts_spo_additions st) t \<noteq> None \<longrightarrow>
         tree_get (kc_tree kc) (ts_spo_additions ?st) t \<noteq> None) \<and>
      ts_dict ?st = ts_dict st"
    by (simp add: a)
qed

lemma touches_deletion:
  assumes "store_laws (kc_tree kc) m A keys valid" "t \<in> A" "cursor = None \<or> cursor = Some (Some t)"
    "dv_to_reduced True v = Inr r"
  shows "touches kc valid t st (insert_deletion_value (kc_tree kc) t v r cursor st)"
  unfolding touches_def is_deleted_key_def is_added_key_def
proof
  let ?st = "insert_deletion_value (kc_tree kc) t v r cursor st"
  assume "store_ok (kc_tree kc) valid st"
  note a = insert_deletion_value_ok [OF assms(1) this assms(2,3,4)]
  show "store_ok (kc_tree kc) valid ?st \<and>
      (\<forall>k. k \<noteq> t \<longrightarrow>
         tree_get (kc_tree kc) (ts_spo_deletions ?st) k = tree_get (kc_tree kc) (ts_spo_deletions st) k \<and>
         tree_get (kc_tree kc) (ts_spo_additions ?st) k = tree_get (kc_tree kc) (ts_spo_additions st) k) \<and>
      (tree_get (kc_tree kc) (ts_spo_deletions st) t \<noteq> None \<longrightarrow>
         tree_get (kc_tree kc) (ts_spo_deletions ?st) t \<noteq> None) \<and>
      (tree_get (kc_tree kc) (ts_spo_additions st) t \<noteq> None \<longrightarrow>
         tree_get (kc_tree kc) (ts_spo_additions ?st) t \<noteq> None) \<and>
      ts_dict ?st = ts_dict st"
    by (simp add: a)
qed

lemma touches_counts [simp]:
  "touches kc valid t st (increment_addition_counts cdb p u st') \<longleftrightarrow> touches kc valid t st st'"
  by (simp add: touches_def increment_counts_trees is_deleted_key_def is_added_key_def)

lemma touches_store_deletion:
  assumes "store_laws (kc_tree kc) m A keys valid" "t \<in> A" "store_deletion kc t (Some t) ms = Inr ms'"
  shows "touches kc valid t (ms_store ms) (ms_store ms')" "ms_avalue ms' = ms_avalue ms" "ms_dvalue ms' = ms_dvalue ms"
  using assms(3) touches_deletion [OF assms(1,2)]
  by (auto simp: store_deletion_def bind_outcome_eq_Inr)

lemma touches_store_addition:
  assumes "store_laws (kc_tree kc) m A keys valid" "t \<in> A"
  shows "touches kc valid t (ms_store ms) (ms_store (store_addition kc t (Some t) ms))"
  using touches_addition [OF assms] by (simp add: store_addition_def)

lemma touches_addition_single:
  assumes "store_laws (kc_tree kc) m A keys valid" "t \<in> A"
    "insert_addition_single (kc_tree kc) cdb t p lc True None st = Inr st'"
  shows "touches kc valid t st st'"
  using assms(3) touches_addition [OF assms(1,2), of None]
  by (auto simp: insert_addition_single_def bind_outcome_eq_Inr Let_def split: if_splits)

lemma touches_deletion_single:
  assumes "store_laws (kc_tree kc) m A keys valid" "t \<in> A"
    "insert_deletion_single (kc_tree kc) t pp p lc True None st = Inr st'"
  shows "touches kc valid t st st'"
  using assms(3) touches_deletion [OF assms(1,2), of None]
  by (auto simp: insert_deletion_single_def bind_outcome_eq_Inr Let_def split: if_splits)

lemma count_addition_store [simp]:
  "touches kc valid u st (ms_store (count_addition kc p t ms)) \<longleftrightarrow> touches kc valid u st (ms_store ms)"
  by (simp add: count_addition_def)

lemma count_unless_local_cases:
  "count_unless_local kc v p t ms = Inr ms' \<Longrightarrow> ms' = ms \<or> ms' = count_addition kc p t ms"
  by (auto simp: count_unless_local_def bind_outcome_eq_Inr)

lemma count_first_cases: "count_first kc t ms = Inr ms' \<Longrightarrow> ms' = ms \<or> ms' = count_addition kc 0 t ms"
  unfolding count_first_def by (rule count_unless_local_cases)

lemma next_positions_store:
  "next_positions kc lc t ms = (pp, ms') \<Longrightarrow> ms_store ms' = ms_store ms"
  by (auto simp: next_positions_def Let_def split: if_splits prod.splits)

lemmas branch_defs = branch_deletion_def branch_addition_def branch_patch_def branch_patch_deletion_def
  branch_patch_addition_def inverted_add_def inverted_delete_def branch_equal_def

section \<open>A branch leaves the other value object alone\<close>

lemma bind_outcome_assoc: "bind_outcome (bind_outcome r f) g = bind_outcome r (\<lambda>x. bind_outcome (f x) g)"
  by (cases r) auto

lemma bind_outcome_if:
  "bind_outcome (if b then r else r') f = (if b then bind_outcome r f else bind_outcome r' f)"
  by simp

lemma bind_outcome_prod: "bind_outcome (case p of (a, b) \<Rightarrow> g a b) f = (case p of (a, b) \<Rightarrow> bind_outcome (g a b) f)"
  by (cases p) auto

lemmas bind_normal = bind_outcome_assoc bind_outcome_prod bind_outcome_if Let_def case_prod_unfold

lemma value_commute:
  "ms\<lparr> ms_avalue := x, ms_dvalue := y \<rparr> = (ms :: ('t, 'c, 'h) merge_state)\<lparr> ms_dvalue := y, ms_avalue := x \<rparr>"
  by simp

lemma update_commute [simp]:
  "ms\<lparr> ms_avalue := x, ms_store := st \<rparr> = ms\<lparr> ms_store := st, ms_avalue := x \<rparr>"
  "ms\<lparr> ms_dvalue := y, ms_store := st \<rparr> = ms\<lparr> ms_store := st, ms_dvalue := y \<rparr>"
  by simp_all

lemma update_if [simp]:
  "(if b then r else r')\<lparr> ms_avalue := x \<rparr> = (if b then r\<lparr> ms_avalue := x \<rparr> else r'\<lparr> ms_avalue := x \<rparr>)"
  "(if b then r else r')\<lparr> ms_dvalue := y \<rparr> = (if b then r\<lparr> ms_dvalue := y \<rparr> else r'\<lparr> ms_dvalue := y \<rparr>)"
  by simp_all

lemma store_deletion_avalue:
  "store_deletion kc key cur (ms\<lparr> ms_avalue := x \<rparr>) =
     bind_outcome (store_deletion kc key cur ms) (\<lambda>r. Inr (r\<lparr> ms_avalue := x \<rparr>))"
  by (simp add: store_deletion_def bind_normal)

lemma next_positions_avalue:
  "next_positions kc lc t (ms\<lparr> ms_avalue := x \<rparr>) =
     (fst (next_positions kc lc t ms), (snd (next_positions kc lc t ms))\<lparr> ms_avalue := x \<rparr>)"
  by (simp add: next_positions_def bind_normal)

lemma next_positions_dvalue:
  "next_positions kc lc t (ms\<lparr> ms_dvalue := x \<rparr>) =
     (fst (next_positions kc lc t ms), (snd (next_positions kc lc t ms))\<lparr> ms_dvalue := x \<rparr>)"
  by (simp add: next_positions_def bind_normal)

lemma next_positions_values [simp]:
  "ms_dvalue (snd (next_positions kc lc t ms)) = ms_dvalue ms"
  "ms_avalue (snd (next_positions kc lc t ms)) = ms_avalue ms"
  "ms_store (snd (next_positions kc lc t ms)) = ms_store ms"
  by (simp_all add: next_positions_def bind_normal)

lemma branch_deletion_avalue:
  "branch_deletion kc p t cur (ms\<lparr> ms_avalue := x \<rparr>) =
     bind_outcome (branch_deletion kc p t cur ms) (\<lambda>r. Inr (r\<lparr> ms_avalue := x \<rparr>))"
  by (simp add: branch_deletion_def bind_normal store_deletion_avalue next_positions_avalue value_commute
      cong: if_cong)

lemma store_addition_dvalue:
  "store_addition kc key cur (ms\<lparr> ms_dvalue := y \<rparr>) = (store_addition kc key cur ms)\<lparr> ms_dvalue := y \<rparr>"
  by (simp add: store_addition_def)

lemma count_addition_dvalue:
  "count_addition kc p key (ms\<lparr> ms_dvalue := y \<rparr>) = (count_addition kc p key ms)\<lparr> ms_dvalue := y \<rparr>"
  by (simp add: count_addition_def)

lemma count_unless_local_dvalue:
  "count_unless_local kc v p key (ms\<lparr> ms_dvalue := y \<rparr>) =
     bind_outcome (count_unless_local kc v p key ms) (\<lambda>r. Inr (r\<lparr> ms_dvalue := y \<rparr>))"
  by (simp add: count_unless_local_def bind_normal count_addition_dvalue cong: if_cong)

lemma count_first_dvalue:
  "count_first kc key (ms\<lparr> ms_dvalue := y \<rparr>) =
     bind_outcome (count_first kc key ms) (\<lambda>r. Inr (r\<lparr> ms_dvalue := y \<rparr>))"
  by (simp add: count_first_def count_unless_local_dvalue)

lemma count_unless_local_if [simp]:
  "count_unless_local kc v p key (if b then r else r') =
     (if b then count_unless_local kc v p key r else count_unless_local kc v p key r')"
  by simp

lemma branch_addition_dvalue:
  "branch_addition kc p t cur (ms\<lparr> ms_dvalue := y \<rparr>) =
     bind_outcome (branch_addition kc p t cur ms) (\<lambda>r. Inr (r\<lparr> ms_dvalue := y \<rparr>))"
  by (simp add: branch_addition_def bind_normal store_addition_dvalue count_unless_local_dvalue count_first_dvalue
      flip: value_commute cong: if_cong)

lemma branch_patch_values:
  "branch_patch kc p e (ms\<lparr> ms_dvalue := y \<rparr>) =
     bind_outcome (branch_patch kc p e ms) (\<lambda>r. Inr (r\<lparr> ms_dvalue := y \<rparr>))"
  "branch_patch kc p e (ms\<lparr> ms_avalue := x \<rparr>) =
     bind_outcome (branch_patch kc p e ms) (\<lambda>r. Inr (r\<lparr> ms_avalue := x \<rparr>))"
  by (simp_all add: branch_patch_def bind_normal next_positions_avalue next_positions_dvalue count_addition_def
      cong: if_cong)

lemma branch_patch_deletion_avalue:
  "branch_patch_deletion kc p e t cur (ms\<lparr> ms_avalue := x \<rparr>) =
     bind_outcome (branch_patch_deletion kc p e t cur ms) (\<lambda>r. Inr (r\<lparr> ms_avalue := x \<rparr>))"
  by (simp add: branch_patch_deletion_def bind_normal store_deletion_avalue next_positions_avalue value_commute
      cong: if_cong)

lemma branch_patch_addition_dvalue:
  "branch_patch_addition kc p e t cur (ms\<lparr> ms_dvalue := y \<rparr>) =
     bind_outcome (branch_patch_addition kc p e t cur ms) (\<lambda>r. Inr (r\<lparr> ms_dvalue := y \<rparr>))"
  by (simp add: branch_patch_addition_def bind_normal store_addition_dvalue count_unless_local_dvalue
      count_first_dvalue del: update_if flip: value_commute update_if cong: if_cong)

text \<open>Of the patch element a branch uses the triple and the type only.\<close>

lemma branch_element:
  assumes "pe_triple e = pe_triple e'" "pe_addition e = pe_addition e'"
  shows "branch_patch kc p e = branch_patch kc p e'"
    "branch_patch_deletion kc p e = branch_patch_deletion kc p e'"
    "branch_patch_addition kc p e = branch_patch_addition kc p e'"
    "branch_equal kc p b e = branch_equal kc p b e'"
proof -
  have i: "inverted_delete kc p lc e = inverted_delete kc p lc e'" for lc
    by (simp add: fun_eq_iff inverted_delete_def assms)
  show "branch_equal kc p b e = branch_equal kc p b e'"
    by (intro ext) (simp only: branch_equal_def i)
qed (simp_all add: fun_eq_iff branch_patch_def branch_patch_deletion_def branch_patch_addition_def assms)

section \<open>A branch touches its triple only\<close>

lemma branch_deletion_touches:
  assumes "store_laws (kc_tree kc) m A keys valid" "t \<in> A" "branch_deletion kc p t (Some t) ms = Inr ms'"
  shows "touches kc valid t (ms_store ms) (ms_store ms')"
  using assms(3) touches_store_deletion(1) [OF assms(1,2)]
  by (fastforce simp: branch_deletion_def bind_normal bind_outcome_eq_Inr split: if_splits)

lemma branch_addition_touches:
  assumes "store_laws (kc_tree kc) m A keys valid" "t \<in> A" "branch_addition kc p t (Some t) ms = Inr ms'"
  shows "touches kc valid t (ms_store ms) (ms_store ms')"
  using assms(3) touches_store_addition [OF assms(1,2), where ms = "ms\<lparr> ms_avalue := x \<rparr>" for x]
  by (auto simp: branch_addition_def bind_normal bind_outcome_eq_Inr
      dest!: count_unless_local_cases count_first_cases split: if_splits)

lemma branch_patch_touches:
  assumes "store_laws (kc_tree kc) m A keys valid" "pe_triple e \<in> A" "branch_patch kc p e ms = Inr ms'"
  shows "touches kc valid (pe_triple e) (ms_store ms) (ms_store ms')"
  using assms(3) touches_addition_single [OF assms(1,2)] touches_deletion_single [OF assms(1,2)]
  by (fastforce simp: branch_patch_def count_addition_def bind_normal bind_outcome_eq_Inr split: if_splits)

lemma branch_patch_deletion_touches:
  assumes "store_laws (kc_tree kc) m A keys valid" "t \<in> A" "pe_triple e = t"
    "branch_patch_deletion kc p e t (Some t) ms = Inr ms'"
  shows "touches kc valid t (ms_store ms) (ms_store ms')"
proof (cases "pe_addition e")
  case True
  then obtain b v ms1 st where v: "dv_del p (ms_dvalue ms) = Inr (b, v)"
    "(if b then store_deletion kc t (Some t) (ms\<lparr> ms_dvalue := v \<rparr>) else Inr (ms\<lparr> ms_dvalue := v \<rparr>)) = Inr ms1"
    "insert_addition_single (kc_tree kc) (kc_count kc) t p True True None (ms_store ms1) = Inr st"
    "ms' = ms1\<lparr> ms_store := st \<rparr>"
    using assms(3,4) by (auto simp: branch_patch_deletion_def bind_outcome_eq_Inr Let_def)
  have "touches kc valid t (ms_store ms) (ms_store ms1)"
    using v(2) touches_store_deletion(1) [OF assms(1,2), of "ms\<lparr> ms_dvalue := v \<rparr>"] by (auto split: if_splits)
  then show ?thesis
    using touches_addition_single [OF assms(1,2) v(3)] v(4) by (auto intro: touches_trans)
next
  case False
  then show ?thesis
    using assms(3,4) touches_store_deletion(1) [OF assms(1,2)]
    by (fastforce simp: branch_patch_deletion_def bind_normal bind_outcome_eq_Inr split: if_splits)
qed

lemma branch_patch_addition_touches:
  assumes "store_laws (kc_tree kc) m A keys valid" "t \<in> A" "pe_triple e = t"
    "branch_patch_addition kc p e t (Some t) ms = Inr ms'"
  shows "touches kc valid t (ms_store ms) (ms_store ms')"
proof -
  note a = touches_store_addition [OF assms(1,2)]
  obtain ms1 where m: "count_first kc t ms1 = Inr ms'"
    "touches kc valid t (ms_store ms) (ms_store ms1)"
  proof (cases "pe_addition e")
    case True
    then show ?thesis
      using that assms(4) a [where ms = "ms\<lparr> ms_avalue := x \<rparr>" for x]
      by (auto simp: branch_patch_addition_def bind_normal bind_outcome_eq_Inr
          dest!: count_unless_local_cases split: if_splits)
  next
    case False
    then obtain v b st where i: "insert_deletion_single (kc_tree kc) t pp_new p True True None (ms_store
        (if b then store_addition kc t (Some t) (ms\<lparr> ms_avalue := v \<rparr>) else ms\<lparr> ms_avalue := v \<rparr>)) = Inr st"
      "count_first kc t ((if b then store_addition kc t (Some t) (ms\<lparr> ms_avalue := v \<rparr>)
        else ms\<lparr> ms_avalue := v \<rparr>)\<lparr> ms_store := st \<rparr>) = Inr ms'"
      using assms(3,4) by (auto simp: branch_patch_addition_def bind_outcome_eq_Inr Let_def)
    define ms1 where "ms1 = (if b then store_addition kc t (Some t) (ms\<lparr> ms_avalue := v \<rparr>) else ms\<lparr> ms_avalue := v \<rparr>)"
    note v = ms1_def i [folded ms1_def]
    have "touches kc valid t (ms_store ms) (ms_store ms1)" using v(1) a [of "ms\<lparr> ms_avalue := v \<rparr>"] by auto
    then show ?thesis
      using that [OF v(3)] touches_deletion_single [OF assms(1,2) v(2)] by (auto intro: touches_trans)
  qed
  then show ?thesis by (auto dest!: count_first_cases)
qed

lemma inverted_touches:
  assumes "store_laws (kc_tree kc) m A keys valid" "t \<in> A"
    "inverted_add kc p lc t t (Some t) (Some t) ms = Inr ms' \<or>
     inverted_delete kc p lc e t t (Some t) (Some t) ms = Inr ms'"
  shows "touches kc valid t (ms_store ms) (ms_store ms')"
  using assms(3)
proof
  note a = touches_store_addition [OF assms(1,2)] and d = touches_store_deletion(1) [OF assms(1,2)]
  assume "inverted_add kc p lc t t (Some t) (Some t) ms = Inr ms'"
  define g where "g v b = (if \<not> lc then count_addition kc p t
      (if b then store_addition kc t (Some t) (ms\<lparr> ms_avalue := v \<rparr>) else ms\<lparr> ms_avalue := v \<rparr>)
    else if b then store_addition kc t (Some t) (ms\<lparr> ms_avalue := v \<rparr>) else ms\<lparr> ms_avalue := v \<rparr>)" for v b
  obtain v b b' w where v: "(if b' then store_deletion kc t (Some t) ((g v b)\<lparr> ms_dvalue := w \<rparr>)
      else Inr ((g v b)\<lparr> ms_dvalue := w \<rparr>)) = Inr ms'"
    using \<open>inverted_add kc p lc t t (Some t) (Some t) ms = Inr ms'\<close>
    by (auto simp: inverted_add_def bind_outcome_eq_Inr Let_def simp del: update_if simp flip: g_def cong: if_cong)
  have "touches kc valid t (ms_store ms) (ms_store (g v b))"
    using a [of "ms\<lparr> ms_avalue := v \<rparr>"] by (auto simp: g_def)
  moreover have "touches kc valid t (ms_store (g v b)) (ms_store ms')"
    using v d [of "(g v b)\<lparr> ms_dvalue := w \<rparr>"] by (auto split: if_splits)
  ultimately show ?thesis by (rule touches_trans)
next
  note a = touches_store_addition [OF assms(1,2)] and d = touches_store_deletion(1) [OF assms(1,2)]
  assume "inverted_delete kc p lc e t t (Some t) (Some t) ms = Inr ms'"
  obtain pp ms0 where np: "next_positions kc lc (pe_triple e) ms = (pp, ms0)" by (rule prod.exhaust)
  obtain b w ms1 c v where v: "ms_store ms0 = ms_store ms"
    "(if b then store_deletion kc t (Some t) (ms0\<lparr> ms_dvalue := w \<rparr>) else Inr (ms0\<lparr> ms_dvalue := w \<rparr>)) = Inr ms1"
    "ms' = (if c then store_addition kc t (Some t) (ms1\<lparr> ms_avalue := v \<rparr>) else ms1\<lparr> ms_avalue := v \<rparr>)"
    using \<open>inverted_delete kc p lc e t t (Some t) (Some t) ms = Inr ms'\<close> next_positions_store [OF np]
    by (auto simp: inverted_delete_def np bind_outcome_eq_Inr Let_def simp del: update_if cong: if_cong)
  have "touches kc valid t (ms_store ms) (ms_store ms1)"
    using v(1,2) d [of "ms0\<lparr> ms_dvalue := w \<rparr>"] by (auto split: if_splits)
  moreover have "touches kc valid t (ms_store ms1) (ms_store ms')"
    using v(3) a [of "ms1\<lparr> ms_avalue := v \<rparr>"] by (auto split: if_splits)
  ultimately show ?thesis by (rule touches_trans)
qed

lemma branch_equal_touches:
  assumes "store_laws (kc_tree kc) m A keys valid" "t \<in> A" "branch_equal kc p b e t t (Some t) (Some t) ms = Inr ms'"
  shows "touches kc valid t (ms_store ms) (ms_store ms')"
proof -
  obtain v ms1 lc where v: "count_first kc t (ms\<lparr> ms_avalue := v \<rparr>) = Inr ms1"
    "inverted_add kc p lc t t (Some t) (Some t) ms1 = Inr ms' \<or>
     inverted_delete kc p lc e t t (Some t) (Some t) ms1 = Inr ms' \<or> ms' = ms1"
    using assms(3) by (auto simp: branch_equal_def bind_outcome_eq_Inr Let_def split: if_splits)
  have "touches kc valid t (ms_store ms) (ms_store ms1)" using count_first_cases [OF v(1)] by auto
  moreover have "touches kc valid t (ms_store ms1) (ms_store ms')"
    using v(2) inverted_touches [OF assms(1,2), of p lc ms1 ms' e] by auto
  ultimately show ?thesis by (rule touches_trans)
qed

lemma visit_branch_touches:
  assumes "store_laws (kc_tree kc) m A keys valid" "t \<in> A" "here \<Longrightarrow> pe_triple cur = t"
    "visit_branch kc p t here cur d a ms = Inr ms'"
  shows "touches kc valid t (ms_store ms) (ms_store ms')"
  using assms(2-) branch_deletion_touches [OF assms(1,2)] branch_addition_touches [OF assms(1,2)]
    branch_patch_touches [OF assms(1), of cur] branch_patch_deletion_touches [OF assms(1,2)]
    branch_patch_addition_touches [OF assms(1,2)] branch_equal_touches [OF assms(1,2)]
  by (auto simp: visit_branch_def split: if_splits)

lemma visit_touches:
  assumes "store_laws (kc_tree kc) m A keys valid" "t \<in> A" "here \<Longrightarrow> pe_triple cur = t"
    "visit kc p t here cur ms = Inr ms'"
  shows "touches kc valid t (ms_store ms) (ms_store ms')"
  using visit_branch_touches [OF assms(1-3)] assms(4)
  by (fastforce simp: visit_def load_deletion_def load_addition_def bind_outcome_eq_Inr split: option.splits)

section \<open>The lists still to be merged\<close>

text \<open>\<open>ts\<close> are the triples to visit, \<open>es\<close>, \<open>ds\<close> and \<open>ads\<close> what is left of the patch and of the two trees.\<close>

definition readable :: "('t, 'c, 'h) kyoto \<Rightarrow> triple list \<Rightarrow> triple list \<Rightarrow> ('t, 'c) triple_store \<Rightarrow> bool" where
  "readable kc ds ads st \<longleftrightarrow>
     (\<forall>k\<in>set ds. \<forall>raw v. tree_get (kc_tree kc) (ts_spo_deletions st) k = Some raw \<longrightarrow>
        (\<exists>v'. dv_deserialize raw v = Inr v')) \<and>
     (\<forall>k\<in>set ads. \<forall>raw v. tree_get (kc_tree kc) (ts_spo_additions st) k = Some raw \<longrightarrow>
        (\<exists>v'. av_deserialize raw v = Inr v'))"

definition merge_order ::
  "('t, 'c, 'h) kyoto \<Rightarrow> dictionary_manager \<Rightarrow> triple set \<Rightarrow> ('t \<Rightarrow> triple list) \<Rightarrow> (component_order \<Rightarrow> 't \<Rightarrow> bool) \<Rightarrow>
   triple list \<Rightarrow> patch_element list \<Rightarrow> triple list \<Rightarrow> triple list \<Rightarrow> ('t, 'c) triple_store \<Rightarrow> bool" where
  "merge_order kc m A keys valid ts es ds ads st \<longleftrightarrow>
     (let cmp = key_compare (spo_comparator m) in
      store_ok (kc_tree kc) valid st \<and> ts_dict st = m \<and>
      ascending cmp ts \<and> set ts \<subseteq> A \<and> set ts = pe_triple ` set es \<union> set ds \<union> set ads \<and>
      ascending cmp (map pe_triple es) \<and>
      (\<exists>xs. keys (ts_spo_deletions st) = xs @ ds) \<and> (\<exists>ys. keys (ts_spo_additions st) = ys @ ads) \<and>
      (\<forall>t\<in>set ts. (is_deleted_key kc t st \<longleftrightarrow> t \<in> set ds) \<and> (is_added_key kc t st \<longleftrightarrow> t \<in> set ads)))"

lemma tree_laws_keys:
  assumes "tree_laws db cmp A keys valid" "valid t"
  shows "set (keys t) = dom (tree_get db t)" "set (keys t) \<subseteq> A" "ascending cmp (keys t)"
    "tree_after db t k = find (\<lambda>x. cmp k x < 0) (keys t)" "tree_first db t = find (\<lambda>x. True) (keys t)"
proof -
  have "\<forall>t. valid t \<longrightarrow> set (keys t) = dom (tree_get db t) \<and> set (keys t) \<subseteq> A \<and> ascending cmp (keys t)"
    using assms(1) unfolding tree_laws_def by (elim conjE)
  then show "set (keys t) = dom (tree_get db t)" "set (keys t) \<subseteq> A" "ascending cmp (keys t)"
    using assms(2) by blast+
qed (use assms in \<open>simp_all add: tree_laws_def\<close>)

lemma suffix_kept:
  assumes "comparison cmp A" "tree_laws db cmp A keys valid" "valid t" "valid t'" "k \<in> A"
    "keys t = xs @ ds" "\<And>x. x \<noteq> k \<Longrightarrow> tree_get db t' x = tree_get db t x"
    "tree_get db t k \<noteq> None \<Longrightarrow> tree_get db t' k \<noteq> None" "\<forall>x\<in>set ds. x = k \<or> cmp k x < 0"
  shows "\<exists>ys. keys t' = ys @ ds"
proof -
  note l = tree_laws_keys [OF assms(2,3)] and l' = tree_laws_keys [OF assms(2,4)]
  have s: "set (keys t') = set (keys t) \<or> set (keys t') = insert k (set (keys t)) \<and> k \<notin> set (keys t)"
  proof -
    have n: "x \<noteq> k \<Longrightarrow> x \<in> dom (tree_get db t') \<longleftrightarrow> x \<in> dom (tree_get db t)" for x
      using assms(7) [of x] by (simp add: domIff)
    have "k \<in> dom (tree_get db t) \<Longrightarrow> k \<in> dom (tree_get db t')" using assms(8) by (simp add: domIff)
    then consider "k \<in> dom (tree_get db t')" "k \<notin> dom (tree_get db t)"
      | "k \<in> dom (tree_get db t') \<longleftrightarrow> k \<in> dom (tree_get db t)" by blast
    then show ?thesis
    proof cases
      case 1
      have "x \<in> dom (tree_get db t') \<longleftrightarrow> x \<in> insert k (dom (tree_get db t))" for x
        using 1 n [of x] by (cases "x = k") auto
      then show ?thesis using 1(2) unfolding l(1) l'(1) by (intro disjI2 conjI set_eqI)
    next
      case 2
      have "x \<in> dom (tree_get db t') \<longleftrightarrow> x \<in> dom (tree_get db t)" for x
        using 2 n [of x] by (cases "x = k") auto
      then show ?thesis unfolding l(1) l'(1) by (intro disjI1 set_eqI)
    qed
  qed
  show ?thesis
  proof (cases "k \<in> set (keys t)")
    case True
    then have "keys t' = keys t"
      using s by (intro ascending_unique [OF assms(1) l'(3) l(3) _ l'(2)]) auto
    then show ?thesis using assms(6) by simp
  next
    case False
    then have "\<forall>x\<in>set ds. cmp k x < 0" using assms(6,9) by auto
    then show ?thesis
      using keys_suffix [OF assms(1) l'(3) _ l'(2) _ assms(5)] s l(3) unfolding assms(6) by blast
  qed
qed

text \<open>Visiting the first triple leaves the rest of the lists.\<close>

lemma past_set:
  assumes "comparison cmp A" "ascending cmp l" "set l \<subseteq> set (t # ts)" "ascending cmp (t # ts)" "set (t # ts) \<subseteq> A"
  shows "at_head t l \<longleftrightarrow> t \<in> set l" "set (past t l) = set l - {t}" "l = (if at_head t l then [t] else []) @ past t l"
    "\<forall>x\<in>set (past t l). cmp t x < 0" "ascending cmp (past t l)"
proof -
  have irr: "\<not> cmp t t < 0" using comparison.cmp_self [OF assms(1)] assms(5) by simp
  have gt: "x \<in> set l \<Longrightarrow> x = t \<or> cmp t x < 0" for x using assms(3,4) by auto
  have asym: "x \<in> A \<Longrightarrow> cmp t x < 0 \<Longrightarrow> \<not> cmp x t < 0" for x
    using comparison.cmp_asym [OF assms(1), of t x] assms(5) by simp
  show h: "at_head t l \<longleftrightarrow> t \<in> set l"
  proof (cases l)
    case (Cons x xs)
    have "t \<notin> set xs" if "x \<noteq> t"
    proof
      assume "t \<in> set xs"
      then have "cmp x t < 0" using assms(2) by (simp add: Cons)
      moreover have "cmp t x < 0" "x \<in> A" using gt [of x] that assms(3,5) by (auto simp: Cons)
      ultimately show False using asym by blast
    qed
    then show ?thesis by (auto simp: at_head_def Cons)
  qed (simp add: at_head_def)
  show e: "l = (if at_head t l then [t] else []) @ past t l"
    by (cases l) (auto simp: at_head_def past_def)
  show p: "set (past t l) = set l - {t}"
    using h irr assms(2) by (cases l) (auto simp: past_def at_head_def)
  show "\<forall>x\<in>set (past t l). cmp t x < 0" using p gt by auto
  show "ascending cmp (past t l)" using assms(2) by (cases l) (auto simp: past_def)
qed

definition past_elements :: "triple \<Rightarrow> patch_element list \<Rightarrow> patch_element list" where
  "past_elements t es = (if at_head t (map pe_triple es) then tl es else es)"

lemma past_elements_past: "map pe_triple (past_elements t es) = past t (map pe_triple es)"
  by (simp add: past_elements_def past_def map_tl)

lemma spo_order: "order_comparator SPO m = spo_comparator m"
  by (simp add: order_comparator_def)

lemma merge_step:
  assumes "store_laws (kc_tree kc) m A keys valid" "comparison (key_compare (spo_comparator m)) A"
    "merge_order kc m A keys valid (t # ts) es ds ads st" "touches kc valid t st st'"
  shows "merge_order kc m A keys valid ts (past_elements t es) (past t ds) (past t ads) st'"
    "at_head t ds \<Longrightarrow> tree_after (kc_tree kc) (ts_spo_deletions st') t = find (\<lambda>x. True) (past t ds)"
    "at_head t ads \<Longrightarrow> tree_after (kc_tree kc) (ts_spo_additions st') t = find (\<lambda>x. True) (past t ads)"
    "readable kc ds ads st \<Longrightarrow> readable kc (past t ds) (past t ads) st'"
proof -
  let ?cmp = "key_compare (spo_comparator m)"
  note laws = spec [OF assms(1) [unfolded store_laws_def], of SPO, unfolded spo_order]
  note mo = assms(3) [unfolded merge_order_def Let_def]
  have ok: "store_ok (kc_tree kc) valid st" and ts: "ascending ?cmp (t # ts)" "set (t # ts) \<subseteq> A"
    and sets: "set (t # ts) = pe_triple ` set es \<union> set ds \<union> set ads" and asc: "ascending ?cmp (map pe_triple es)"
    using mo by blast+
  obtain xs ys where k: "keys (ts_spo_deletions st) = xs @ ds" "keys (ts_spo_additions st) = ys @ ads"
    using mo by blast
  have tc: "store_ok (kc_tree kc) valid st'" "ts_dict st' = ts_dict st"
    "\<And>x. x \<noteq> t \<Longrightarrow> tree_get (kc_tree kc) (ts_spo_deletions st') x = tree_get (kc_tree kc) (ts_spo_deletions st) x"
    "\<And>x. x \<noteq> t \<Longrightarrow> tree_get (kc_tree kc) (ts_spo_additions st') x = tree_get (kc_tree kc) (ts_spo_additions st) x"
    "is_deleted_key kc t st \<Longrightarrow> is_deleted_key kc t st'" "is_added_key kc t st \<Longrightarrow> is_added_key kc t st'"
    using assms(4) ok unfolding touches_def by blast+
  have v: "valid SPO (ts_spo_deletions st)" "valid SPO (ts_spo_deletions st')"
    "valid SPO (ts_spo_additions st)" "valid SPO (ts_spo_additions st')"
    using ok tc(1) by (simp_all add: store_ok_def trees_valid_def)
  note ld = tree_laws_keys [OF laws v(1)] and ld' = tree_laws_keys [OF laws v(2)]
    and la = tree_laws_keys [OF laws v(3)] and la' = tree_laws_keys [OF laws v(4)]
  have d: "ascending ?cmp ds" "ascending ?cmp ads" "set ds \<subseteq> set (t # ts)" "set ads \<subseteq> set (t # ts)"
    "set (map pe_triple es) \<subseteq> set (t # ts)"
    using ld(3) la(3) sets unfolding k by (auto simp: sorted_wrt_append)
  note pd = past_set [OF assms(2) d(1,3) ts] and pa = past_set [OF assms(2) d(2,4) ts]
    and pe = past_set [OF assms(2) asc d(5) ts]
  have gt: "\<forall>x\<in>set ds. x = t \<or> ?cmp t x < 0" "\<forall>x\<in>set ads. x = t \<or> ?cmp t x < 0"
    using d(3,4) ts(1) by auto
  have tA: "t \<in> A" using ts(2) by simp
  obtain xs' where kd: "keys (ts_spo_deletions st') = xs' @ ds"
    using suffix_kept [OF assms(2) laws v(1,2) tA k(1) tc(3) _ gt(1)] tc(5) by (auto simp: is_deleted_key_def)
  obtain ys' where ka: "keys (ts_spo_additions st') = ys' @ ads"
    using suffix_kept [OF assms(2) laws v(3,4) tA k(2) tc(4) _ gt(2)] tc(6) by (auto simp: is_added_key_def)
  have nt: "t \<notin> set ts" using ts comparison.cmp_self [OF assms(2) tA] by auto
  have iff: "\<forall>x\<in>set ts. (is_deleted_key kc x st' \<longleftrightarrow> x \<in> set (past t ds)) \<and> (is_added_key kc x st' \<longleftrightarrow> x \<in> set (past t ads))"
  proof
    fix x assume x: "x \<in> set ts"
    then have "x \<noteq> t" using nt by auto
    moreover have "is_deleted_key kc x st \<longleftrightarrow> x \<in> set ds" "is_added_key kc x st \<longleftrightarrow> x \<in> set ads"
      using mo x by auto
    ultimately show "(is_deleted_key kc x st' \<longleftrightarrow> x \<in> set (past t ds)) \<and> (is_added_key kc x st' \<longleftrightarrow> x \<in> set (past t ads))"
      using tc(3,4) [of x] pd(2) pa(2) by (simp add: is_deleted_key_def is_added_key_def)
  qed
  show "readable kc ds ads st \<Longrightarrow> readable kc (past t ds) (past t ads) st'"
    using tc(3,4) pd(2) pa(2) unfolding readable_def by auto
  have "set ts = pe_triple ` set (past_elements t es) \<union> set (past t ds) \<union> set (past t ads)"
  proof -
    have "pe_triple ` set (past_elements t es) = pe_triple ` set es - {t}"
      using pe(2) past_elements_past [of t es] by (metis list.set_map)
    moreover have "set ts = set (t # ts) - {t}" using nt by auto
    ultimately show ?thesis using pd(2) pa(2) sets by auto
  qed
  moreover have "ascending ?cmp (map pe_triple (past_elements t es))"
    unfolding past_elements_past by (rule pe(5))
  moreover have "\<exists>zs. xs' @ ds = zs @ past t ds" "\<exists>zs. ys' @ ads = zs @ past t ads"
    using pd(3) pa(3) by (metis append.assoc)+
  moreover have "ts_dict st' = m" using tc(2) mo by simp
  ultimately show "merge_order kc m A keys valid ts (past_elements t es) (past t ds) (past t ads) st'"
    unfolding merge_order_def Let_def kd ka using tc(1) ts iff by simp
  show "tree_after (kc_tree kc) (ts_spo_deletions st') t = find (\<lambda>x. True) (past t ds)" if "at_head t ds"
    using find_after [OF assms(2), of xs' t "past t ds"] ld'(2,3) pd(2,3) that tA unfolding ld'(4) kd by auto
  show "tree_after (kc_tree kc) (ts_spo_additions st') t = find (\<lambda>x. True) (past t ads)" if "at_head t ads"
    using find_after [OF assms(2), of ys' t "past t ads"] la'(2,3) pa(2,3) that tA unfolding la'(4) ka by auto
qed

end
