(* ===== verification/Append_Correctness.thy ===== *)
theory Append_Correctness
  imports Patch_Tree_Merge
begin

text \<open>
  The loop of \<open>append\<close> (theory \<open>Patch_Tree\<close>) against the visits of \<open>Patch_Tree_Merge\<close>: how its variables
  stand for the lists still to be merged, that a round of the loop is a visit of the first triple, and what
  follows for \<open>append\<close>: it ends, it is the sequence of visits, and it keeps the trees consistent.
\<close>

section \<open>Sources of patch elements\<close>

text \<open>What the loop relies on of a \<open>PatchElementIterator\<close>: \<open>yields it es\<close> holds when \<open>es\<close> are the elements
  \<open>it\<close> has left; \<open>next\<close> sets the triple and the type of the element it is given, and leaves it alone at the
  end.\<close>

locale element_source =
  fixes nxt :: "patch_element \<Rightarrow> 'i \<Rightarrow> bool \<times> patch_element \<times> 'i"
    and yields :: "'i \<Rightarrow> patch_element list \<Rightarrow> bool"
  assumes next_end: "yields it [] \<Longrightarrow> fst (nxt e it) = False \<and> fst (snd (nxt e it)) = e"
    and next_element: "yields it (x # xs) \<Longrightarrow> fst (nxt e it) \<and>
      pe_triple (fst (snd (nxt e it))) = pe_triple x \<and> pe_addition (fst (snd (nxt e it))) = pe_addition x \<and>
      yields (snd (snd (nxt e it))) xs"

section \<open>The variables of the loop\<close>

definition same_element :: "patch_element \<Rightarrow> patch_element \<Rightarrow> bool" where
  "same_element e e' \<longleftrightarrow> pe_triple e = pe_triple e' \<and> pe_addition e = pe_addition e'"

text \<open>A side whose element is read (\<open>pending\<close>), and a side before the reads of a round (\<open>ready\<close>): the element
  is read already, or the side is to be advanced.\<close>

definition pending_patch ::
  "('i \<Rightarrow> patch_element list \<Rightarrow> bool) \<Rightarrow> patch_element list \<Rightarrow> patch_element \<Rightarrow> ('t, 'c, 'h, 'i) append_state \<Rightarrow> bool" where
  "pending_patch yields es prev s \<longleftrightarrow>
     same_element (as_element s) (current es prev) \<and>
     (case es of [] \<Rightarrow> as_p_ended s | e # es' \<Rightarrow> \<not> as_p_ended s \<and> yields (as_iter s) es')"

definition ready_patch ::
  "('i \<Rightarrow> patch_element list \<Rightarrow> bool) \<Rightarrow> patch_element list \<Rightarrow> patch_element \<Rightarrow> ('t, 'c, 'h, 'i) append_state \<Rightarrow> bool" where
  "ready_patch yields es prev s \<longleftrightarrow>
     (if as_step_p s then yields (as_iter s) es \<and> same_element (as_element s) prev
      else pending_patch yields es prev s)"

definition pending_deletion ::
  "('t, 'c, 'h) kyoto \<Rightarrow> triple list \<Rightarrow> ('t, 'c, 'h) merge_state \<Rightarrow> ('t, 'c, 'h, 'i) append_state \<Rightarrow> bool" where
  "pending_deletion kc ds ms s \<longleftrightarrow>
     (case ds of [] \<Rightarrow> as_d_ended s \<and> ms_dvalue (as_data s) = ms_dvalue ms
      | k # _ \<Rightarrow> \<not> as_d_ended s \<and> as_dkey s = k \<and> as_dcur s = Some k \<and>
          (\<exists>raw. tree_get (kc_tree kc) (ts_spo_deletions (ms_store ms)) k = Some raw \<and>
             dv_deserialize raw (ms_dvalue ms) = Inr (ms_dvalue (as_data s))))"

definition ready_deletion ::
  "('t, 'c, 'h) kyoto \<Rightarrow> triple list \<Rightarrow> ('t, 'c, 'h) merge_state \<Rightarrow> ('t, 'c, 'h, 'i) append_state \<Rightarrow> bool" where
  "ready_deletion kc ds ms s \<longleftrightarrow>
     (if as_step_d s then as_dcur s = find (\<lambda>x. True) ds \<and> ms_dvalue (as_data s) = ms_dvalue ms
      else pending_deletion kc ds ms s)"

definition pending_addition ::
  "('t, 'c, 'h) kyoto \<Rightarrow> triple list \<Rightarrow> ('t, 'c, 'h) merge_state \<Rightarrow> ('t, 'c, 'h, 'i) append_state \<Rightarrow> bool" where
  "pending_addition kc ads ms s \<longleftrightarrow>
     (case ads of [] \<Rightarrow> as_a_ended s \<and> ms_avalue (as_data s) = ms_avalue ms
      | k # _ \<Rightarrow> \<not> as_a_ended s \<and> as_akey s = k \<and> as_acur s = Some k \<and>
          (\<exists>raw. tree_get (kc_tree kc) (ts_spo_additions (ms_store ms)) k = Some raw \<and>
             av_deserialize raw (ms_avalue ms) = Inr (ms_avalue (as_data s))))"

definition ready_addition ::
  "('t, 'c, 'h) kyoto \<Rightarrow> triple list \<Rightarrow> ('t, 'c, 'h) merge_state \<Rightarrow> ('t, 'c, 'h, 'i) append_state \<Rightarrow> bool" where
  "ready_addition kc ads ms s \<longleftrightarrow>
     (if as_step_a s then as_acur s = find (\<lambda>x. True) ads \<and> ms_avalue (as_data s) = ms_avalue ms
      else pending_addition kc ads ms s)"

definition same_store :: "('t, 'c, 'h) merge_state \<Rightarrow> ('t, 'c, 'h, 'i) append_state \<Rightarrow> bool" where
  "same_store ms s \<longleftrightarrow> ms_store (as_data s) = ms_store ms \<and> ms_counters (as_data s) = ms_counters ms"

definition all_ready ::
  "('t, 'c, 'h) kyoto \<Rightarrow> ('i \<Rightarrow> patch_element list \<Rightarrow> bool) \<Rightarrow> patch_element list \<Rightarrow> triple list \<Rightarrow> triple list \<Rightarrow>
   patch_element \<Rightarrow> ('t, 'c, 'h) merge_state \<Rightarrow> ('t, 'c, 'h, 'i) append_state \<Rightarrow> bool" where
  "all_ready kc yields es ds ads prev ms s \<longleftrightarrow>
     ready_patch yields es prev s \<and> ready_deletion kc ds ms s \<and> ready_addition kc ads ms s \<and> same_store ms s"

definition all_pending ::
  "('t, 'c, 'h) kyoto \<Rightarrow> ('i \<Rightarrow> patch_element list \<Rightarrow> bool) \<Rightarrow> patch_element list \<Rightarrow> triple list \<Rightarrow> triple list \<Rightarrow>
   patch_element \<Rightarrow> ('t, 'c, 'h) merge_state \<Rightarrow> ('t, 'c, 'h, 'i) append_state \<Rightarrow> bool" where
  "all_pending kc yields es ds ads prev ms s \<longleftrightarrow>
     pending_patch yields es prev s \<and> pending_deletion kc ds ms s \<and> pending_addition kc ads ms s \<and> same_store ms s"

section \<open>The reads\<close>


context element_source
begin

lemma read_patch_pending:
  assumes "ready_patch yields es prev s"
  shows "pending_patch yields es prev (read_patch nxt s)"
proof (cases "as_step_p s")
  case True
  then have y: "yields (as_iter s) es" "same_element (as_element s) prev"
    using assms by (simp_all add: ready_patch_def)
  obtain b e it where n: "nxt (as_element s) (as_iter s) = (b, e, it)" by (metis surj_pair)
  show ?thesis
    using True y next_end [of "as_iter s" "as_element s"] next_element [of "as_iter s" _ _ "as_element s"] n
    by (cases es) (auto simp: read_patch_def pending_patch_def current_def same_element_def)
qed (use assms in \<open>simp add: ready_patch_def read_patch_def\<close>)

end

lemma read_patch_frame [simp]:
  "as_data (read_patch nxt s) = as_data s" "as_step_d (read_patch nxt s) = as_step_d s"
  "as_step_a (read_patch nxt s) = as_step_a s" "as_dcur (read_patch nxt s) = as_dcur s"
  "as_acur (read_patch nxt s) = as_acur s" "as_dkey (read_patch nxt s) = as_dkey s"
  "as_akey (read_patch nxt s) = as_akey s" "as_d_ended (read_patch nxt s) = as_d_ended s"
  "as_a_ended (read_patch nxt s) = as_a_ended s"
  by (simp_all add: read_patch_def split: prod.split)

lemma read_deletion_pending:
  assumes "ready_deletion kc ds ms s" "same_store ms s" "ready_addition kc ads ms s" "pending_patch yields es prev s"
    "\<forall>k\<in>set ds. is_deleted_key kc k (ms_store ms)"
  shows "(\<exists>s'. read_deletion kc s = Inr s' \<and> pending_deletion kc ds ms s' \<and> same_store ms s' \<and>
      ready_addition kc ads ms s' \<and> pending_patch yields es prev s') \<or>
    (\<exists>err. read_deletion kc s = Inl err) \<and> \<not> readable kc ds ads (ms_store ms)"
proof (cases "as_step_d s")
  case True
  show ?thesis
  proof (cases ds)
    case Nil
    then show ?thesis
      using assms(1-4) True
      by (simp add: ready_deletion_def read_deletion_def cursor_get_def pending_deletion_def same_store_def
          ready_addition_def pending_addition_def pending_patch_def cong: if_cong list.case_cong)
  next
    case (Cons k ks)
    obtain raw where g: "tree_get (kc_tree kc) (ts_spo_deletions (ms_store ms)) k = Some raw"
      using assms(5) by (auto simp: Cons is_deleted_key_def)
    have "\<not> readable kc ds ads (ms_store ms) \<or> (\<exists>v. dv_deserialize raw (ms_dvalue ms) = Inr v)"
      using g by (auto simp: Cons readable_def)
    then show ?thesis
      using assms(1-4) True g
      by (cases "dv_deserialize raw (ms_dvalue ms)")
        (simp_all add: Cons ready_deletion_def read_deletion_def cursor_get_def pending_deletion_def same_store_def
          ready_addition_def pending_addition_def pending_patch_def
          get_default_deletions_tree_def cong: if_cong list.case_cong)
  qed
qed (use assms in \<open>simp add: ready_deletion_def read_deletion_def\<close>)
lemma read_addition_pending:
  assumes "ready_addition kc ads ms s" "same_store ms s" "pending_deletion kc ds ms s" "pending_patch yields es prev s"
    "\<forall>k\<in>set ads. is_added_key kc k (ms_store ms)"
  shows "(\<exists>s'. read_addition kc s = Inr s' \<and> all_pending kc yields es ds ads prev ms s') \<or>
    (\<exists>err. read_addition kc s = Inl err) \<and> \<not> readable kc ds ads (ms_store ms)"
proof (cases "as_step_a s")
  case True
  show ?thesis
  proof (cases ads)
    case Nil
    then show ?thesis
      using assms(1-4) True
      by (simp add: ready_addition_def read_addition_def cursor_get_def pending_deletion_def same_store_def
          pending_addition_def pending_patch_def all_pending_def cong: if_cong list.case_cong)
  next
    case (Cons k ks)
    obtain raw where g: "tree_get (kc_tree kc) (ts_spo_additions (ms_store ms)) k = Some raw"
      using assms(5) by (auto simp: Cons is_added_key_def)
    have "\<not> readable kc ds ads (ms_store ms) \<or> (\<exists>v. av_deserialize raw (ms_avalue ms) = Inr v)"
      using g by (auto simp: Cons readable_def)
    then show ?thesis
      using assms(1-4) True g
      by (cases "av_deserialize raw (ms_avalue ms)")
        (simp_all add: Cons ready_addition_def read_addition_def cursor_get_def pending_deletion_def same_store_def
          pending_addition_def pending_patch_def all_pending_def get_default_additions_tree_def
          cong: if_cong list.case_cong)
  qed
qed (use assms in \<open>simp add: ready_addition_def read_addition_def all_pending_def\<close>)
context element_source
begin

lemma reads_pending:
  assumes "all_ready kc yields es ds ads prev ms s" "merge_order kc m A keys valid ts es ds ads (ms_store ms)"
  shows "(\<exists>s'. bind_outcome (read_deletion kc (read_patch nxt s)) (read_addition kc) = Inr s' \<and>
      all_pending kc yields es ds ads prev ms s') \<or>
    (\<exists>err. bind_outcome (read_deletion kc (read_patch nxt s)) (read_addition kc) = Inl err) \<and>
      \<not> readable kc ds ads (ms_store ms)"
proof -
  have k: "\<forall>k\<in>set ds. is_deleted_key kc k (ms_store ms)" "\<forall>k\<in>set ads. is_added_key kc k (ms_store ms)"
    using assms(2) by (auto simp: merge_order_def Let_def)
  have r: "ready_deletion kc ds ms (read_patch nxt s)" "same_store ms (read_patch nxt s)"
    "ready_addition kc ads ms (read_patch nxt s)" "pending_patch yields es prev (read_patch nxt s)"
    using assms(1) read_patch_pending [of es prev s]
    by (simp_all add: all_ready_def ready_deletion_def pending_deletion_def same_store_def ready_addition_def
        pending_addition_def cong: if_cong list.case_cong)
  from read_deletion_pending [OF r k(1)] show ?thesis
  proof (elim disjE exE conjE)
    fix s1
    assume s1: "read_deletion kc (read_patch nxt s) = Inr s1" "pending_deletion kc ds ms s1"
      "same_store ms s1" "ready_addition kc ads ms s1" "pending_patch yields es prev s1"
    then show ?thesis using read_addition_pending [OF s1(4,3,2,5) k(2)] by simp
  qed simp
qed

end

section \<open>A round of the loop is a visit\<close>

definition with_values :: "bool \<Rightarrow> bool \<Rightarrow> ('t, 'c, 'h) merge_state \<Rightarrow> ('t, 'c, 'h) merge_state \<Rightarrow> ('t, 'c, 'h) merge_state" where
  "with_values d a data ms =
     ms\<lparr> ms_dvalue := (if d then ms_dvalue data else ms_dvalue ms), ms_avalue := (if a then ms_avalue data else ms_avalue ms) \<rparr>"

lemma with_values_simps [simp]:
  "ms_store (with_values d a data ms) = ms_store ms" "ms_counters (with_values d a data ms) = ms_counters ms"
  by (simp_all add: with_values_def)

lemma same_store_data: "same_store ms s \<Longrightarrow> as_data s = ms\<lparr> ms_dvalue := ms_dvalue (as_data s), ms_avalue := ms_avalue (as_data s) \<rparr>"
  by (simp add: same_store_def)

lemma loads:
  assumes "pending_deletion kc ds ms s" "pending_addition kc ads ms s"
    "is_deleted_key kc t (ms_store ms) \<longleftrightarrow> at_head t ds" "is_added_key kc t (ms_store ms) \<longleftrightarrow> at_head t ads"
  shows "visit kc p t here cur ms =
    visit_branch kc p t here cur (at_head t ds) (at_head t ads) (with_values (at_head t ds) (at_head t ads) (as_data s) ms)"
proof -
  have d: "load_deletion kc t ms = Inr (with_values (at_head t ds) False (as_data s) ms)"
    using assms(1,3)
    by (cases ds) (auto simp: load_deletion_def with_values_def pending_deletion_def at_head_def is_deleted_key_def)
  have "load_addition kc t (with_values d False (as_data s) ms) = Inr (with_values d (at_head t ads) (as_data s) ms)" for d
    using assms(2,4)
    by (cases ads) (auto simp: load_addition_def with_values_def pending_addition_def at_head_def is_added_key_def)
  then show ?thesis using assms(3,4) by (simp add: visit_def d)
qed

lemma at_head_facts:
  assumes "comparison cmp A" "ascending cmp (t # ts)" "set (t # ts) \<subseteq> A" "set l \<subseteq> set (t # ts)" "ascending cmp l"
    "l = x # xs"
  shows "at_head t l \<longleftrightarrow> x = t" "\<not> at_head t l \<Longrightarrow> cmp t x < 0" "\<not> at_head t l \<Longrightarrow> cmp x t > 0" "x \<in> A"
proof -
  show h: "at_head t l \<longleftrightarrow> x = t" by (auto simp: at_head_def assms(6))
  show a: "x \<in> A" using assms(3,4,6) by auto
  show l: "cmp t x < 0" if "\<not> at_head t l" using h that assms(2,4,6) by auto
  show "cmp x t > 0" if "\<not> at_head t l"
    using l [OF that] comparison.cmp_swap [OF assms(1), of t x] a assms(3) by simp
qed

text \<open>The comparisons of a round in terms of where the first triple is.\<close>

lemma comparisons:
  assumes "comparison cmp A" "ascending cmp (t # ts)" "set (t # ts) \<subseteq> A" "set ds \<subseteq> set (t # ts)" "ascending cmp ds"
    "set ads \<subseteq> set (t # ts)" "ascending cmp ads" "pe_triple ` set es \<subseteq> set (t # ts)" "ascending cmp (map pe_triple es)"
    "pending_patch yields es prev s" "pending_deletion kc ds ms s" "pending_addition kc ads ms s"
  defines "h \<equiv> at_head t (map pe_triple es)" and "d \<equiv> at_head t ds" and "a \<equiv> at_head t ads"
  shows "h \<Longrightarrow> \<not> p_gt_d cmp s \<and> \<not> p_gt_a cmp s \<and> (p_lt_d cmp s \<longleftrightarrow> \<not> d) \<and> (p_lt_a cmp s \<longleftrightarrow> \<not> a) \<and>
      (p_eq_d cmp s \<longleftrightarrow> d) \<and> (p_eq_a cmp s \<longleftrightarrow> a)"
    "\<not> h \<Longrightarrow> d \<Longrightarrow> p_gt_d cmp s \<and> \<not> p_lt_d cmp s \<and> \<not> p_eq_d cmp s"
    "\<not> h \<Longrightarrow> a \<Longrightarrow> p_gt_a cmp s \<and> \<not> p_lt_a cmp s \<and> \<not> p_eq_a cmp s"
    "d \<Longrightarrow> \<not> a_lt_d cmp s \<and> (d_lt_a cmp s \<longleftrightarrow> \<not> a)"
    "a \<Longrightarrow> \<not> d_lt_a cmp s \<and> (a_lt_d cmp s \<longleftrightarrow> \<not> d)"
proof -
  have tt: "cmp t t = 0" using comparison.cmp_self [OF assms(1)] assms(3) by simp
  note fd = at_head_facts [OF assms(1-5)] and fa = at_head_facts [OF assms(1-3,6,7)]
    and fp = at_head_facts [OF assms(1-3) _ assms(9)]
  have p: "if as_p_ended s then \<not> h else if h then pe_triple (as_element s) = t
      else cmp t (pe_triple (as_element s)) < 0 \<and> cmp (pe_triple (as_element s)) t > 0"
    using assms(8,10) fp
    by (cases es) (auto simp: pending_patch_def h_def current_def same_element_def at_head_def)
  have d: "if as_d_ended s then \<not> d else if d then as_dkey s = t else cmp t (as_dkey s) < 0 \<and> cmp (as_dkey s) t > 0"
    using assms(11) fd by (cases ds) (auto simp: pending_deletion_def d_def at_head_def)
  have a: "if as_a_ended s then \<not> a else if a then as_akey s = t else cmp t (as_akey s) < 0 \<and> cmp (as_akey s) t > 0"
    using assms(12) fa by (cases ads) (auto simp: pending_addition_def a_def at_head_def)
  note defs = p_gt_d_def p_gt_a_def p_lt_d_def p_lt_a_def p_eq_d_def p_eq_a_def d_lt_a_def a_lt_d_def
    comp_deletion_def comp_addition_def comp_deletion_addition_def
  show "h \<Longrightarrow> \<not> p_gt_d cmp s \<and> \<not> p_gt_a cmp s \<and> (p_lt_d cmp s \<longleftrightarrow> \<not> d) \<and> (p_lt_a cmp s \<longleftrightarrow> \<not> a) \<and>
      (p_eq_d cmp s \<longleftrightarrow> d) \<and> (p_eq_a cmp s \<longleftrightarrow> a)"
    using p d a tt unfolding defs by (auto split: if_splits)
  show "\<not> h \<Longrightarrow> d \<Longrightarrow> p_gt_d cmp s \<and> \<not> p_lt_d cmp s \<and> \<not> p_eq_d cmp s"
    using p d unfolding defs by (auto split: if_splits)
  show "\<not> h \<Longrightarrow> a \<Longrightarrow> p_gt_a cmp s \<and> \<not> p_lt_a cmp s \<and> \<not> p_eq_a cmp s"
    using p a unfolding defs by (auto split: if_splits)
  show "d \<Longrightarrow> \<not> a_lt_d cmp s \<and> (d_lt_a cmp s \<longleftrightarrow> \<not> a)" using d a tt unfolding defs by (auto split: if_splits)
  show "a \<Longrightarrow> \<not> d_lt_a cmp s \<and> (a_lt_d cmp s \<longleftrightarrow> \<not> d)" using d a tt unfolding defs by (auto split: if_splits)
qed

lemma merge_orderD:
  assumes "store_laws (kc_tree kc) m A keys valid" "merge_order kc m A keys valid (t # ts) es ds ads st"
  shows "ts_dict st = m" "ascending (key_compare (spo_comparator m)) (t # ts)" "set (t # ts) \<subseteq> A"
    "set ds \<subseteq> set (t # ts)" "ascending (key_compare (spo_comparator m)) ds"
    "set ads \<subseteq> set (t # ts)" "ascending (key_compare (spo_comparator m)) ads"
    "pe_triple ` set es \<subseteq> set (t # ts)" "ascending (key_compare (spo_comparator m)) (map pe_triple es)"
    "t \<in> pe_triple ` set es \<union> set ds \<union> set ads"
    "is_deleted_key kc t st \<longleftrightarrow> t \<in> set ds" "is_added_key kc t st \<longleftrightarrow> t \<in> set ads"
proof -
  note laws = spec [OF assms(1) [unfolded store_laws_def], of SPO, unfolded spo_order]
  note mo = assms(2) [unfolded merge_order_def Let_def]
  obtain xs ys where k: "keys (ts_spo_deletions st) = xs @ ds" "keys (ts_spo_additions st) = ys @ ads"
    using mo by blast
  have "valid SPO (ts_spo_deletions st)" "valid SPO (ts_spo_additions st)"
    using mo by (simp_all add: store_ok_def trees_valid_def)
  then show "ascending (key_compare (spo_comparator m)) ds" "ascending (key_compare (spo_comparator m)) ads"
    using tree_laws_keys(3) [OF laws] k by (metis sorted_wrt_append)+
qed (use assms(2) in \<open>auto simp: merge_order_def Let_def\<close>)

lemma branch_is_visit:
  assumes "store_laws (kc_tree kc) m A keys valid" "comparison (key_compare (spo_comparator m)) A"
    "merge_order kc m A keys valid (t # ts) es ds ads (ms_store ms)" "all_pending kc yields es ds ads prev ms s"
  shows "append_branch kc p s =
    bind_outcome (visit kc p t (at_head t (map pe_triple es)) (current es prev) ms) (\<lambda>ms'.
      Inr (set_steps (at_head t (map pe_triple es)) (at_head t ds) (at_head t ads)
        (with_values (\<not> at_head t ds) (\<not> at_head t ads) (as_data s) ms') s))"
proof -
  define h where "h = at_head t (map pe_triple es)"
  define d where "d = at_head t ds"
  define a where "a = at_head t ads"
  define dv where "dv = ms_dvalue (as_data s)"
  define av where "av = ms_avalue (as_data s)"
  define cmp where "cmp = key_compare (spo_comparator m)"
  note mo = merge_orderD [OF assms(1,3), folded cmp_def]
  have pend: "pending_patch yields es prev s" "pending_deletion kc ds ms s" "pending_addition kc ads ms s"
    "same_store ms s"
    using assms(4) by (simp_all add: all_pending_def)
  note c = comparisons [OF assms(2) [folded cmp_def] mo(2-9) pend(1-3), folded h_def d_def a_def]
  note ph = past_set [OF assms(2) [folded cmp_def] _ _ mo(2,3)]
  have heads: "h \<longleftrightarrow> t \<in> pe_triple ` set es" "d \<longleftrightarrow> t \<in> set ds" "a \<longleftrightarrow> t \<in> set ads"
    using ph(1) [OF mo(9)] ph(1) [OF mo(5,4)] ph(1) [OF mo(7,6)] mo(8) by (simp_all add: h_def d_def a_def)
  then have some: "h \<or> d \<or> a" using mo(10) by blast
  have v: "visit kc p t h (current es prev) ms =
      visit_branch kc p t h (current es prev) d a (with_values d a (as_data s) ms)"
    using loads [OF pend(2,3), of t p h "current es prev"] mo(11,12) heads by (simp add: d_def a_def)
  have data: "as_data s = ms\<lparr> ms_dvalue := dv, ms_avalue := av \<rparr>"
    using same_store_data [OF pend(4)] by (simp add: dv_def av_def)
  have key: "d \<Longrightarrow> as_dkey s = t \<and> as_dcur s = Some t" "a \<Longrightarrow> as_akey s = t \<and> as_acur s = Some t"
    using pend(2,3)
    by (auto simp: d_def a_def at_head_def pending_deletion_def pending_addition_def split: list.splits)
  have "pe_triple (as_element s) = pe_triple (current es prev)" "pe_addition (as_element s) = pe_addition (current es prev)"
    using pend(1) by (simp_all add: pending_patch_def same_element_def)
  note e = branch_element [OF this, of kc p]
  have cmp: "key_compare (get_spo_comparator (ms_store (as_data s))) = cmp"
    using mo(1) pend(4) by (simp add: get_spo_comparator_def same_store_def cmp_def)
  have data': "as_data s = ms\<lparr> ms_avalue := av, ms_dvalue := dv \<rparr>" unfolding data by (rule value_commute [symmetric])
  have b: "branch_deletion kc p t (Some t) (as_data s) =
      bind_outcome (branch_deletion kc p t (Some t) (ms\<lparr> ms_dvalue := dv \<rparr>)) (\<lambda>r. Inr (r\<lparr> ms_avalue := av \<rparr>))"
    "branch_patch_deletion kc p (current es prev) t (Some t) (as_data s) =
      bind_outcome (branch_patch_deletion kc p (current es prev) t (Some t) (ms\<lparr> ms_dvalue := dv \<rparr>))
        (\<lambda>r. Inr (r\<lparr> ms_avalue := av \<rparr>))"
    "branch_patch kc p (current es prev) (as_data s) =
      bind_outcome (branch_patch kc p (current es prev) ms) (\<lambda>r. Inr (r\<lparr> ms_dvalue := dv, ms_avalue := av \<rparr>))"
    unfolding data by (simp_all only: branch_deletion_avalue branch_patch_deletion_avalue branch_patch_values
        bind_outcome_assoc bind_outcome_simps)
  have b': "branch_addition kc p t (Some t) (as_data s) =
      bind_outcome (branch_addition kc p t (Some t) (ms\<lparr> ms_avalue := av \<rparr>)) (\<lambda>r. Inr (r\<lparr> ms_dvalue := dv \<rparr>))"
    "branch_patch_addition kc p (current es prev) t (Some t) (as_data s) =
      bind_outcome (branch_patch_addition kc p (current es prev) t (Some t) (ms\<lparr> ms_avalue := av \<rparr>))
        (\<lambda>r. Inr (r\<lparr> ms_dvalue := dv \<rparr>))"
    unfolding data' by (simp_all only: branch_addition_dvalue branch_patch_addition_dvalue)
  show ?thesis
    unfolding h_def [symmetric] d_def [symmetric] a_def [symmetric] v
    using some c key
    by (cases h; cases d; cases a)
      (simp_all add: append_branch_def cmp Let_def e b b' visit_branch_def with_values_def bind_outcome_assoc
        flip: dv_def av_def data)
qed

lemma value_fixed:
  "r = bind_outcome r (\<lambda>x. Inr (x\<lparr> ms_dvalue := y \<rparr>)) \<Longrightarrow> r = Inr ms' \<Longrightarrow> ms_dvalue ms' = y"
  "r = bind_outcome r (\<lambda>x. Inr (x\<lparr> ms_avalue := z \<rparr>)) \<Longrightarrow> r = Inr ms' \<Longrightarrow> ms_avalue ms' = z"
proof -
  assume "r = bind_outcome r (\<lambda>x. Inr (x\<lparr> ms_dvalue := y \<rparr>))" "r = Inr ms'"
  then have "ms' = ms'\<lparr> ms_dvalue := y \<rparr>" by simp
  then have "ms_dvalue ms' = ms_dvalue (ms'\<lparr> ms_dvalue := y \<rparr>)" by (rule arg_cong)
  then show "ms_dvalue ms' = y" by simp
next
  assume "r = bind_outcome r (\<lambda>x. Inr (x\<lparr> ms_avalue := z \<rparr>))" "r = Inr ms'"
  then have "ms' = ms'\<lparr> ms_avalue := z \<rparr>" by simp
  then have "ms_avalue ms' = ms_avalue (ms'\<lparr> ms_avalue := z \<rparr>)" by (rule arg_cong)
  then show "ms_avalue ms' = z" by simp
qed

lemma visit_branch_values:
  assumes "visit_branch kc p t here cur d a ms = Inr ms'"
  shows "\<not> d \<Longrightarrow> ms_dvalue ms' = ms_dvalue ms" "\<not> a \<Longrightarrow> ms_avalue ms' = ms_avalue ms"
proof -
  have idd: "ms\<lparr> ms_dvalue := ms_dvalue ms \<rparr> = ms" and ida: "ms\<lparr> ms_avalue := ms_avalue ms \<rparr> = ms" by simp_all
  note fd = value_fixed(1) [OF branch_addition_dvalue [of kc p t "Some t" "ms_dvalue ms" ms, unfolded idd]]
    value_fixed(1) [OF branch_patch_addition_dvalue [of kc p cur t "Some t" "ms_dvalue ms" ms, unfolded idd]]
    value_fixed(1) [OF branch_patch_values(1) [of kc p cur "ms_dvalue ms" ms, unfolded idd]]
  note fa = value_fixed(2) [OF branch_deletion_avalue [of kc p t "Some t" "ms_avalue ms" ms, unfolded ida]]
    value_fixed(2) [OF branch_patch_deletion_avalue [of kc p cur t "Some t" "ms_avalue ms" ms, unfolded ida]]
    value_fixed(2) [OF branch_patch_values(2) [of kc p cur "ms_avalue ms" ms, unfolded ida]]
  show "ms_dvalue ms' = ms_dvalue ms" if "\<not> d"
    using assms that fd by (auto simp: visit_branch_def split: if_splits)
  show "ms_avalue ms' = ms_avalue ms" if "\<not> a"
    using assms that fa by (auto simp: visit_branch_def split: if_splits)
qed

lemma past_no_head [simp]: "\<not> at_head t l \<Longrightarrow> past t l = l"
  by (simp add: past_def)

lemma advance_patch:
  assumes "pending_patch yields es prev s" "as_step_p s' = at_head t (map pe_triple es)"
    "as_element s' = as_element s" "as_iter s' = as_iter s" "as_p_ended s' = as_p_ended s"
  shows "ready_patch yields (past_elements t es) (current es prev) s'"
proof (cases "at_head t (map pe_triple es)")
  case True
  then obtain e es' where "es = e # es'" by (cases es) (auto simp: at_head_def)
  then show ?thesis
    using assms True by (simp add: pending_patch_def ready_patch_def past_elements_def current_def)
next
  case False
  then show ?thesis
    using assms by (cases es) (simp_all add: pending_patch_def ready_patch_def past_elements_def current_def)
qed

lemma advance_deletion:
  assumes "pending_deletion kc ds ms s" "at_head t ds \<Longrightarrow> as_dcur s' = find (\<lambda>x. True) (past t ds)"
    "as_step_d s' = at_head t ds" "\<not> at_head t ds \<Longrightarrow> as_dcur s' = as_dcur s" "as_dkey s' = as_dkey s"
    "as_d_ended s' = as_d_ended s" "ms_dvalue (as_data s') = (if at_head t ds then ms_dvalue ms' else ms_dvalue (as_data s))"
    "\<not> at_head t ds \<Longrightarrow> ms_dvalue ms' = ms_dvalue ms"
    "\<And>x. x \<noteq> t \<Longrightarrow> tree_get (kc_tree kc) (ts_spo_deletions (ms_store ms')) x =
       tree_get (kc_tree kc) (ts_spo_deletions (ms_store ms)) x"
  shows "ready_deletion kc (past t ds) ms' s'"
proof (cases "at_head t ds")
  case False
  then show ?thesis
    using assms by (cases ds) (auto simp: ready_deletion_def pending_deletion_def at_head_def)
qed (use assms in \<open>simp add: ready_deletion_def\<close>)

lemma advance_addition:
  assumes "pending_addition kc ads ms s" "at_head t ads \<Longrightarrow> as_acur s' = find (\<lambda>x. True) (past t ads)"
    "as_step_a s' = at_head t ads" "\<not> at_head t ads \<Longrightarrow> as_acur s' = as_acur s" "as_akey s' = as_akey s"
    "as_a_ended s' = as_a_ended s" "ms_avalue (as_data s') = (if at_head t ads then ms_avalue ms' else ms_avalue (as_data s))"
    "\<not> at_head t ads \<Longrightarrow> ms_avalue ms' = ms_avalue ms"
    "\<And>x. x \<noteq> t \<Longrightarrow> tree_get (kc_tree kc) (ts_spo_additions (ms_store ms')) x =
       tree_get (kc_tree kc) (ts_spo_additions (ms_store ms)) x"
  shows "ready_addition kc (past t ads) ms' s'"
proof (cases "at_head t ads")
  case False
  then show ?thesis
    using assms by (cases ads) (auto simp: ready_addition_def pending_addition_def at_head_def)
qed (use assms in \<open>simp add: ready_addition_def\<close>)

lemma round_ready:
  assumes "store_laws (kc_tree kc) m A keys valid" "comparison (key_compare (spo_comparator m)) A"
    "merge_order kc m A keys valid (t # ts) es ds ads (ms_store ms)" "all_pending kc yields es ds ads prev ms s"
    "visit kc p t (at_head t (map pe_triple es)) (current es prev) ms = Inr ms'"
  defines "s' \<equiv> step_cursors kc (set_steps (at_head t (map pe_triple es)) (at_head t ds) (at_head t ads)
    (with_values (\<not> at_head t ds) (\<not> at_head t ads) (as_data s) ms') s)"
  shows "all_ready kc yields (past_elements t es) (past t ds) (past t ads) (current es prev) ms' s'"
    "merge_order kc m A keys valid ts (past_elements t es) (past t ds) (past t ads) (ms_store ms')"
    "readable kc ds ads (ms_store ms) \<Longrightarrow> readable kc (past t ds) (past t ads) (ms_store ms')"
proof -
  note mo = merge_orderD [OF assms(1,3)]
  have pend: "pending_patch yields es prev s" "pending_deletion kc ds ms s" "pending_addition kc ads ms s"
    "same_store ms s"
    using assms(4) by (simp_all add: all_pending_def)
  have "pe_triple (current es prev) = t" if "at_head t (map pe_triple es)"
    using that by (cases es) (auto simp: at_head_def current_def)
  then have tc: "touches kc valid t (ms_store ms) (ms_store ms')"
    using visit_touches [OF assms(1) _ _ assms(5)] mo(3) by auto
  note step = merge_step [OF assms(1-3) tc]
  show "merge_order kc m A keys valid ts (past_elements t es) (past t ds) (past t ads) (ms_store ms')" by (rule step(1))
  show "readable kc ds ads (ms_store ms) \<Longrightarrow> readable kc (past t ds) (past t ads) (ms_store ms')" by (rule step(4))
  have "store_ok (kc_tree kc) valid (ms_store ms)" using assms(3) by (simp add: merge_order_def Let_def)
  then have get: "x \<noteq> t \<Longrightarrow> tree_get (kc_tree kc) (ts_spo_deletions (ms_store ms')) x =
       tree_get (kc_tree kc) (ts_spo_deletions (ms_store ms)) x"
    "x \<noteq> t \<Longrightarrow> tree_get (kc_tree kc) (ts_spo_additions (ms_store ms')) x =
       tree_get (kc_tree kc) (ts_spo_additions (ms_store ms)) x" for x
    using tc by (simp_all add: touches_def)
  have iff: "is_deleted_key kc t (ms_store ms) \<longleftrightarrow> at_head t ds" "is_added_key kc t (ms_store ms) \<longleftrightarrow> at_head t ads"
    using mo(11,12) past_set(1) [OF assms(2) _ _ mo(2,3)] mo(4-7) by simp_all
  note v = visit_branch_values [OF assms(5) [unfolded loads [OF pend(2,3) iff]]]
  have val: "\<not> at_head t ds \<Longrightarrow> ms_dvalue ms' = ms_dvalue ms" "\<not> at_head t ads \<Longrightarrow> ms_avalue ms' = ms_avalue ms"
    using v by (simp_all add: with_values_def)
  have ended: "at_head t ds \<Longrightarrow> \<not> as_d_ended s \<and> as_dcur s = Some t" "at_head t ads \<Longrightarrow> \<not> as_a_ended s \<and> as_acur s = Some t"
    using pend(2,3) by (auto simp: at_head_def pending_deletion_def pending_addition_def split: list.splits)
  note defs = s'_def step_cursors_def set_steps_def Let_def with_values_def
  have "ready_patch yields (past_elements t es) (current es prev) s'"
    by (rule advance_patch [OF pend(1)]) (simp_all add: defs)
  moreover have "ready_deletion kc (past t ds) ms' s'"
    by (rule advance_deletion [OF pend(2) _ _ _ _ _ _ val(1) get(1)])
      (use ended(1) step(2) in \<open>auto simp: defs cursor_step_def get_default_deletions_tree_def\<close>)
  moreover have "ready_addition kc (past t ads) ms' s'"
    by (rule advance_addition [OF pend(3) _ _ _ _ _ _ val(2) get(2)])
      (use ended(2) step(3) in \<open>auto simp: defs cursor_step_def get_default_additions_tree_def\<close>)
  moreover have "same_store ms' s'" by (simp add: same_store_def defs)
  ultimately show "all_ready kc yields (past_elements t es) (past t ds) (past t ads) (current es prev) ms' s'"
    by (simp add: all_ready_def)
qed

context element_source
begin

text \<open>With more fuel than triples to visit the loop ends, and when all records can be read with the data the
  visits lead to.\<close>

lemma loop_visits:
  assumes "store_laws (kc_tree kc) m A keys valid" "comparison (key_compare (spo_comparator m)) A"
    "merge_order kc m A keys valid ts es ds ads (ms_store ms)" "all_ready kc yields es ds ads prev ms s"
    "length ts < fuel"
  shows "\<exists>r. append_loop kc nxt p fuel s = Some r \<and>
    (readable kc ds ads (ms_store ms) \<longrightarrow> map_sum id as_data r = visit_all kc p ts es prev ms)"
  using assms(3-)
proof (induction ts arbitrary: es ds ads prev ms s fuel)
  case Nil
  obtain n where n: "fuel = Suc n" using Nil.prems(3) by (cases fuel) auto
  have e: "es = []" "ds = []" "ads = []" using Nil.prems(1) by (auto simp: merge_order_def Let_def)
  from reads_pending [OF Nil.prems(2,1)] show ?case
  proof (elim disjE exE conjE)
    fix s'
    assume s': "bind_outcome (read_deletion kc (read_patch nxt s)) (read_addition kc) = Inr s'"
      "all_pending kc yields es ds ads prev ms s'"
    have "as_p_ended s'" "as_d_ended s'" "as_a_ended s'" "as_data s' = ms"
      using s'(2) same_store_data [of ms s']
      by (simp_all add: e all_pending_def pending_patch_def pending_deletion_def pending_addition_def)
    then show ?thesis by (simp add: n s'(1))
  qed (simp add: n)
next
  case (Cons t ts)
  obtain n where n: "fuel = Suc n" using Cons.prems(3) by (cases fuel) auto
  from reads_pending [OF Cons.prems(2,1)] show ?case
  proof (elim disjE exE conjE)
    fix s'
    assume s': "bind_outcome (read_deletion kc (read_patch nxt s)) (read_addition kc) = Inr s'"
      "all_pending kc yields es ds ads prev ms s'"
    note mo = merge_orderD [OF assms(1) Cons.prems(1)]
    have "es \<noteq> [] \<or> ds \<noteq> [] \<or> ads \<noteq> []" using mo(10) by auto
    then have running: "\<not> (as_p_ended s' \<and> as_d_ended s' \<and> as_a_ended s')"
      using s'(2)
      by (auto simp: all_pending_def pending_patch_def pending_deletion_def pending_addition_def split: list.splits)
    note b = branch_is_visit [OF assms(1,2) Cons.prems(1) s'(2), of p]
    show ?thesis
    proof (cases "visit kc p t (at_head t (map pe_triple es)) (current es prev) ms")
      case (Inl err)
      then show ?thesis using running b by (auto simp: n s'(1) Let_def)
    next
      case (Inr ms')
      note r = round_ready [OF assms(1,2) Cons.prems(1) s'(2) Inr]
      have "length ts < n" using Cons.prems(3) n by simp
      note ih = Cons.IH [OF r(2,1) this]
      show ?thesis using running b Inr ih r(3) by (auto simp: n s'(1) Let_def past_elements_def)
    qed
  qed (simp add: n)
qed

end

end
