(* ===== verification/Append_Properties.thy ===== *)
theory Append_Properties
  imports Append_Correctness
begin

text \<open>
  The properties of \<open>append\<close> on a store: it ends, it is the sequence of visits of theory \<open>Patch_Tree_Merge\<close>,
  it keeps the six trees consistent, and the new triples of the patch are stored with their first value.
\<close>

section \<open>Vector iterators\<close>

interpretation vector: element_source vi_next "\<lambda>it es. vi_rest it = es"
  by unfold_locales (simp_all add: vi_next_def pe_set_addition_def pe_set_triple_def)

section \<open>Sorted lists of triples\<close>

lemma ascending_exists:
  assumes "comparison cmp A" "finite S" "S \<subseteq> A"
  shows "\<exists>ts. ascending cmp ts \<and> set ts = S"
  using assms(2,3)
proof (induction S rule: finite_induct)
  case empty
  then show ?case by (intro exI [of _ "[]"]) simp
next
  case (insert x S)
  then obtain ts where ts: "ascending cmp ts" "set ts = S" by auto
  let ?us = "filter (\<lambda>y. cmp y x < 0) ts" and ?vs = "filter (\<lambda>y. cmp x y < 0) ts"
  have a: "\<forall>y\<in>set ts. y \<in> A \<and> y \<noteq> x" using insert.hyps(2) insert.prems ts(2) by auto
  have x: "x \<in> A" using insert.prems by simp
  have "set ts = set ?us \<union> set ?vs" using a comparison.cmp_total [OF assms(1) _ x] by auto
  then have "set (?us @ x # ?vs) = insert x S" using ts(2) by auto
  moreover have "ascending cmp (?us @ x # ?vs)"
    using ts(1) a x comparison.cmp_trans [OF assms(1) _ x]
    by (auto simp: sorted_wrt_append sorted_wrt_filter)
  ultimately show ?case by blast
qed

lemma ascending_length:
  assumes "comparison cmp A" "ascending cmp ts" "set ts \<subseteq> A"
  shows "length ts = card (set ts)"
proof -
  have "distinct ts" using assms(2,3)
    by (induction ts) (use comparison.cmp_self [OF assms(1)] in auto)
  then show ?thesis by (simp add: distinct_card)
qed

section \<open>A tree that a patch is appended to\<close>

text \<open>The patch and the trees are in order; for \<open>append_ready\<close> their records can also be read.\<close>

definition append_input ::
  "('t, 'c, 'h) kyoto \<Rightarrow> dictionary_manager \<Rightarrow> ('t \<Rightarrow> triple list) \<Rightarrow> (component_order \<Rightarrow> 't \<Rightarrow> bool) \<Rightarrow>
   patch_element list \<Rightarrow> ('t, 'c, 'h) patch_tree \<Rightarrow> bool" where
  "append_input kc m keys valid es pt \<longleftrightarrow>
     (\<forall>r. role_sorted m r) \<and> unat (dm_max_hdt_id m) < 2 ^ 31 \<and>
     store_laws (kc_tree kc) m (known_keys m) keys valid \<and>
     store_ok (kc_tree kc) valid (pt_store pt) \<and> ts_dict (pt_store pt) = m \<and>
     pe_triple ` set es \<subseteq> known_keys m \<and> ascending (key_compare (spo_comparator m)) (map pe_triple es)"

definition append_ready ::
  "('t, 'c, 'h) kyoto \<Rightarrow> dictionary_manager \<Rightarrow> ('t \<Rightarrow> triple list) \<Rightarrow> (component_order \<Rightarrow> 't \<Rightarrow> bool) \<Rightarrow>
   patch_element list \<Rightarrow> ('t, 'c, 'h) patch_tree \<Rightarrow> bool" where
  "append_ready kc m keys valid es pt \<longleftrightarrow>
     append_input kc m keys valid es pt \<and>
     readable kc (keys (ts_spo_deletions (pt_store pt))) (keys (ts_spo_additions (pt_store pt))) (pt_store pt)"

lemma append_ready_input: "append_ready kc m keys valid es pt \<Longrightarrow> append_input kc m keys valid es pt"
  by (simp add: append_ready_def)

text \<open>The triples of the patch and of the two trees.\<close>

definition triples_of :: "('t, 'c, 'h) kyoto \<Rightarrow> patch_element list \<Rightarrow> ('t, 'c, 'h) patch_tree \<Rightarrow> triple set" where
  "triples_of kc es pt = pe_triple ` set es \<union> {t. is_deleted_key kc t (pt_store pt)} \<union> {t. is_added_key kc t (pt_store pt)}"

definition append_data :: "('t, 'c, 'h) kyoto \<Rightarrow> ('t, 'c, 'h) patch_tree \<Rightarrow> ('t, 'c, 'h) merge_state" where
  "append_data kc pt = as_data (append_start kc () pt)"

lemma append_data_start [simp]: "as_data (append_start kc it pt) = append_data kc pt"
  by (simp add: append_data_def append_start_def Let_def)

lemma append_data_store [simp]: "ms_store (append_data kc pt) = pt_store pt"
  by (simp add: append_data_def append_start_def Let_def)

lemma append_inputD:
  assumes "append_input kc m keys valid es pt"
  shows "comparison (key_compare (spo_comparator m)) (known_keys m)"
    "store_laws (kc_tree kc) m (known_keys m) keys valid"
    "set (keys (ts_spo_deletions (pt_store pt))) = {t. is_deleted_key kc t (pt_store pt)}"
    "set (keys (ts_spo_additions (pt_store pt))) = {t. is_added_key kc t (pt_store pt)}"
    "finite (triples_of kc es pt)" "triples_of kc es pt \<subseteq> known_keys m"
proof -
  note ar = assms [unfolded append_input_def]
  show c: "comparison (key_compare (spo_comparator m)) (known_keys m)"
    using order_comparison [of m SPO] ar by (simp add: spo_order)
  show sl: "store_laws (kc_tree kc) m (known_keys m) keys valid" using ar by blast
  note laws = spec [OF sl [unfolded store_laws_def], of SPO, unfolded spo_order]
  have v: "valid SPO (ts_spo_deletions (pt_store pt))" "valid SPO (ts_spo_additions (pt_store pt))"
    using ar by (simp_all add: store_ok_def trees_valid_def)
  show kd: "set (keys (ts_spo_deletions (pt_store pt))) = {t. is_deleted_key kc t (pt_store pt)}"
    and ka: "set (keys (ts_spo_additions (pt_store pt))) = {t. is_added_key kc t (pt_store pt)}"
    using tree_laws_keys(1) [OF laws v(1)] tree_laws_keys(1) [OF laws v(2)]
    by (auto simp: is_deleted_key_def is_added_key_def)
  show "finite (triples_of kc es pt)" unfolding triples_of_def kd [symmetric] ka [symmetric] by simp
  show "triples_of kc es pt \<subseteq> known_keys m"
    unfolding triples_of_def kd [symmetric] ka [symmetric]
    using ar tree_laws_keys(2) [OF laws v(1)] tree_laws_keys(2) [OF laws v(2)] by blast
qed

lemmas append_readyD = append_inputD [OF append_ready_input]

lemma start_order:
  assumes "append_input kc m keys valid es pt" "ascending (key_compare (spo_comparator m)) ts"
    "set ts = triples_of kc es pt"
  shows "merge_order kc m (known_keys m) keys valid ts es (keys (ts_spo_deletions (pt_store pt)))
    (keys (ts_spo_additions (pt_store pt))) (pt_store pt)"
  using assms append_inputD [OF assms(1)]
  by (auto simp: merge_order_def append_input_def Let_def triples_of_def)

lemma start_ready:
  assumes "append_input kc m keys valid es pt" "vi_rest it = es"
  shows "all_ready kc (\<lambda>it es. vi_rest it = es) es (keys (ts_spo_deletions (pt_store pt)))
    (keys (ts_spo_additions (pt_store pt))) (pe_new (mk_triple 0 0 0) True) (append_data kc pt) (append_start kc it pt)"
proof -
  note laws = spec [OF append_inputD(2) [OF assms(1), unfolded store_laws_def], of SPO, unfolded spo_order]
  have "valid SPO (ts_spo_deletions (pt_store pt))" "valid SPO (ts_spo_additions (pt_store pt))"
    using assms(1) by (simp_all add: append_input_def store_ok_def trees_valid_def)
  then show ?thesis
    using tree_laws_keys(5) [OF laws] assms(2)
    by (simp add: all_ready_def ready_patch_def ready_deletion_def ready_addition_def same_store_def append_start_def
        Let_def same_element_def get_default_deletions_tree_def get_default_additions_tree_def append_data_def)
qed

text \<open>\<open>append_unsafe\<close> with more fuel than triples.\<close>

lemma append_unsafe_ends:
  assumes "append_input kc m keys valid es pt" "card (triples_of kc es pt) < fuel" "vi_rest it = es"
  shows "\<exists>r. append_unsafe kc vi_next fuel it patch_id pt = Some r"
proof (cases "pt_readonly pt")
  case False
  note d = append_inputD [OF assms(1)]
  obtain ts where ts: "ascending (key_compare (spo_comparator m)) ts" "set ts = triples_of kc es pt"
    using ascending_exists [OF d(1,5,6)] by blast
  have lt: "length ts < fuel" using ascending_length [OF d(1) ts(1)] ts(2) d(6) assms(2) by simp
  have o: "merge_order kc m (known_keys m) keys valid ts es (keys (ts_spo_deletions (pt_store pt)))
      (keys (ts_spo_additions (pt_store pt))) (ms_store (append_data kc pt))"
    using start_order [OF assms(1) ts] by simp
  obtain r where "append_loop kc vi_next patch_id fuel (append_start kc it pt) = Some r"
    using vector.loop_visits [OF d(2,1) o start_ready [OF assms(1,3)] lt] by blast
  then show ?thesis using False by (cases r) (simp_all add: append_unsafe_def)
qed (simp add: append_unsafe_def)

lemma append_unsafe_visits:
  assumes "append_ready kc m keys valid es pt" "ascending (key_compare (spo_comparator m)) ts"
    "set ts = triples_of kc es pt" "length ts < fuel" "\<not> pt_readonly pt" "vi_rest it = es"
  shows "append_unsafe kc vi_next fuel it patch_id pt =
    Some (bind_outcome (visit_all kc patch_id ts es (pe_new (mk_triple 0 0 0) True) (append_data kc pt))
      (\<lambda>ms. Inr (append_finish kc patch_id ms pt)))"
proof -
  note i = append_ready_input [OF assms(1)]
  have o: "merge_order kc m (known_keys m) keys valid ts es (keys (ts_spo_deletions (pt_store pt)))
      (keys (ts_spo_additions (pt_store pt))) (ms_store (append_data kc pt))"
    using start_order [OF i assms(2,3)] by simp
  have "readable kc (keys (ts_spo_deletions (pt_store pt))) (keys (ts_spo_additions (pt_store pt))) (ms_store (append_data kc pt))"
    using assms(1) by (simp add: append_ready_def)
  then obtain r where "append_loop kc vi_next patch_id fuel (append_start kc it pt) = Some r"
    "map_sum id as_data r = visit_all kc patch_id ts es (pe_new (mk_triple 0 0 0) True) (append_data kc pt)"
    using vector.loop_visits [OF append_inputD(2,1) [OF i] o start_ready [OF i assms(6)] assms(4)] by blast
  then show ?thesis
    using assms(5) by (cases r) (simp_all add: append_unsafe_def flip: \<open>map_sum id as_data r = _\<close>)
qed

section \<open>What the visits leave behind\<close>

lemma current_head: "at_head t (map pe_triple es) \<Longrightarrow> pe_triple (current es prev) = t"
  by (cases es) (auto simp: at_head_def current_def)

lemma visit_all_stores:
  assumes "store_laws (kc_tree kc) m A keys valid" "set ts \<subseteq> A" "store_ok (kc_tree kc) valid (ms_store ms)"
    "visit_all kc p ts es prev ms = Inr ms'"
  shows "store_ok (kc_tree kc) valid (ms_store ms')"
    "\<And>x. x \<notin> set ts \<Longrightarrow> tree_get (kc_tree kc) (ts_spo_deletions (ms_store ms')) x =
       tree_get (kc_tree kc) (ts_spo_deletions (ms_store ms)) x \<and>
       tree_get (kc_tree kc) (ts_spo_additions (ms_store ms')) x = tree_get (kc_tree kc) (ts_spo_additions (ms_store ms)) x"
    "\<And>x. is_deleted_key kc x (ms_store ms) \<Longrightarrow> is_deleted_key kc x (ms_store ms')"
    "\<And>x. is_added_key kc x (ms_store ms) \<Longrightarrow> is_added_key kc x (ms_store ms')"
proof -
  have "store_ok (kc_tree kc) valid (ms_store ms') \<and>
    (\<forall>x. x \<notin> set ts \<longrightarrow> tree_get (kc_tree kc) (ts_spo_deletions (ms_store ms')) x =
       tree_get (kc_tree kc) (ts_spo_deletions (ms_store ms)) x \<and>
       tree_get (kc_tree kc) (ts_spo_additions (ms_store ms')) x = tree_get (kc_tree kc) (ts_spo_additions (ms_store ms)) x) \<and>
    (\<forall>x. (is_deleted_key kc x (ms_store ms) \<longrightarrow> is_deleted_key kc x (ms_store ms')) \<and>
       (is_added_key kc x (ms_store ms) \<longrightarrow> is_added_key kc x (ms_store ms')))"
    using assms(2-)
  proof (induction ts arbitrary: es prev ms)
    case Nil
    then show ?case by simp
  next
    case (Cons t ts)
    obtain ms1 where v: "visit kc p t (at_head t (map pe_triple es)) (current es prev) ms = Inr ms1"
      "visit_all kc p ts (if at_head t (map pe_triple es) then tl es else es) (current es prev) ms1 = Inr ms'"
      using Cons.prems(3) by (auto simp: Let_def bind_outcome_eq_Inr)
    have "touches kc valid t (ms_store ms) (ms_store ms1)"
      using visit_touches [OF assms(1) _ current_head v(1)] Cons.prems(1) by simp
    then have tc: "store_ok (kc_tree kc) valid (ms_store ms1)"
      "\<forall>k. k \<noteq> t \<longrightarrow> tree_get (kc_tree kc) (ts_spo_deletions (ms_store ms1)) k =
         tree_get (kc_tree kc) (ts_spo_deletions (ms_store ms)) k \<and>
         tree_get (kc_tree kc) (ts_spo_additions (ms_store ms1)) k = tree_get (kc_tree kc) (ts_spo_additions (ms_store ms)) k"
      "is_deleted_key kc t (ms_store ms) \<longrightarrow> is_deleted_key kc t (ms_store ms1)"
      "is_added_key kc t (ms_store ms) \<longrightarrow> is_added_key kc t (ms_store ms1)"
      using Cons.prems(2) by (simp_all add: touches_def)
    have k: "(is_deleted_key kc x (ms_store ms) \<longrightarrow> is_deleted_key kc x (ms_store ms1)) \<and>
        (is_added_key kc x (ms_store ms) \<longrightarrow> is_added_key kc x (ms_store ms1))" for x
      using tc(2-4) by (cases "x = t") (simp_all add: is_deleted_key_def is_added_key_def)
    have ih: "store_ok (kc_tree kc) valid (ms_store ms') \<and>
      (\<forall>x. x \<notin> set ts \<longrightarrow> tree_get (kc_tree kc) (ts_spo_deletions (ms_store ms')) x =
         tree_get (kc_tree kc) (ts_spo_deletions (ms_store ms1)) x \<and>
         tree_get (kc_tree kc) (ts_spo_additions (ms_store ms')) x = tree_get (kc_tree kc) (ts_spo_additions (ms_store ms1)) x) \<and>
      (\<forall>x. (is_deleted_key kc x (ms_store ms1) \<longrightarrow> is_deleted_key kc x (ms_store ms')) \<and>
         (is_added_key kc x (ms_store ms1) \<longrightarrow> is_added_key kc x (ms_store ms')))"
      using Cons.IH [OF _ tc(1) v(2)] Cons.prems(1) by simp
    then show ?case using tc(2) k by simp
  qed
  then show "store_ok (kc_tree kc) valid (ms_store ms')"
    "\<And>x. x \<notin> set ts \<Longrightarrow> tree_get (kc_tree kc) (ts_spo_deletions (ms_store ms')) x =
       tree_get (kc_tree kc) (ts_spo_deletions (ms_store ms)) x \<and>
       tree_get (kc_tree kc) (ts_spo_additions (ms_store ms')) x = tree_get (kc_tree kc) (ts_spo_additions (ms_store ms)) x"
    "\<And>x. is_deleted_key kc x (ms_store ms) \<Longrightarrow> is_deleted_key kc x (ms_store ms')"
    "\<And>x. is_added_key kc x (ms_store ms) \<Longrightarrow> is_added_key kc x (ms_store ms')"
    by blast+
qed

text \<open>The record of a triple of the patch that neither tree holds; \<open>pp\<close> are the positions of a deletion.\<close>

definition new_record ::
  "('t, 'c, 'h) kyoto \<Rightarrow> int \<Rightarrow> patch_element \<Rightarrow> patch_positions \<Rightarrow> ('t, 'c) triple_store \<Rightarrow> bool" where
  "new_record kc p e pp st \<longleftrightarrow>
     (if pe_addition e
      then tree_get (kc_tree kc) (ts_spo_additions st) (pe_triple e) = Some (av_serialize (first_addition p False)) \<and>
        tree_get (kc_tree kc) (ts_spo_deletions st) (pe_triple e) = None
      else tree_get (kc_tree kc) (ts_spo_deletions st) (pe_triple e) = Some (dv_serialize (first_deletion p False pp)) \<and>
        tree_get (kc_tree kc) (ts_spo_additions st) (pe_triple e) = None)"

text \<open>The positions the counters give a triple, and the counters after the deletions of a list of elements.\<close>

definition counted_positions :: "('t, 'c, 'h) kyoto \<Rightarrow> triple \<Rightarrow> 'h position_counters \<Rightarrow> patch_positions" where
  "counted_positions kc t c = fst (positions (kc_position kc) t c)"

definition count_element :: "('t, 'c, 'h) kyoto \<Rightarrow> patch_element \<Rightarrow> 'h position_counters \<Rightarrow> 'h position_counters" where
  "count_element kc e c = (if pe_addition e then c else snd (positions (kc_position kc) (pe_triple e) c))"

lemma count_addition_trees [simp]:
  "ts_spo_additions (ms_store (count_addition kc p t ms)) = ts_spo_additions (ms_store ms)"
  "ts_spo_deletions (ms_store (count_addition kc p t ms)) = ts_spo_deletions (ms_store ms)"
  by (simp_all add: count_addition_def increment_counts_trees)

lemma count_addition_counters [simp]: "ms_counters (count_addition kc p t ms) = ms_counters ms"
  by (simp add: count_addition_def)

lemma branch_patch_new:
  assumes "store_laws (kc_tree kc) m A keys valid" "store_ok (kc_tree kc) valid (ms_store ms)" "pe_triple e \<in> A"
    "p < INT_MAX" "\<not> is_deleted_key kc (pe_triple e) (ms_store ms)" "\<not> is_added_key kc (pe_triple e) (ms_store ms)"
  shows "\<exists>ms'. branch_patch kc p e ms = Inr ms' \<and>
    new_record kc p e (counted_positions kc (pe_triple e) (ms_counters ms)) (ms_store ms') \<and>
    ms_counters ms' = count_element kc e (ms_counters ms)"
proof (cases "pe_addition e")
  case True
  note a = insert_addition_value_ok [OF assms(1,2,3), of None "first_addition p False"]
  show ?thesis
    using True a assms(5)
    by (simp add: branch_patch_def insert_addition_first Let_def new_record_def increment_counts_trees is_deleted_key_def
        count_element_def)
next
  case False
  obtain pp c where pc: "positions (kc_position kc) (pe_triple e) (ms_counters ms) = (pp, c)" by (rule prod.exhaust)
  define ms1 where "ms1 = ms\<lparr> ms_counters := c \<rparr>"
  have np: "next_positions kc False (pe_triple e) ms = (pp, ms1)" by (simp add: next_positions_def pc ms1_def)
  then have st: "ms_store ms1 = ms_store ms" by (rule next_positions_store)
  obtain r where r: "dv_to_reduced True (first_deletion p False pp) = Inr r"
    "insert_deletion_single (kc_tree kc) (pe_triple e) pp p False True None (ms_store ms) =
      Inr (insert_deletion_value (kc_tree kc) (pe_triple e) (first_deletion p False pp) r None (ms_store ms))"
    using insert_deletion_first [OF assms(4)] by blast
  note d = insert_deletion_value_ok [OF assms(1,2,3), of None, OF _ r(1)]
  show ?thesis
    using False d assms(6)
    by (auto simp: branch_patch_def np st r(2) new_record_def is_added_key_def counted_positions_def count_element_def pc ms1_def)
qed

lemma visit_new:
  assumes "store_laws (kc_tree kc) m A keys valid" "store_ok (kc_tree kc) valid (ms_store ms)" "pe_triple e \<in> A"
    "p < INT_MAX" "\<not> is_deleted_key kc (pe_triple e) (ms_store ms)" "\<not> is_added_key kc (pe_triple e) (ms_store ms)"
  shows "\<exists>ms'. visit kc p (pe_triple e) True e ms = Inr ms' \<and>
    new_record kc p e (counted_positions kc (pe_triple e) (ms_counters ms)) (ms_store ms') \<and>
    ms_counters ms' = count_element kc e (ms_counters ms)"
  using branch_patch_new [OF assms] assms(5,6)
  by (simp add: visit_def load_deletion_def load_addition_def visit_branch_def is_deleted_key_def is_added_key_def)

lemma visit_all_new:
  assumes "store_laws (kc_tree kc) m A keys valid" "comparison cmp A" "p < INT_MAX"
    "ascending cmp ts" "set ts \<subseteq> A" "ascending cmp (map pe_triple es)" "pe_triple ` set es \<subseteq> set ts"
    "store_ok (kc_tree kc) valid (ms_store ms)" "visit_all kc p ts es prev ms = Inr ms'" "e \<in> set es"
    "\<not> is_deleted_key kc (pe_triple e) (ms_store ms)" "\<not> is_added_key kc (pe_triple e) (ms_store ms)"
  shows "\<exists>us vs ms1. ts = us @ pe_triple e # vs \<and> visit_all kc p us es prev ms = Inr ms1 \<and>
    new_record kc p e (counted_positions kc (pe_triple e) (ms_counters ms1)) (ms_store ms')"
  using assms(4-)
proof (induction ts arbitrary: es prev ms)
  case Nil
  then show ?case by auto
next
  case (Cons t ts)
  let ?here = "at_head t (map pe_triple es)"
  note pe = past_set [OF assms(2) Cons.prems(3) _ Cons.prems(1,2)]
  have sub: "set (map pe_triple es) \<subseteq> set (t # ts)" using Cons.prems(4) by simp
  obtain ms1 where v: "visit kc p t ?here (current es prev) ms = Inr ms1"
    "visit_all kc p ts (past_elements t es) (current es prev) ms1 = Inr ms'"
    using Cons.prems(6) by (auto simp: Let_def bind_outcome_eq_Inr past_elements_def)
  have tA: "t \<in> A" "set ts \<subseteq> A" using Cons.prems(2) by simp_all
  have nt: "t \<notin> set ts" using Cons.prems(1) comparison.cmp_self [OF assms(2) tA(1)] by auto
  have tc: "touches kc valid t (ms_store ms) (ms_store ms1)" by (rule visit_touches [OF assms(1) tA(1) current_head v(1)])
  then have ok: "store_ok (kc_tree kc) valid (ms_store ms1)" using Cons.prems(5) by (simp add: touches_def)
  show ?case
  proof (cases "pe_triple e = t")
    case True
    then have h: ?here using pe(1) [OF sub] Cons.prems(7) by auto
    then obtain e0 es0 where es: "es = e0 # es0" "pe_triple e0 = t" by (cases es) (auto simp: at_head_def)
    have "e \<notin> set es0"
      using Cons.prems(3) comparison.cmp_self [OF assms(2) tA(1)] es True by auto
    then have "e0 = e" using Cons.prems(7) es(1) by simp
    then have "new_record kc p e (counted_positions kc (pe_triple e) (ms_counters ms)) (ms_store ms1)"
      using visit_new [OF assms(1) Cons.prems(5) _ assms(3) Cons.prems(8,9)] v(1) h es tA(1)
      by (auto simp: current_def)
    then have "new_record kc p e (counted_positions kc (pe_triple e) (ms_counters ms)) (ms_store ms')"
      using visit_all_stores(2) [OF assms(1) tA(2) ok v(2) nt] unfolding new_record_def True by simp
    then show ?thesis using True by (intro exI [of _ "[]"] exI [of _ ts] exI [of _ ms]) simp
  next
    case False
    then have "\<not> is_deleted_key kc (pe_triple e) (ms_store ms1)" "\<not> is_added_key kc (pe_triple e) (ms_store ms1)"
      using tc Cons.prems(5,8,9) by (simp_all add: touches_def is_deleted_key_def is_added_key_def)
    moreover have "e \<in> set (past_elements t es)"
      using Cons.prems(7) False by (cases es) (auto simp: past_elements_def at_head_def)
    moreover have "pe_triple ` set (past_elements t es) \<subseteq> set ts"
    proof -
      have "pe_triple ` set (past_elements t es) = set (past t (map pe_triple es))"
        by (simp flip: past_elements_past)
      then show ?thesis using pe(2) [OF sub] sub by auto
    qed
    moreover have "ascending cmp (map pe_triple (past_elements t es))"
      unfolding past_elements_past by (rule pe(5) [OF sub])
    moreover have "ascending cmp ts" using Cons.prems(1) by simp
    ultimately obtain us vs ms2 where "ts = us @ pe_triple e # vs"
      "visit_all kc p us (past_elements t es) (current es prev) ms1 = Inr ms2"
      "new_record kc p e (counted_positions kc (pe_triple e) (ms_counters ms2)) (ms_store ms')"
      using Cons.IH tA(2) ok v(2) by blast
    then show ?thesis
      using v(1) by (intro exI [of _ "t # us"] exI [of _ vs] exI [of _ ms2]) (simp add: Let_def past_elements_def)
  qed
qed

lemma visit_all_fresh:
  assumes "store_laws (kc_tree kc) m A keys valid" "p < INT_MAX" "set ts \<subseteq> A" "distinct ts" "map pe_triple es = ts @ ws"
    "store_ok (kc_tree kc) valid (ms_store ms)"
    "\<forall>t\<in>set ts. \<not> is_deleted_key kc t (ms_store ms) \<and> \<not> is_added_key kc t (ms_store ms)"
  shows "\<exists>ms'. visit_all kc p ts es prev ms = Inr ms' \<and>
    ms_counters ms' = fold (count_element kc) (take (length ts) es) (ms_counters ms)"
  using assms(3-)
proof (induction ts arbitrary: es prev ms)
  case Nil
  then show ?case by simp
next
  case (Cons t ts)
  obtain e es' where es: "es = e # es'" "pe_triple e = t" "map pe_triple es' = ts @ ws" using Cons.prems(3) by auto
  have h: "at_head t (map pe_triple es)" "current es prev = e" using es by (simp_all add: at_head_def current_def)
  have tA: "t \<in> A" using Cons.prems(1) by simp
  obtain ms1 where v: "visit kc p t True e ms = Inr ms1" "ms_counters ms1 = count_element kc e (ms_counters ms)"
    using visit_new [OF assms(1) Cons.prems(4) _ assms(2)] Cons.prems(5) es(2) tA by fastforce
  have tc: "touches kc valid t (ms_store ms) (ms_store ms1)" by (rule visit_touches [OF assms(1) tA _ v(1)]) (rule es(2))
  have "\<forall>x\<in>set ts. \<not> is_deleted_key kc x (ms_store ms1) \<and> \<not> is_added_key kc x (ms_store ms1)"
  proof
    fix x assume x: "x \<in> set ts"
    then have "x \<noteq> t" using Cons.prems(2) by auto
    then show "\<not> is_deleted_key kc x (ms_store ms1) \<and> \<not> is_added_key kc x (ms_store ms1)"
      using tc Cons.prems(4,5) x by (simp add: touches_def is_deleted_key_def is_added_key_def)
  qed
  moreover have "store_ok (kc_tree kc) valid (ms_store ms1)" using tc Cons.prems(4) by (simp add: touches_def)
  ultimately have "\<exists>ms'. visit_all kc p ts es' e ms1 = Inr ms' \<and>
      ms_counters ms' = fold (count_element kc) (take (length ts) es') (ms_counters ms1)"
    using Cons.IH [OF _ _ es(3)] Cons.prems(1,2) by simp
  then show ?case using h v by (simp add: es(1) Let_def)
qed

section \<open>Reading back a first value\<close>

lemma first_addition_read:
  assumes "0 \<le> p" "p < INT_MAX"
  shows "av_deserialize (av_serialize (first_addition p lc)) (av_new k) =
    Inr ((first_addition p lc)\<lparr> av_max_patch_id := k + 1 \<rparr>)"
proof -
  have r: "runs_int32 [(p, INT_MAX)]" using assms by (simp add: runs_int32_def INT_MAX_def INT_MIN_def)
  have "length (il_serialize (open_run p)) \<le> il_alloc_size (open_run p)"
    using il_serialize_length [of "open_run p"] r by (simp add: open_run_def)
  moreover have "il_alloc_size (open_run p) < 2 ^ 64"
    by (simp add: il_alloc_size_def open_run_def get_SLEB128_size_INT_MAX)
  ultimately have l: "length (il_serialize (open_run p)) < 2 ^ 64" by simp
  show ?thesis
    using av_deserialize_serialize [of "first_addition p lc" "av_new k"] r l assms
    by (simp add: first_addition_def open_run_def il_new_def av_new_def runs_int32_def)
qed

text \<open>Whether bytes can be read does not depend on the object they are read into.\<close>

lemma il_deserialize_any: "il_deserialize raw l = Inr x \<Longrightarrow> \<exists>y. il_deserialize raw l' = Inr y"
  by (auto simp: il_deserialize_def bind_outcome_eq_Inr)

lemma av_deserialize_any:
  assumes "av_deserialize raw w = Inr x"
  shows "\<exists>y. av_deserialize raw w' = Inr y"
proof -
  obtain n offset where d: "decode_ULEB128 raw = Inr (n, offset)"
    using assms by (auto simp: av_deserialize_def bind_outcome_eq_Inr)
  have l: "\<not> length raw < offset + unat n"
    and "\<exists>y. il_deserialize (take (unat n) (drop offset raw)) (av_patches w) = Inr y"
    and "drop (offset + unat n) raw \<noteq> [] \<Longrightarrow>
      \<exists>y. il_deserialize (drop (offset + unat n) raw) (av_local_changes w) = Inr y"
    using assms by (auto simp: av_deserialize_def d Let_def bind_outcome_eq_Inr split: if_splits)
  then obtain y1 where "il_deserialize (take (unat n) (drop offset raw)) (av_patches w') = Inr y1"
    using il_deserialize_any by blast
  moreover have "drop (offset + unat n) raw \<noteq> [] \<Longrightarrow>
      \<exists>y. il_deserialize (drop (offset + unat n) raw) (av_local_changes w') = Inr y"
    using \<open>drop (offset + unat n) raw \<noteq> [] \<Longrightarrow> _\<close> il_deserialize_any by blast
  ultimately show ?thesis
    using l by (auto simp: av_deserialize_def d Let_def)
qed

section \<open>The check of append\<close>

fun any_contained ::
  "('t, 'c, 'h) kyoto \<Rightarrow> patch_element list \<Rightarrow> int \<Rightarrow> ('t, 'c, 'h) patch_tree \<Rightarrow> bool outcome" where
  "any_contained kc [] patch_id pt = Inr False"
| "any_contained kc (e # es) patch_id pt =
     bind_outcome (contains kc e patch_id True pt) (\<lambda>b. if b then Inr True else any_contained kc es patch_id pt)"

lemma contains_triple:
  "pe_triple e = pe_triple e' \<Longrightarrow> contains kc e patch_id True pt = contains kc e' patch_id True pt"
  by (simp add: contains_def contains_addition_def contains_deletion_def cong: if_cong)

lemma contains_any_vector:
  "length es < fuel \<Longrightarrow> vi_rest it = es \<Longrightarrow>
   case any_contained kc es patch_id pt of
     Inl err \<Rightarrow> contains_any kc vi_next fuel element it patch_id pt = Some (Inl err)
   | Inr b \<Rightarrow> \<exists>it'. contains_any kc vi_next fuel element it patch_id pt = Some (Inr (b, it')) \<and>
       vi_elements it' = vi_elements it"
proof (induction es arbitrary: fuel element it)
  case Nil
  then show ?case by (cases fuel) (simp_all add: vi_next_def)
next
  case (Cons e es)
  obtain n where n: "fuel = Suc n" using Cons.prems by (cases fuel) auto
  define el where "el = pe_set_addition (pe_addition e) (pe_set_triple (pe_triple e) element)"
  define it1 where "it1 = it\<lparr> vi_rest := es, vi_passed := vi_passed it + 1 \<rparr>"
  have nx: "vi_next element it = (True, el, it1)"
    using Cons.prems(2) by (simp add: vi_next_def el_def it1_def)
  have c: "contains kc el patch_id True pt = contains kc e patch_id True pt"
    by (rule contains_triple) (simp add: el_def pe_set_addition_def pe_set_triple_def)
  have ih: "case any_contained kc es patch_id pt of
     Inl err \<Rightarrow> contains_any kc vi_next n el it1 patch_id pt = Some (Inl err)
   | Inr b \<Rightarrow> \<exists>it'. contains_any kc vi_next n el it1 patch_id pt = Some (Inr (b, it')) \<and>
       vi_elements it' = vi_elements it"
  proof -
    have it1: "vi_elements it1 = vi_elements it" "vi_rest it1 = es" by (simp_all add: it1_def)
    show ?thesis using Cons.IH [of n it1 el, unfolded it1(1)] Cons.prems(1) it1(2) by (simp add: n)
  qed
  show ?case
  proof (cases "contains kc e patch_id True pt")
    case (Inl err)
    then show ?thesis using nx c by (simp add: n)
  next
    case (Inr b)
    have "vi_elements it1 = vi_elements it" by (simp add: it1_def)
    then show ?thesis using Inr nx c ih by (cases b) (simp_all add: n split: sum.splits)
  qed
qed

lemma patch_length:
  assumes "append_input kc m keys valid es pt"
  shows "length es \<le> card (triples_of kc es pt)"
proof -
  note d = append_inputD [OF assms]
  have asc: "ascending (key_compare (spo_comparator m)) (map pe_triple es)"
    and sub: "set (map pe_triple es) \<subseteq> triples_of kc es pt"
    using assms by (auto simp: append_input_def triples_of_def)
  have "length (map pe_triple es) \<le> card (triples_of kc es pt)"
    unfolding ascending_length [OF d(1) asc subset_trans [OF sub d(6)]] by (rule card_mono [OF d(5) sub])
  then show ?thesis by simp
qed

text \<open>\<open>append\<close> of a sorted patch with more fuel than triples.\<close>

lemma append_patch_result:
  assumes "append_ready kc m keys valid (ps_elements patch) pt"
    "card (triples_of kc (ps_elements patch) pt) < fuel"
  shows "append_patch kc fuel patch patch_id pt =
    (case any_contained kc (ps_elements patch) patch_id pt of
       Inl err \<Rightarrow> Some (Inl err)
     | Inr True \<Rightarrow> Some (Inr (False, pt))
     | Inr False \<Rightarrow> map_option (\<lambda>r. bind_outcome r (\<lambda>pt'. Inr (True, pt')))
         (append_unsafe kc vi_next fuel (vi_new (ps_elements patch)) patch_id pt))"
    "\<exists>r. append_unsafe kc vi_next fuel (vi_new (ps_elements patch)) patch_id pt = Some r"
proof -
  let ?es = "ps_elements patch"
  note d = append_readyD [OF assms(1)]
  obtain ts where ts: "ascending (key_compare (spo_comparator m)) ts" "set ts = triples_of kc ?es pt"
    using ascending_exists [OF d(1,5,6)] by blast
  have lt: "length ts < fuel" using ascending_length [OF d(1) ts(1)] ts(2) d(6) assms(2) by simp
  have un: "append_unsafe kc vi_next fuel it patch_id pt =
      append_unsafe kc vi_next fuel (vi_new ?es) patch_id pt" if "vi_rest it = ?es" for it
  proof (cases "pt_readonly pt")
    case False
    then show ?thesis
      using append_unsafe_visits [OF assms(1) ts lt False that] append_unsafe_visits [OF assms(1) ts lt False, of "vi_new ?es"]
      by (simp add: vi_new_def)
  qed (simp add: append_unsafe_def)
  show "\<exists>r. append_unsafe kc vi_next fuel (vi_new ?es) patch_id pt = Some r"
    using append_unsafe_visits [OF assms(1) ts lt, of "vi_new ?es" patch_id]
    by (cases "pt_readonly pt") (simp_all add: append_unsafe_def vi_new_def)
  have "length ?es < fuel" using patch_length [OF append_ready_input [OF assms(1)]] assms(2) by simp
  note c = contains_any_vector [OF this, of "vi_new ?es" kc "pe_new (mk_triple 0 0 0) True" patch_id pt]
  show "append_patch kc fuel patch patch_id pt =
    (case any_contained kc ?es patch_id pt of
       Inl err \<Rightarrow> Some (Inl err)
     | Inr True \<Rightarrow> Some (Inr (False, pt))
     | Inr False \<Rightarrow> map_option (\<lambda>r. bind_outcome r (\<lambda>pt'. Inr (True, pt')))
         (append_unsafe kc vi_next fuel (vi_new ?es) patch_id pt))"
  proof (cases "any_contained kc ?es patch_id pt")
    case (Inl err)
    then show ?thesis using c by (simp add: append_patch_def append_checked_def vi_new_def)
  next
    case (Inr b)
    then obtain it' where it': "contains_any kc vi_next fuel (pe_new (mk_triple 0 0 0) True) (vi_new ?es) patch_id pt =
        Some (Inr (b, it'))" "vi_elements it' = ?es"
      using c by (auto simp: vi_new_def)
    have "append_unsafe kc vi_next fuel (vi_go_to_start it') patch_id pt =
        append_unsafe kc vi_next fuel (vi_new ?es) patch_id pt"
      by (rule un) (simp add: vi_go_to_start_def it'(2))
    then show ?thesis
      using it'(1) Inr
      by (cases b) (auto simp: append_patch_def append_checked_def bind_outcome_def split: option.split sum.split)
  qed
qed

section \<open>An example\<close>

definition example_kc :: "(component_order \<times> (triple \<times> byte list) list, (triple_version \<times> int) list, (u64 \<times> int) list) kyoto" where
  "example_kc = \<lparr> kc_tree = ordered_tree example_manager, kc_count = list_hash, kc_position = list_hash \<rparr>"

abbreviation example_keys :: "component_order \<times> (triple \<times> byte list) list \<Rightarrow> triple list" where
  "example_keys t \<equiv> map fst (snd t)"

abbreviation example_valid :: "component_order \<Rightarrow> component_order \<times> (triple \<times> byte list) list \<Rightarrow> bool" where
  "example_valid \<equiv> ordered_tree_valid example_manager"

definition empty_tree :: "(component_order \<times> (triple \<times> byte list) list, (triple_version \<times> int) list, (u64 \<times> int) list) patch_tree" where
  "empty_tree = \<lparr> pt_store = empty_store example_manager, pt_counters = cleared_counters,
     pt_min_patch_id = 1, pt_max_patch_id = 1, pt_readonly = False \<rparr>"

text \<open>A tree with one addition, and a patch that undoes it and adds another triple.\<close>

definition example_tree :: "(component_order \<times> (triple \<times> byte list) list, (triple_version \<times> int) list, (u64 \<times> int) list) patch_tree" where
  "example_tree = empty_tree\<lparr> pt_store :=
     insert_addition_value (ordered_tree example_manager) (mk_triple 1 1 3) (first_addition 1 False) None
       (empty_store example_manager) \<rparr>"

definition example_patch :: patch_sorted where
  "example_patch = ps_new (spo_comparator example_manager)
     [pe_new (mk_triple 1 1 2) True, pe_new (mk_triple 1 1 3) False]"

lemma example_bound: "unat (dm_max_hdt_id example_manager) < 2 ^ 31"
  by (simp add: example_bounds)

lemmas example_laws = ordered_tree_laws [OF example_sorted example_bound]

lemma example_elements:
  "pe_triple ` set (ps_elements example_patch) \<subseteq> known_keys example_manager"
  "ascending (key_compare (spo_comparator example_manager)) (map pe_triple (ps_elements example_patch))"
proof -
  have "key_compare (spo_comparator example_manager) (mk_triple 1 1 2) (mk_triple 1 1 3) < 0" by code_simp
  then show "ascending (key_compare (spo_comparator example_manager)) (map pe_triple (ps_elements example_patch))"
    by (simp add: example_patch_def ps_new_def pe_new_def)
qed (simp add: example_patch_def ps_new_def pe_new_def example_known)

lemma example_tree_store:
  "ts_spo_additions (pt_store example_tree) = (SPO, [(mk_triple 1 1 3, av_serialize (first_addition 1 False))])"
  "ts_spo_deletions (pt_store example_tree) = (SPO, [])" "ts_dict (pt_store example_tree) = example_manager"
  by (simp_all add: example_tree_def insert_addition_value_def empty_store_def Let_def ordered_tree_def list_tree_def)

lemma example_ready:
  "append_ready example_kc example_manager example_keys example_valid (ps_elements example_patch) example_tree"
  "append_ready example_kc example_manager example_keys example_valid (ps_elements example_patch) empty_tree"
proof -
  have ok: "store_ok (ordered_tree example_manager) example_valid (pt_store example_tree)"
    unfolding example_tree_def
    using insert_addition_value_ok(1) [OF example_laws empty_store_ok example_known(1)] by simp
  have "av_deserialize (av_serialize (first_addition 1 False)) (av_new 0) =
      Inr ((first_addition 1 False)\<lparr> av_max_patch_id := 0 + 1 \<rparr>)"
    by (rule first_addition_read) (simp_all add: INT_MAX_def)
  then have "\<exists>v'. av_deserialize (av_serialize (first_addition 1 False)) v = Inr v'" for v
    by (rule av_deserialize_any)
  then have rd: "readable example_kc [] [mk_triple 1 1 3] (pt_store example_tree)"
    by (simp add: readable_def example_tree_store example_kc_def ordered_tree_def list_tree_def Let_def)
  show "append_ready example_kc example_manager example_keys example_valid (ps_elements example_patch) example_tree"
    using example_laws ok rd example_elements example_sorted example_bound
    by (simp add: append_ready_def append_input_def example_tree_store example_kc_def)
  show "append_ready example_kc example_manager example_keys example_valid (ps_elements example_patch) empty_tree"
    using example_laws empty_store_ok example_elements example_sorted example_bound
    by (simp add: append_ready_def append_input_def example_kc_def empty_tree_def empty_store_def readable_def)
qed

lemma example_triples:
  "triples_of example_kc (ps_elements example_patch) example_tree = {mk_triple 1 1 2, mk_triple 1 1 3}"
  "triples_of example_kc (ps_elements example_patch) empty_tree = {mk_triple 1 1 2, mk_triple 1 1 3}"
  by (auto simp: triples_of_def example_patch_def ps_new_def pe_new_def is_deleted_key_def is_added_key_def
      example_kc_def example_tree_store ordered_tree_def list_tree_def Let_def empty_tree_def empty_store_def)

text \<open>A tree whose one record is not a value.\<close>

definition unreadable_tree :: "(component_order \<times> (triple \<times> byte list) list, (triple_version \<times> int) list, (u64 \<times> int) list) patch_tree" where
  "unreadable_tree = empty_tree\<lparr> pt_store := (empty_store example_manager)
     \<lparr> ts_spo_additions := (SPO, [(mk_triple 1 1 3, [])]), ts_pos_additions := (POS, [(mk_triple 1 1 3, [])]),
        ts_osp_additions := (OSP, [(mk_triple 1 1 3, [])]) \<rparr> \<rparr>"

lemma unreadable_input:
  "append_input example_kc example_manager example_keys example_valid (ps_elements example_patch) unreadable_tree"
proof -
  have "store_ok (ordered_tree example_manager) example_valid (pt_store unreadable_tree)"
    using empty_store_ok [of example_manager] example_known
    by (simp add: unreadable_tree_def store_ok_def trees_valid_def empty_store_def ordered_tree_valid_def list_tree_valid_def
        ordered_tree_def list_tree_def)
  then show ?thesis
    using example_laws example_elements example_sorted example_bound
    by (simp add: append_input_def example_kc_def unreadable_tree_def empty_store_def)
qed

lemma unreadable_triples:
  "triples_of example_kc (ps_elements example_patch) unreadable_tree = {mk_triple 1 1 2, mk_triple 1 1 3}"
  by (auto simp: triples_of_def example_patch_def ps_new_def pe_new_def is_deleted_key_def is_added_key_def
      example_kc_def ordered_tree_def list_tree_def Let_def unreadable_tree_def empty_tree_def empty_store_def)

section \<open>The result of append_unsafe\<close>

lemma finish_store:
  "tree_get (kc_tree kc) (ts_spo_deletions (pt_store (append_finish kc p ms pt))) =
     tree_get (kc_tree kc) (ts_spo_deletions (ms_store ms))"
  "tree_get (kc_tree kc) (ts_spo_additions (pt_store (append_finish kc p ms pt))) =
     tree_get (kc_tree kc) (ts_spo_additions (ms_store ms))"
  "store_ok (kc_tree kc) valid (pt_store (append_finish kc p ms pt)) \<longleftrightarrow> store_ok (kc_tree kc) valid (ms_store ms)"
  "pt_max_patch_id (append_finish kc p ms pt) = max (pt_max_patch_id pt) p"
  "is_deleted_key kc t (pt_store (append_finish kc p ms pt)) \<longleftrightarrow> is_deleted_key kc t (ms_store ms)"
  "is_added_key kc t (pt_store (append_finish kc p ms pt)) \<longleftrightarrow> is_added_key kc t (ms_store ms)"
  by (simp_all add: append_finish_def flush_addition_counts_def store_ok_def trees_valid_def is_deleted_key_def
      is_added_key_def Let_def case_prod_unfold)

lemma append_unsafe_result:
  assumes "append_ready kc m keys valid es pt" "card (triples_of kc es pt) < fuel"
    "append_unsafe kc vi_next fuel (vi_new es) patch_id pt = Some (Inr pt')"
  shows "\<exists>ts ms. ascending (key_compare (spo_comparator m)) ts \<and> set ts = triples_of kc es pt \<and>
    visit_all kc patch_id ts es (pe_new (mk_triple 0 0 0) True) (append_data kc pt) = Inr ms \<and>
    pt' = append_finish kc patch_id ms pt"
proof -
  note d = append_readyD [OF assms(1)]
  obtain ts where ts: "ascending (key_compare (spo_comparator m)) ts" "set ts = triples_of kc es pt"
    using ascending_exists [OF d(1,5,6)] by blast
  have "length ts < fuel" using ascending_length [OF d(1) ts(1)] ts(2) d(6) assms(2) by simp
  moreover have "\<not> pt_readonly pt" using assms(3) by (auto simp: append_unsafe_def)
  ultimately show ?thesis
    using append_unsafe_visits [OF assms(1) ts, of fuel "vi_new es" patch_id] assms(3) ts
    by (auto simp: vi_new_def bind_outcome_eq_Inr)
qed

lemma first_addition_contained:
  assumes "0 \<le> p" "p < INT_MAX" "p \<le> k"
  shows "bind_outcome (av_deserialize (av_serialize (first_addition p False)) (av_new k)) (av_is_patch_id p) = Inr True"
  using il_is_in_first(1) [OF assms(2)] assms
  by (simp add: first_addition_read av_is_patch_id_def) (simp add: first_addition_def)

text \<open>A tree without records for the triples of the patch.\<close>

definition is_fresh :: "('t, 'c, 'h) kyoto \<Rightarrow> ('t, 'c, 'h) patch_tree \<Rightarrow> bool" where
  "is_fresh kc pt \<longleftrightarrow> \<not> pt_readonly pt \<and>
     (\<forall>t. \<not> is_deleted_key kc t (pt_store pt) \<and> \<not> is_added_key kc t (pt_store pt))"

lemma fresh_append:
  assumes "append_ready kc m keys valid es pt" "card (triples_of kc es pt) < fuel" "is_fresh kc pt" "patch_id < INT_MAX"
  shows "\<exists>pt'. append_unsafe kc vi_next fuel (vi_new es) patch_id pt = Some (Inr pt')"
proof -
  note d = append_readyD [OF assms(1)]
  let ?ts = "map pe_triple es"
  have t: "set ?ts = triples_of kc es pt" using assms(3) by (auto simp: triples_of_def is_fresh_def)
  have asc: "ascending (key_compare (spo_comparator m)) ?ts" using assms(1) by (simp add: append_ready_def append_input_def)
  have sub: "set ?ts \<subseteq> known_keys m" using d(6) unfolding t .
  have len: "length ?ts = card (set ?ts)" by (rule ascending_length [OF d(1) asc sub])
  then have "distinct ?ts" by (metis card_distinct)
  moreover have ok: "store_ok (kc_tree kc) valid (ms_store (append_data kc pt))"
    using assms(1) by (simp add: append_ready_def append_input_def)
  ultimately obtain ms where "visit_all kc patch_id ?ts es (pe_new (mk_triple 0 0 0) True) (append_data kc pt) = Inr ms"
    using visit_all_fresh [OF d(2) assms(4) sub _ _ ok, of es "[]"] assms(3) by (auto simp: is_fresh_def)
  then show ?thesis
    using append_unsafe_visits [OF assms(1) asc t, of fuel "vi_new es" patch_id] len t assms(2,3)
    by (simp add: vi_new_def is_fresh_def)
qed

lemma example_few:
  "card (triples_of example_kc (ps_elements example_patch) empty_tree) < 3" "pt_max_patch_id empty_tree = 1"
  "2 < INT_MAX"
  by (simp add: example_triples) (simp_all add: empty_tree_def INT_MAX_def)

lemma example_fresh: "is_fresh example_kc empty_tree"
  by (simp add: is_fresh_def is_deleted_key_def is_added_key_def example_kc_def empty_tree_def empty_store_def
      ordered_tree_def list_tree_def Let_def)

lemma fresh_contains: "is_fresh kc pt \<Longrightarrow> any_contained kc es patch_id pt = Inr False"
  by (induction es)
    (simp_all add: contains_def contains_addition_def contains_deletion_def is_fresh_def is_deleted_key_def
      is_added_key_def get_default_additions_tree_def get_default_deletions_tree_def)

lemma any_contained_decides:
  assumes "\<forall>x\<in>set us. contains kc x p True pt = Inr False"
  shows "any_contained kc (us @ vs) p pt = any_contained kc vs p pt"
  using assms by (induction us) simp_all

lemma new_triple_stored:
  assumes "append_ready kc m keys valid es pt" "card (triples_of kc es pt) < fuel"
    "append_unsafe kc vi_next fuel (vi_new es) patch_id pt = Some (Inr pt')"
    "0 \<le> patch_id" "patch_id < INT_MAX" "e \<in> set es"
    "\<not> is_deleted_key kc (pe_triple e) (pt_store pt)" "\<not> is_added_key kc (pe_triple e) (pt_store pt)"
  shows "\<exists>us vs ms. ascending (key_compare (spo_comparator m)) (us @ pe_triple e # vs) \<and>
      set (us @ pe_triple e # vs) = triples_of kc es pt \<and>
      visit_all kc patch_id us es (pe_new (mk_triple 0 0 0) True) (append_data kc pt) = Inr ms \<and>
      new_record kc patch_id e (counted_positions kc (pe_triple e) (ms_counters ms)) (pt_store pt')"
    "contains_addition kc e patch_id pt' = Inr (pe_addition e)"
proof -
  obtain ts ms where ts: "ascending (key_compare (spo_comparator m)) ts" "set ts = triples_of kc es pt"
    "visit_all kc patch_id ts es (pe_new (mk_triple 0 0 0) True) (append_data kc pt) = Inr ms"
    "pt' = append_finish kc patch_id ms pt"
    using append_unsafe_result [OF assms(1-3)] by blast
  note d = append_readyD [OF assms(1)]
  have ar: "ascending (key_compare (spo_comparator m)) (map pe_triple es)"
    "store_ok (kc_tree kc) valid (ms_store (append_data kc pt))"
    "pe_triple ` set es \<subseteq> set ts" "set ts \<subseteq> known_keys m"
    using assms(1) ts(2) d(6) by (auto simp: append_ready_def append_input_def triples_of_def)
  have "\<exists>us vs ms1. ts = us @ pe_triple e # vs \<and>
      visit_all kc patch_id us es (pe_new (mk_triple 0 0 0) True) (append_data kc pt) = Inr ms1 \<and>
      new_record kc patch_id e (counted_positions kc (pe_triple e) (ms_counters ms1)) (ms_store ms)"
    by (rule visit_all_new [OF d(2,1) assms(5) ts(1) ar(4,1,3,2) ts(3) assms(6)]) (use assms(7,8) in simp_all)
  then obtain us vs ms1 where n: "ts = us @ pe_triple e # vs"
    "visit_all kc patch_id us es (pe_new (mk_triple 0 0 0) True) (append_data kc pt) = Inr ms1"
    "new_record kc patch_id e (counted_positions kc (pe_triple e) (ms_counters ms1)) (pt_store pt')"
    unfolding ts(4) new_record_def finish_store(1,2) by blast
  then show "\<exists>us vs ms. ascending (key_compare (spo_comparator m)) (us @ pe_triple e # vs) \<and>
      set (us @ pe_triple e # vs) = triples_of kc es pt \<and>
      visit_all kc patch_id us es (pe_new (mk_triple 0 0 0) True) (append_data kc pt) = Inr ms \<and>
      new_record kc patch_id e (counted_positions kc (pe_triple e) (ms_counters ms)) (pt_store pt')"
    using ts(1,2) by blast
  show "contains_addition kc e patch_id pt' = Inr (pe_addition e)"
    using n(3) first_addition_contained [OF assms(4,5), of "pt_max_patch_id pt'"] finish_store(4) [of kc patch_id ms pt, folded ts(4)]
    by (cases "pe_addition e") (simp_all add: new_record_def contains_addition_def get_default_additions_tree_def)
qed

text \<open>In a tree without records the counters only count the deletions of the patch.\<close>

lemma fresh_stored:
  assumes "append_ready kc m keys valid es pt" "card (triples_of kc es pt) < fuel" "is_fresh kc pt"
    "append_unsafe kc vi_next fuel (vi_new es) patch_id pt = Some (Inr pt')"
    "0 \<le> patch_id" "patch_id < INT_MAX" "i < length es"
  shows "new_record kc patch_id (es ! i) (counted_positions kc (pe_triple (es ! i))
      (fold (count_element kc) (take i es) (ms_counters (append_data kc pt)))) (pt_store pt')"
proof -
  note d = append_readyD [OF assms(1)]
  have ar: "ascending (key_compare (spo_comparator m)) (map pe_triple es)"
    "store_ok (kc_tree kc) valid (ms_store (append_data kc pt))"
    using assms(1) by (simp_all add: append_ready_def append_input_def)
  have t: "set (map pe_triple es) = triples_of kc es pt" using assms(3) by (auto simp: triples_of_def is_fresh_def)
  have fresh: "\<not> is_deleted_key kc t (pt_store pt)" "\<not> is_added_key kc t (pt_store pt)" for t
    using assms(3) by (simp_all add: is_fresh_def)
  obtain us vs ms where u: "ascending (key_compare (spo_comparator m)) (us @ pe_triple (es ! i) # vs)"
    "set (us @ pe_triple (es ! i) # vs) = triples_of kc es pt"
    "visit_all kc patch_id us es (pe_new (mk_triple 0 0 0) True) (append_data kc pt) = Inr ms"
    "new_record kc patch_id (es ! i) (counted_positions kc (pe_triple (es ! i)) (ms_counters ms)) (pt_store pt')"
    using new_triple_stored(1) [OF assms(1,2,4-6) nth_mem [OF assms(7)] fresh] by blast
  have e: "map pe_triple es = us @ pe_triple (es ! i) # vs"
    by (rule ascending_unique [OF d(1) ar(1) u(1)]) (use t u(2) d(6) in auto)
  have "length (map pe_triple es) = card (set (map pe_triple es))"
    using ascending_length [OF d(1) ar(1)] t d(6) by simp
  then have dist: "distinct (map pe_triple es)" by (metis card_distinct)
  have "map pe_triple es ! i = map pe_triple es ! length us" using e assms(7) by (metis nth_append_length nth_map)
  moreover have len: "length us < length es" using arg_cong [OF e, of length] by simp
  ultimately have i: "length us = i" using dist assms(7) by (metis length_map nth_eq_iff_index_eq)
  have "distinct us" "set us \<subseteq> known_keys m" using dist d(6) u(2) unfolding e by auto
  then have "\<exists>ms'. visit_all kc patch_id us es (pe_new (mk_triple 0 0 0) True) (append_data kc pt) = Inr ms' \<and>
      ms_counters ms' = fold (count_element kc) (take (length us) es) (ms_counters (append_data kc pt))"
    by (intro visit_all_fresh [OF d(2) assms(6) _ _ e ar(2)]) (use fresh in simp_all)
  then show ?thesis using u(3,4) i by auto
qed

section \<open>Properties\<close>

text \<open>C28: The merge of \<open>append_unsafe\<close> is a sequence of visits: with more fuel than triples, its result is
  that of visiting every triple of the patch and of the two SPO trees once, in SPO order, each visit
  reading the triple's own records and taking the branch for where the triple is. In particular the records
  the loop writes while its cursors are under way are never read again by it.\<close>

theorem append_is_visits:
  assumes "append_ready kc m keys valid (ps_elements patch) pt" "\<not> pt_readonly pt"
    "ascending (key_compare (spo_comparator m)) ts" "set ts = triples_of kc (ps_elements patch) pt" "length ts < fuel"
  shows "append_unsafe kc vi_next fuel (vi_new (ps_elements patch)) patch_id pt =
    Some (bind_outcome
      (visit_all kc patch_id ts (ps_elements patch) (pe_new (mk_triple 0 0 0) True) (append_data kc pt))
      (\<lambda>ms. Inr (append_finish kc patch_id ms pt)))"
  by (rule append_unsafe_visits [OF assms(1,3-5,2)]) (simp add: vi_new_def)

theorem append_is_visits_witness:
  "append_unsafe example_kc vi_next 3 (vi_new (ps_elements example_patch)) 2 example_tree =
    Some (bind_outcome
      (visit_all example_kc 2 [mk_triple 1 1 2, mk_triple 1 1 3] (ps_elements example_patch)
        (pe_new (mk_triple 0 0 0) True) (append_data example_kc example_tree))
      (\<lambda>ms. Inr (append_finish example_kc 2 ms example_tree)))"
  by (rule append_is_visits [OF example_ready(1)])
    (use example_elements(2) example_triples in
      \<open>simp_all add: example_tree_def empty_tree_def example_patch_def ps_new_def pe_new_def\<close>)

text \<open>C29: \<open>append\<close> of a sorted patch returns: the check loop and the merge loop both end within one round more
  than there are triples in the patch and the two trees, whether or not the records of the trees can be read
  and whether or not a round fails.\<close>

theorem append_terminates:
  assumes "append_input kc m keys valid (ps_elements patch) pt" "card (triples_of kc (ps_elements patch) pt) < fuel"
  shows "append_patch kc fuel patch patch_id pt \<noteq> None"
proof -
  let ?es = "ps_elements patch"
  have "length ?es < fuel" using patch_length [OF assms(1)] assms(2) by simp
  note c = contains_any_vector [OF this, of "vi_new ?es" kc "pe_new (mk_triple 0 0 0) True" patch_id pt]
  note e = append_unsafe_ends [OF assms]
  show ?thesis
  proof (cases "any_contained kc ?es patch_id pt")
    case (Inl err)
    then show ?thesis using c by (simp add: append_patch_def append_checked_def vi_new_def)
  next
    case (Inr b)
    then obtain it' where it': "contains_any kc vi_next fuel (pe_new (mk_triple 0 0 0) True) (vi_new ?es) patch_id pt =
        Some (Inr (b, it'))" "vi_elements it' = ?es"
      using c by (auto simp: vi_new_def)
    obtain r where "append_unsafe kc vi_next fuel (vi_go_to_start it') patch_id pt = Some r"
      using e [of "vi_go_to_start it'"] it'(2) by (auto simp: vi_go_to_start_def)
    then show ?thesis using it'(1) by (cases b; cases r) (simp_all add: append_patch_def append_checked_def)
  qed
qed

theorem append_terminates_witness: "append_patch example_kc 3 example_patch 2 unreadable_tree \<noteq> None"
  by (rule append_terminates [OF unreadable_input]) (simp add: unreadable_triples)

text \<open>C30: \<open>append_unsafe\<close> keeps the store consistent: the three addition trees still hold the same records and
  the POS and OSP deletion trees the reduced values of the SPO deletion tree; no record disappears, a triple
  that is neither in the patch nor in a tree gets none, and the largest version is the larger of the old one
  and the appended one.\<close>

theorem append_keeps_store:
  assumes "append_ready kc m keys valid (ps_elements patch) pt" "card (triples_of kc (ps_elements patch) pt) < fuel"
    "append_unsafe kc vi_next fuel (vi_new (ps_elements patch)) patch_id pt = Some (Inr pt')"
  shows "store_ok (kc_tree kc) valid (pt_store pt') \<and> pt_max_patch_id pt' = max (pt_max_patch_id pt) patch_id \<and>
    (\<forall>t. (is_deleted_key kc t (pt_store pt) \<longrightarrow> is_deleted_key kc t (pt_store pt')) \<and>
      (is_added_key kc t (pt_store pt) \<longrightarrow> is_added_key kc t (pt_store pt')) \<and>
      (t \<notin> triples_of kc (ps_elements patch) pt \<longrightarrow>
         \<not> is_deleted_key kc t (pt_store pt') \<and> \<not> is_added_key kc t (pt_store pt')))"
proof -
  obtain ts ms where ts: "set ts = triples_of kc (ps_elements patch) pt"
    "visit_all kc patch_id ts (ps_elements patch) (pe_new (mk_triple 0 0 0) True) (append_data kc pt) = Inr ms"
    "pt' = append_finish kc patch_id ms pt"
    using append_unsafe_result [OF assms] by blast
  have sub: "set ts \<subseteq> known_keys m" using append_readyD(6) [OF assms(1)] ts(1) by simp
  have ok: "store_ok (kc_tree kc) valid (ms_store (append_data kc pt))" using assms(1) by (simp add: append_ready_def append_input_def)
  note st = visit_all_stores [OF append_readyD(2) [OF assms(1)] sub ok ts(2)]
  have "\<not> is_deleted_key kc t (ms_store ms) \<and> \<not> is_added_key kc t (ms_store ms)"
    if "t \<notin> triples_of kc (ps_elements patch) pt" for t
    using st(2) [of t] that ts(1) by (auto simp: triples_of_def is_deleted_key_def is_added_key_def)
  then show ?thesis
    using st(1,3,4) finish_store [where kc = kc and p = patch_id and ms = ms and pt = pt, folded ts(3)] by simp
qed

theorem append_keeps_store_witness:
  "\<exists>pt'. append_unsafe example_kc vi_next 3 (vi_new (ps_elements example_patch)) 2 empty_tree = Some (Inr pt') \<and>
     store_ok (kc_tree example_kc) example_valid (pt_store pt') \<and> pt_max_patch_id pt' = 2"
proof -
  obtain pt' where p: "append_unsafe example_kc vi_next 3 (vi_new (ps_elements example_patch)) 2 empty_tree = Some (Inr pt')"
    using fresh_append [OF example_ready(2) example_few(1) example_fresh example_few(3)] by blast
  show ?thesis
    using append_keeps_store [OF example_ready(2) example_few(1) p] p example_few(2) by simp
qed

text \<open>C31: A triple of the patch that neither tree holds gets its first value: after a successful
  \<open>append_unsafe\<close> of a sorted patch to a consistent store with readable records, an added triple has the record with the one open version in the addition trees and none in
  the deletion trees, and \<open>contains_addition\<close> finds it in the appended version; a deleted triple has the record
  with the one open version in the SPO deletion tree, with the positions that \<open>Patch::positions\<close> gives it from
  the counters as the visits of the smaller triples leave them, and none in the addition trees.\<close>

theorem append_stores_new_triples:
  assumes "append_ready kc m keys valid (ps_elements patch) pt" "card (triples_of kc (ps_elements patch) pt) < fuel"
    "append_unsafe kc vi_next fuel (vi_new (ps_elements patch)) patch_id pt = Some (Inr pt')"
    "0 \<le> patch_id" "patch_id < INT_MAX" "e \<in> set (ps_elements patch)"
    "\<not> is_deleted_key kc (pe_triple e) (pt_store pt)" "\<not> is_added_key kc (pe_triple e) (pt_store pt)"
  shows "(\<exists>us vs ms. ascending (key_compare (spo_comparator m)) (us @ pe_triple e # vs) \<and>
      set (us @ pe_triple e # vs) = triples_of kc (ps_elements patch) pt \<and>
      visit_all kc patch_id us (ps_elements patch) (pe_new (mk_triple 0 0 0) True) (append_data kc pt) = Inr ms \<and>
      new_record kc patch_id e (fst (positions (kc_position kc) (pe_triple e) (ms_counters ms))) (pt_store pt')) \<and>
    contains_addition kc e patch_id pt' = Inr (pe_addition e)"
  using new_triple_stored [OF assms] unfolding counted_positions_def by blast

theorem append_stores_new_triples_witness:
  "\<exists>pt'. append_unsafe example_kc vi_next 3 (vi_new (ps_elements example_patch)) 2 empty_tree = Some (Inr pt') \<and>
     contains_addition example_kc (pe_new (mk_triple 1 1 2) True) 2 pt' = Inr True"
proof -
  obtain pt' where p: "append_unsafe example_kc vi_next 3 (vi_new (ps_elements example_patch)) 2 empty_tree = Some (Inr pt')"
    using fresh_append [OF example_ready(2) example_few(1) example_fresh example_few(3)] by blast
  have "pe_new (mk_triple 1 1 2) True \<in> set (ps_elements example_patch)"
    by (simp add: example_patch_def ps_new_def)
  then show ?thesis
    using append_stores_new_triples [OF example_ready(2) example_few(1) p _ example_few(3)] p example_fresh
    by (simp add: is_fresh_def pe_new_def)
qed

text \<open>C32: The first version is stored: appending a sorted patch to a writable tree without records succeeds,
  reports that the patch was added, and every addition of the patch is then found in the version; every
  deletion has the positions that counting the deletions before it in the patch gives it.\<close>

theorem first_append_succeeds:
  assumes "append_ready kc m keys valid (ps_elements patch) pt" "card (triples_of kc (ps_elements patch) pt) < fuel"
    "is_fresh kc pt" "0 \<le> patch_id" "patch_id < INT_MAX"
  shows "\<exists>pt'. append_patch kc fuel patch patch_id pt = Some (Inr (True, pt')) \<and>
    (\<forall>i < length (ps_elements patch).
       new_record kc patch_id (ps_elements patch ! i)
         (fst (positions (kc_position kc) (pe_triple (ps_elements patch ! i))
            (fold (count_element kc) (take i (ps_elements patch)) (ms_counters (append_data kc pt))))) (pt_store pt') \<and>
       contains_addition kc (ps_elements patch ! i) patch_id pt' = Inr (pe_addition (ps_elements patch ! i)))"
proof -
  obtain pt' where p: "append_unsafe kc vi_next fuel (vi_new (ps_elements patch)) patch_id pt = Some (Inr pt')"
    using fresh_append [OF assms(1-3,5)] by blast
  have "append_patch kc fuel patch patch_id pt = Some (Inr (True, pt'))"
    using append_patch_result(1) [OF assms(1,2)] p fresh_contains [OF assms(3)] by simp
  moreover have "contains_addition kc (ps_elements patch ! i) patch_id pt' = Inr (pe_addition (ps_elements patch ! i))"
    if "i < length (ps_elements patch)" for i
    using new_triple_stored(2) [OF assms(1,2) p assms(4,5) nth_mem [OF that]] assms(3) by (simp add: is_fresh_def)
  ultimately show ?thesis
    using fresh_stored [OF assms(1-3) p assms(4,5)] unfolding counted_positions_def by blast
qed

theorem first_append_succeeds_witness:
  "\<exists>pt'. append_patch example_kc 3 example_patch 2 empty_tree = Some (Inr (True, pt')) \<and>
     contains_addition example_kc (pe_new (mk_triple 1 1 3) False) 2 pt' = Inr False"
proof -
  have e: "length (ps_elements example_patch) = 2" "ps_elements example_patch ! 1 = pe_new (mk_triple 1 1 3) False"
    by (simp_all add: example_patch_def ps_new_def)
  obtain pt' where "append_patch example_kc 3 example_patch 2 empty_tree = Some (Inr (True, pt'))"
    "contains_addition example_kc (ps_elements example_patch ! 1) 2 pt' = Inr (pe_addition (ps_elements example_patch ! 1))"
    using first_append_succeeds [OF example_ready(2) example_few(1) example_fresh _ example_few(3)] e(1) by fastforce
  then show ?thesis using e(2) by (auto simp: pe_new_def)
qed

text \<open>C33: For a sorted patch and a consistent store with readable records, the check of \<open>append\<close> goes through
  the patch in order: at the first element for which the tree does not
  deny that the version has it already, as an addition or as a deletion, \<open>append\<close> returns false and changes
  nothing when the answer is yes, and ends with the error when the look-up has one (an addition that is only
  made in a later version, for which \<open>is_in\<close> is undefined). When all look-ups deny it, a read-only tree is an
  \<open>invalid_argument\<close> exception, and on a writable one \<open>append_unsafe\<close> decides.\<close>

theorem append_refuses:
  assumes "append_ready kc m keys valid (ps_elements patch) pt" "card (triples_of kc (ps_elements patch) pt) < fuel"
  shows "(\<forall>us e vs. ps_elements patch = us @ e # vs \<and> (\<forall>x\<in>set us. contains kc x patch_id True pt = Inr False) \<longrightarrow>
      (contains kc e patch_id True pt = Inr True \<longrightarrow> append_patch kc fuel patch patch_id pt = Some (Inr (False, pt))) \<and>
      (\<forall>err. contains kc e patch_id True pt = Inl err \<longrightarrow> append_patch kc fuel patch patch_id pt = Some (Inl err))) \<and>
    ((\<forall>e\<in>set (ps_elements patch). contains kc e patch_id True pt = Inr False) \<longrightarrow>
      append_patch kc fuel patch patch_id pt =
        (if pt_readonly pt then Some (Inl Invalid_argument)
         else map_option (\<lambda>r. bind_outcome r (\<lambda>pt'. Inr (True, pt')))
           (append_unsafe kc vi_next fuel (vi_new (ps_elements patch)) patch_id pt)))"
proof (intro conjI allI impI; (elim conjE)?)
  note r = append_patch_result(1) [OF assms, of patch_id]
  fix us e vs
  assume e: "ps_elements patch = us @ e # vs" "\<forall>x\<in>set us. contains kc x patch_id True pt = Inr False"
  note c = any_contained_decides [OF e(2), of "e # vs", folded e(1)]
  show "contains kc e patch_id True pt = Inr True \<Longrightarrow> append_patch kc fuel patch patch_id pt = Some (Inr (False, pt))"
    using r c by simp
  show "contains kc e patch_id True pt = Inl err \<Longrightarrow> append_patch kc fuel patch patch_id pt = Some (Inl err)" for err
    using r c by simp
next
  assume "\<forall>e\<in>set (ps_elements patch). contains kc e patch_id True pt = Inr False"
  from any_contained_decides [OF this, of "[]"] show "append_patch kc fuel patch patch_id pt =
        (if pt_readonly pt then Some (Inl Invalid_argument)
         else map_option (\<lambda>r. bind_outcome r (\<lambda>pt'. Inr (True, pt')))
           (append_unsafe kc vi_next fuel (vi_new (ps_elements patch)) patch_id pt))"
    using append_patch_result(1) [OF assms, of patch_id] by (simp add: append_unsafe_def)
qed

theorem append_refuses_witness:
  "append_patch example_kc 3 example_patch 1 example_tree = Some (Inr (False, example_tree))"
proof -
  have c: "contains example_kc (pe_new (mk_triple 1 1 2) True) 1 True example_tree = Inr False"
    "contains example_kc (pe_new (mk_triple 1 1 3) False) 1 True example_tree = Inr True"
    using first_addition_contained [of 1 1]
    by (simp_all add: contains_def contains_addition_def contains_deletion_def get_default_additions_tree_def
        get_default_deletions_tree_def example_tree_store example_kc_def ordered_tree_def list_tree_def Let_def
        pe_new_def INT_MAX_def) (simp add: example_tree_def empty_tree_def)
  have "card (triples_of example_kc (ps_elements example_patch) example_tree) < 3" by (simp add: example_triples)
  from append_refuses [OF example_ready(1) this, of 1, THEN conjunct1, rule_format,
      of "[pe_new (mk_triple 1 1 2) True]" "pe_new (mk_triple 1 1 3) False" "[]"]
  show ?thesis using c by (simp add: example_patch_def ps_new_def)
qed

end
