(* ===== verification/Iterator_Source.thy ===== *)
theory Iterator_Source
  imports Patch "HOL-Library.Product_Lexorder"
begin

text \<open>
  The iterators of \<open>controller/\<close> share an interface, \<open>bool next(T* element)\<close>: it fills in the next element
  and tells whether there was one. The locale \<open>iterator_source\<close> states what a client may rely on, over the
  list of the elements still to come; the iterators that combine two others are sources again. Here are also
  the loops every iterator class inherits, and the merge of two sorted lists the combining iterators perform.
\<close>

section \<open>Loops over an iterator\<close>

type_synonym ('d, 's) next_fun = "'d \<Rightarrow> 's \<Rightarrow> (bool \<times> 'd \<times> 's) outcome"

text \<open>\<open>get_count\<close>, with the number of calls as fuel.\<close>

fun get_count_loop :: "('d, 's) next_fun \<Rightarrow> nat \<Rightarrow> 'd \<Rightarrow> 's \<Rightarrow> nat \<Rightarrow> (nat \<times> 's) outcome" where
  "get_count_loop nxt 0 td it count = Inl Diverges"
| "get_count_loop nxt (Suc fuel) td it count =
     bind_outcome (nxt td it) (\<lambda>(b, td, it).
       if b then get_count_loop nxt fuel td it (count + 1) else Inr (count, it))"

text \<open>\<open>offset\<close>: at most so many calls.\<close>

fun offset_loop :: "('d, 's) next_fun \<Rightarrow> nat \<Rightarrow> 'd \<Rightarrow> 's \<Rightarrow> 's outcome" where
  "offset_loop nxt 0 td it = Inr it"
| "offset_loop nxt (Suc offset) td it =
     bind_outcome (nxt td it) (\<lambda>(b, td, it). if b then offset_loop nxt offset td it else Inr it)"

text \<open>All remaining elements.\<close>

fun drain :: "('d, 's) next_fun \<Rightarrow> nat \<Rightarrow> 'd \<Rightarrow> 's \<Rightarrow> 'd list outcome" where
  "drain nxt 0 td it = Inl Diverges"
| "drain nxt (Suc fuel) td it =
     bind_outcome (nxt td it) (\<lambda>(b, x, it).
       if b then bind_outcome (drain nxt fuel td it) (\<lambda>xs. Inr (x # xs)) else Inr [])"

section \<open>The interface\<close>

text \<open>An element read ahead, when there is one, and what comes after it.\<close>

definition pending :: "bool \<Rightarrow> 'd \<Rightarrow> 'd list \<Rightarrow> 'd list" where
  "pending status x xs = (if status then x # xs else [])"

lemma pending_simps [simp]: "pending True x xs = x # xs" "pending False x xs = []"
  by (simp_all add: pending_def)

locale iterator_source =
  fixes nxt :: "('d, 's) next_fun" and ok :: "'s \<Rightarrow> bool" and rest :: "'s \<Rightarrow> 'd list"
  assumes next_end: "ok s \<Longrightarrow> rest s = [] \<Longrightarrow> \<exists>d' s'. nxt d s = Inr (False, d', s') \<and> ok s' \<and> rest s' = []"
    and next_element: "ok s \<Longrightarrow> rest s = x # xs \<Longrightarrow> \<exists>s'. nxt d s = Inr (True, x, s') \<and> ok s' \<and> rest s' = xs"
begin

lemma next_pending:
  assumes "ok s"
  obtains b d' s' where "nxt d s = Inr (b, d', s')" "ok s'" "rest s = pending b d' (rest s')" "\<not> b \<longrightarrow> rest s' = []"
  using next_end [OF assms] next_element [OF assms]
  by (cases "rest s") (metis pending_simps)+

lemma offset_drops:
  "ok s \<Longrightarrow> \<exists>s'. offset_loop nxt n d s = Inr s' \<and> ok s' \<and> rest s' = drop n (rest s)"
proof (induction n arbitrary: d s)
  case (Suc n)
  obtain b d' s' where 1: "nxt d s = Inr (b, d', s')" "ok s'" "rest s = pending b d' (rest s')" "\<not> b \<longrightarrow> rest s' = []"
    by (rule next_pending [OF Suc.prems])
  then show ?case using Suc.IH [OF 1(2), of d'] by (cases b) auto
qed simp

lemma get_count_length:
  "ok s \<Longrightarrow> length (rest s) < fuel \<Longrightarrow> \<exists>s'. get_count_loop nxt fuel d s n = Inr (n + length (rest s), s')"
proof (induction fuel arbitrary: d s n)
  case (Suc fuel)
  obtain b d' s' where 1: "nxt d s = Inr (b, d', s')" "ok s'" "rest s = pending b d' (rest s')"
    by (rule next_pending [OF Suc.prems(1)])
  then show ?case using Suc.IH [OF 1(2), of d' "n + 1"] Suc.prems(2) by (cases b) auto
qed simp

lemma drain_rest: "ok s \<Longrightarrow> length (rest s) < fuel \<Longrightarrow> drain nxt fuel d s = Inr (rest s)"
proof (induction fuel arbitrary: s)
  case (Suc fuel)
  obtain b d' s' where 1: "nxt d s = Inr (b, d', s')" "ok s'" "rest s = pending b d' (rest s')"
    by (rule next_pending [OF Suc.prems(1)])
  then show ?case using Suc.IH [OF 1(2)] Suc.prems(2) by (cases b) auto
qed simp

end

section \<open>Merging sorted lists\<close>

text \<open>The elements of one list only become \<open>f x\<close> or \<open>g y\<close>; of two elements that compare equal comes \<open>h x y\<close>,
  or nothing.\<close>

fun merge_lists ::
  "('a \<Rightarrow> 'b \<Rightarrow> int) \<Rightarrow> ('a \<Rightarrow> 'c) \<Rightarrow> ('b \<Rightarrow> 'c) \<Rightarrow> ('a \<Rightarrow> 'b \<Rightarrow> 'c option) \<Rightarrow> 'a list \<Rightarrow> 'b list \<Rightarrow> 'c list" where
  "merge_lists cmp f g h [] ys = map g ys"
| "merge_lists cmp f g h (x # xs) [] = map f (x # xs)"
| "merge_lists cmp f g h (x # xs) (y # ys) =
     (if cmp x y = 0
      then (case h x y of None \<Rightarrow> merge_lists cmp f g h xs ys | Some c \<Rightarrow> c # merge_lists cmp f g h xs ys)
      else if cmp x y < 0 then f x # merge_lists cmp f g h xs (y # ys)
      else g y # merge_lists cmp f g h (x # xs) ys)"

lemma merge_lists_Nil2 [simp]: "merge_lists cmp f g h xs [] = map f xs"
  by (cases xs) simp_all

lemma merge_lists_length: "length (merge_lists cmp f g h xs ys) \<le> length xs + length ys"
  by (induction cmp f g h xs ys rule: merge_lists.induct) (auto split: option.splits)

lemma merge_lists_all:
  "(\<And>x. P (f x)) \<Longrightarrow> (\<And>y. P (g y)) \<Longrightarrow> (\<And>x y c. h x y = Some c \<Longrightarrow> P c) \<Longrightarrow>
   c \<in> set (merge_lists cmp f g h xs ys) \<Longrightarrow> P c"
  by (induction cmp f g h xs ys rule: merge_lists.induct) (auto split: if_splits option.splits)

text \<open>A comparison that agrees with keys from an order.\<close>

definition agrees :: "('a \<Rightarrow> 'b \<Rightarrow> int) \<Rightarrow> ('a \<Rightarrow> 'k::linorder) \<Rightarrow> ('b \<Rightarrow> 'k) \<Rightarrow> 'a set \<Rightarrow> 'b set \<Rightarrow> bool" where
  "agrees cmp kx ky X Y \<longleftrightarrow>
     (\<forall>x\<in>X. \<forall>y\<in>Y. (cmp x y = 0 \<longleftrightarrow> kx x = ky y) \<and> (cmp x y < 0 \<longleftrightarrow> kx x < ky y))"

lemma agreesD:
  "agrees cmp kx ky X Y \<Longrightarrow> x \<in> X \<Longrightarrow> y \<in> Y \<Longrightarrow> cmp x y = 0 \<longleftrightarrow> kx x = ky y"
  "agrees cmp kx ky X Y \<Longrightarrow> x \<in> X \<Longrightarrow> y \<in> Y \<Longrightarrow> cmp x y < 0 \<longleftrightarrow> kx x < ky y"
  by (auto simp: agrees_def)

lemma agrees_mono: "agrees cmp kx ky X Y \<Longrightarrow> X' \<subseteq> X \<Longrightarrow> Y' \<subseteq> Y \<Longrightarrow> agrees cmp kx ky X' Y'"
  by (auto simp: agrees_def)

abbreviation ascending :: "('a \<Rightarrow> 'k::linorder) \<Rightarrow> 'a list \<Rightarrow> bool" where
  "ascending k xs \<equiv> sorted_wrt (\<lambda>a b. k a < k b) xs"

lemma set_merge_lists:
  assumes "agrees cmp kx ky (set xs) (set ys)" "ascending kx xs" "ascending ky ys"
  shows "set (merge_lists cmp f g h xs ys) =
    f ` {x \<in> set xs. kx x \<notin> ky ` set ys} \<union> g ` {y \<in> set ys. ky y \<notin> kx ` set xs} \<union>
    {c. \<exists>x\<in>set xs. \<exists>y\<in>set ys. kx x = ky y \<and> h x y = Some c}"
  using assms
proof (induction cmp f g h xs ys rule: merge_lists.induct)
  case (3 cmp f g h x xs y ys)
  note cxy = agreesD [OF "3.prems"(1), of x y, simplified]
  have m: "agrees cmp kx ky (set xs) (set ys)" "agrees cmp kx ky (set xs) (set (y # ys))"
    "agrees cmp kx ky (set (x # xs)) (set ys)"
    by (rule agrees_mono [OF "3.prems"(1)]; auto)+
  have s: "ascending kx xs" "ascending ky ys" "\<And>a. a \<in> set xs \<Longrightarrow> kx x < kx a" "\<And>b. b \<in> set ys \<Longrightarrow> ky y < ky b"
    using "3.prems"(2,3) by auto
  consider (eq) "kx x = ky y" | (lt) "kx x < ky y" | (gt) "ky y < kx x" by (rule linorder_cases)
  then show ?case
  proof cases
    case eq
    then have n: "kx x \<notin> ky ` set ys" "ky y \<notin> kx ` set xs" using s by fastforce+
    have ih: "set (merge_lists cmp f g h xs ys) = f ` {x \<in> set xs. kx x \<notin> ky ` set ys} \<union>
        g ` {y \<in> set ys. ky y \<notin> kx ` set xs} \<union> {c. \<exists>x\<in>set xs. \<exists>y\<in>set ys. kx x = ky y \<and> h x y = Some c}"
      using eq cxy(1) "3.IH"(1) [OF _ _ m(1) s(1,2)] "3.IH"(2) [OF _ _ m(1) s(1,2)] by (cases "h x y") auto
    have a: "{a \<in> set (x # xs). kx a \<notin> ky ` set (y # ys)} = {a \<in> set xs. kx a \<notin> ky ` set ys}"
      "{b \<in> set (y # ys). ky b \<notin> kx ` set (x # xs)} = {b \<in> set ys. ky b \<notin> kx ` set xs}"
      using eq s(3,4) by fastforce+
    have "{c. \<exists>a\<in>set (x # xs). \<exists>b\<in>set (y # ys). kx a = ky b \<and> h a b = Some c} =
        set_option (h x y) \<union> {c. \<exists>a\<in>set xs. \<exists>b\<in>set ys. kx a = ky b \<and> h a b = Some c}"
      using eq n by (auto simp: image_iff)
    then show ?thesis using eq cxy(1) by (simp only: a) (auto simp: ih split: option.split)
  next
    case lt
    then have n: "kx x \<notin> ky ` set (y # ys)" using s(4) by fastforce
    have a: "{a \<in> set (x # xs). kx a \<notin> ky ` set (y # ys)} = insert x {a \<in> set xs. kx a \<notin> ky ` set (y # ys)}"
      "{b \<in> set (y # ys). ky b \<notin> kx ` set (x # xs)} = {b \<in> set (y # ys). ky b \<notin> kx ` set xs}"
      "{c. \<exists>a\<in>set (x # xs). \<exists>b\<in>set (y # ys). kx a = ky b \<and> h a b = Some c} =
       {c. \<exists>a\<in>set xs. \<exists>b\<in>set (y # ys). kx a = ky b \<and> h a b = Some c}"
      using n by (auto simp: image_iff)
    have "cmp x y \<noteq> 0" "cmp x y < 0" using lt cxy by auto
    then show ?thesis
      unfolding a by (simp add: "3.IH"(3) [OF _ _ m(2) s(1) "3.prems"(3)] Un_assoc)
  next
    case gt
    then have n: "ky y \<notin> kx ` set (x # xs)" using s(3) by fastforce
    have a: "{b \<in> set (y # ys). ky b \<notin> kx ` set (x # xs)} = insert y {b \<in> set ys. ky b \<notin> kx ` set (x # xs)}"
      "{a \<in> set (x # xs). kx a \<notin> ky ` set (y # ys)} = {a \<in> set (x # xs). kx a \<notin> ky ` set ys}"
      "{c. \<exists>a\<in>set (x # xs). \<exists>b\<in>set (y # ys). kx a = ky b \<and> h a b = Some c} =
       {c. \<exists>a\<in>set (x # xs). \<exists>b\<in>set ys. kx a = ky b \<and> h a b = Some c}"
      using n by (auto simp: image_iff)
    have "cmp x y \<noteq> 0" "\<not> cmp x y < 0" using gt cxy by auto
    then show ?thesis
      unfolding a by (simp add: "3.IH"(4) [OF _ _ m(3) "3.prems"(2) s(2)])
  qed
qed auto

lemma ascending_merge_lists:
  assumes "agrees cmp kx ky (set xs) (set ys)" "ascending kx xs" "ascending ky ys"
    and k: "\<And>x. kc (f x) = kx x" "\<And>y. kc (g y) = ky y" "\<And>x y c. kx x = ky y \<Longrightarrow> h x y = Some c \<Longrightarrow> kc c = ky y"
  shows "ascending kc (merge_lists cmp f g h xs ys)"
  using assms(1-3) k
proof (induction cmp f g h xs ys rule: merge_lists.induct)
  case (1 cmp f g h ys)
  then show ?case by (simp add: sorted_wrt_map)
next
  case (2 cmp f g h x xs)
  then show ?case by (simp add: sorted_wrt_map)
next
  case (3 cmp f g h x xs y ys)
  note cxy = agreesD [OF "3.prems"(1), of x y, simplified]
  have m: "agrees cmp kx ky (set xs) (set ys)" "agrees cmp kx ky (set xs) (set (y # ys))"
    "agrees cmp kx ky (set (x # xs)) (set ys)"
    by (rule agrees_mono [OF "3.prems"(1)]; auto)+
  have s: "ascending kx xs" "ascending ky ys" "\<And>a. a \<in> set xs \<Longrightarrow> kx x < kx a" "\<And>b. b \<in> set ys \<Longrightarrow> ky y < ky b"
    using "3.prems"(2,3) by auto
  note k = "3.prems"(4-6)
  consider (eq) "kx x = ky y" | (lt) "kx x < ky y" | (gt) "ky y < kx x" by (rule linorder_cases)
  then show ?case
  proof cases
    case eq
    have ih: "ascending kc (merge_lists cmp f g h xs ys)"
      using eq cxy(1) "3.IH"(1) [OF _ _ m(1) s(1,2) k] "3.IH"(2) [OF _ _ m(1) s(1,2) k] by (cases "h x y") auto
    have "ky y < kc z" if "z \<in> set (merge_lists cmp f g h xs ys)" for z
      using that s(3,4) k eq unfolding set_merge_lists [OF m(1) s(1,2)] by fastforce
    then show ?thesis using eq cxy(1) ih k(3) [OF eq] by (auto split: option.split)
  next
    case lt
    have "kx x < kc z" if "z \<in> set (merge_lists cmp f g h xs (y # ys))" for z
      using that s(3,4) k lt unfolding set_merge_lists [OF m(2) s(1) "3.prems"(3)] by fastforce
    moreover have "cmp x y \<noteq> 0" "cmp x y < 0" using lt cxy by auto
    ultimately show ?thesis by (simp add: k(1) "3.IH"(3) [OF _ _ m(2) s(1) "3.prems"(3) k])
  next
    case gt
    have "ky y < kc z" if "z \<in> set (merge_lists cmp f g h (x # xs) ys)" for z
      using that s(3,4) k gt unfolding set_merge_lists [OF m(3) "3.prems"(2) s(2)] by fastforce
    moreover have "cmp x y \<noteq> 0" "\<not> cmp x y < 0" using gt cxy by auto
    ultimately show ?thesis by (simp add: k(2) "3.IH"(4) [OF _ _ m(3) "3.prems"(2) s(2) k])
  qed
qed

text \<open>\<open>std::sort\<close> of elements with different keys, by a comparison that agrees with the keys.\<close>

lemma ascending_insort_less:
  assumes "\<forall>y\<in>set ys. (lt y x \<longleftrightarrow> k y < k x) \<and> k y \<noteq> (k x :: 'k::linorder)" "ascending k ys"
  shows "ascending k (insort_less lt x ys)"
  using assms by (induction lt x ys rule: insort_less.induct) (fastforce simp: set_insort_less)+

lemma std_sort_ascending:
  assumes "\<And>x y. x \<in> set xs \<Longrightarrow> y \<in> set xs \<Longrightarrow> lt x y \<longleftrightarrow> k x < (k y :: 'k::linorder)"
    "inj_on k (set xs)" "distinct xs"
  shows "ascending k (std_sort lt xs)" "set (std_sort lt xs) = set xs"
proof -
  have "ascending k (std_sort lt xs) \<and> set (std_sort lt xs) = set xs"
    using assms
  proof (induction xs)
    case (Cons x xs)
    have ih: "ascending k (std_sort lt xs)" "set (std_sort lt xs) = set xs"
      using Cons by (auto simp: inj_on_def)
    have "ascending k (insort_less lt x (std_sort lt xs))"
      using Cons.prems by (intro ascending_insort_less) (auto simp: ih inj_on_def)
    then show ?case using ih(2) by (simp add: std_sort_def)
  qed (simp add: std_sort_def)
  then show "ascending k (std_sort lt xs)" "set (std_sort lt xs) = set xs" by simp_all
qed

end
