(* ===== verification/Patch_Tree_Iterator.thy ===== *)
theory Patch_Tree_Iterator
  imports Patch_Tree
begin

text \<open>
  \<open>PatchTreeIteratorBase\<close> of \<open>patch/patch_tree_iterator.{h,cc}\<close> and the iterators built on it
  (\<open>patch/positioned_triple_iterator.{h,cc}\<close>, \<open>patch/triple_iterator.{h,cc}\<close>). \<open>hp\<close> tells whether the deletion
  values have positions: \<open>True\<close> for \<open>PatchTreeIterator\<close>, \<open>False\<close> for \<open>PatchTreeIteratorReduced\<close>. The loops take
  fuel and are \<open>Diverges\<close> without it; with more fuel than the cursors have records left they return.
\<close>

section \<open>The iterator\<close>

text \<open>A cursor with the tree it is over; \<open>None\<close> is \<open>nullptr\<close>.\<close>

record 't patch_tree_iterator =
  it_deletions :: "('t \<times> cursor) option"
  it_additions :: "('t \<times> cursor) option"
  it_comparator :: key_comparator
  it_is_patch_id_filter :: bool
  it_is_patch_id_filter_exact :: bool
  it_patch_id_filter :: int
  it_is_triple_pattern_filter :: bool
  it_triple_pattern_filter :: triple
  it_is_filter_local_changes :: bool
  it_reverse :: bool
  it_has_temp_key_deletion :: bool
  it_has_temp_key_addition :: bool
  it_temp_key_deletion :: triple
  it_temp_key_addition :: triple
  it_can_early_break :: bool
  it_squash_equal :: bool

definition it_new :: "('t \<times> cursor) option \<Rightarrow> ('t \<times> cursor) option \<Rightarrow> key_comparator \<Rightarrow> 't patch_tree_iterator" where
  "it_new cursor_deletions cursor_additions comparator =
     \<lparr> it_deletions = cursor_deletions, it_additions = cursor_additions, it_comparator = comparator,
       it_is_patch_id_filter = False, it_is_patch_id_filter_exact = False, it_patch_id_filter = - 1,
       it_is_triple_pattern_filter = False, it_triple_pattern_filter = mk_triple 0 0 0,
       it_is_filter_local_changes = False, it_reverse = False,
       it_has_temp_key_deletion = False, it_has_temp_key_addition = False,
       it_temp_key_deletion = default_triple, it_temp_key_addition = default_triple,
       it_can_early_break = True, it_squash_equal = False \<rparr>"

definition set_patch_filter :: "int \<Rightarrow> bool \<Rightarrow> 't patch_tree_iterator \<Rightarrow> 't patch_tree_iterator" where
  "set_patch_filter patch_id exact it =
     it\<lparr> it_is_patch_id_filter := True, it_is_patch_id_filter_exact := exact, it_patch_id_filter := patch_id \<rparr>"

definition reset_patch_filter :: "'t patch_tree_iterator \<Rightarrow> 't patch_tree_iterator" where
  "reset_patch_filter it = it\<lparr> it_is_patch_id_filter := False \<rparr>"

definition set_triple_pattern_filter :: "triple \<Rightarrow> 't patch_tree_iterator \<Rightarrow> 't patch_tree_iterator" where
  "set_triple_pattern_filter triple_pattern it =
     (if \<not> is_all_matching_pattern triple_pattern
      then it\<lparr> it_is_triple_pattern_filter := True, it_triple_pattern_filter := triple_pattern \<rparr> else it)"

definition reset_triple_pattern_filter :: "'t patch_tree_iterator \<Rightarrow> 't patch_tree_iterator" where
  "reset_triple_pattern_filter it = it\<lparr> it_is_triple_pattern_filter := False \<rparr>"

definition set_filter_local_changes :: "bool \<Rightarrow> 't patch_tree_iterator \<Rightarrow> 't patch_tree_iterator" where
  "set_filter_local_changes b it = it\<lparr> it_is_filter_local_changes := b \<rparr>"

definition get_patch_id_filter :: "'t patch_tree_iterator \<Rightarrow> int" where
  "get_patch_id_filter it = it_patch_id_filter it"

definition is_deletion_tree :: "'t patch_tree_iterator \<Rightarrow> bool" where
  "is_deletion_tree it \<longleftrightarrow> it_deletions it \<noteq> None"

definition is_addition_tree :: "'t patch_tree_iterator \<Rightarrow> bool" where
  "is_addition_tree it \<longleftrightarrow> it_additions it \<noteq> None"

definition set_reverse :: "bool \<Rightarrow> 't patch_tree_iterator \<Rightarrow> 't patch_tree_iterator" where
  "set_reverse b it = it\<lparr> it_reverse := b \<rparr>"

definition is_reverse :: "'t patch_tree_iterator \<Rightarrow> bool" where
  "is_reverse it \<longleftrightarrow> it_reverse it"

definition set_early_break :: "bool \<Rightarrow> 't patch_tree_iterator \<Rightarrow> 't patch_tree_iterator" where
  "set_early_break b it = it\<lparr> it_can_early_break := b \<rparr>"

definition set_squash_equal_addition_deletion :: "bool \<Rightarrow> 't patch_tree_iterator \<Rightarrow> 't patch_tree_iterator" where
  "set_squash_equal_addition_deletion b it = it\<lparr> it_squash_equal := b \<rparr>"

section \<open>Filters\<close>

definition pattern_passes :: "'t patch_tree_iterator \<Rightarrow> triple \<Rightarrow> bool" where
  "pattern_passes it key \<longleftrightarrow>
     \<not> (it_is_triple_pattern_filter it \<and> \<not> pattern_match_triple key (it_triple_pattern_filter it))"

text \<open>The loops of the inexact filter, from the last index down: \<open>n\<close> is one more than the index.\<close>

fun dv_some_before :: "bool \<Rightarrow> deletion_value \<Rightarrow> int \<Rightarrow> nat \<Rightarrow> bool outcome" where
  "dv_some_before hp value patch_id 0 = Inr False"
| "dv_some_before hp value patch_id (Suc i) =
     bind_outcome (dv_get_patch_at hp (int i) value) (\<lambda>element.
       if el_patch_id element \<le> patch_id then Inr True else dv_some_before hp value patch_id i)"

fun av_some_before :: "addition_value \<Rightarrow> int \<Rightarrow> nat \<Rightarrow> bool" where
  "av_some_before value patch_id 0 = False"
| "av_some_before value patch_id (Suc i) =
     (let p = av_get_patch_id_at (int i) value in
      if p \<ge> 0 \<and> p \<le> patch_id then True else av_some_before value patch_id i)"

definition deletion_passes :: "bool \<Rightarrow> 't patch_tree_iterator \<Rightarrow> deletion_value \<Rightarrow> bool outcome" where
  "deletion_passes hp it value =
     bind_outcome
       (if it_is_patch_id_filter it then
          if it_is_patch_id_filter_exact it
          then Inr (dv_get_patchvalue_index (it_patch_id_filter it) value \<ge> 0)
          else dv_some_before hp value (it_patch_id_filter it) (nat (dv_get_size value))
        else Inr True) (\<lambda>filter_valid.
     if filter_valid \<and> it_is_filter_local_changes it
     then bind_outcome (dv_is_local_change hp (it_patch_id_filter it) value) (\<lambda>b. Inr (\<not> b))
     else Inr filter_valid)"

definition addition_passes :: "'t patch_tree_iterator \<Rightarrow> addition_value \<Rightarrow> bool outcome" where
  "addition_passes it value =
     bind_outcome
       (if it_is_patch_id_filter it then
          if it_is_patch_id_filter_exact it then av_is_patch_id (it_patch_id_filter it) value
          else Inr (av_some_before value (it_patch_id_filter it) (nat (av_get_size value)))
        else Inr True) (\<lambda>filter_valid.
     if filter_valid \<and> it_is_filter_local_changes it
     then bind_outcome (av_is_local_change (it_patch_id_filter it) value) (\<lambda>b. Inr (\<not> b))
     else Inr filter_valid)"

section \<open>The next deletion and the next addition\<close>

definition move :: "'t tree_db \<Rightarrow> bool \<Rightarrow> 't \<times> cursor \<Rightarrow> 't \<times> cursor" where
  "move db reverse tc =
     (fst tc, if reverse then cursor_step_back db (fst tc) (snd tc) else cursor_step db (fst tc) (snd tc))"

text \<open>The key and the value are written also when there is no next record.\<close>

fun next_deletion ::
  "bool \<Rightarrow> 't tree_db \<Rightarrow> nat \<Rightarrow> triple \<Rightarrow> deletion_value \<Rightarrow> bool \<Rightarrow> 't patch_tree_iterator \<Rightarrow>
   (bool \<times> triple \<times> deletion_value \<times> 't patch_tree_iterator) outcome" where
  "next_deletion hp db 0 key value silent_step it = Inl Diverges"
| "next_deletion hp db (Suc fuel) key value silent_step it =
     (case it_deletions it of
        None \<Rightarrow> Inl Invalid_argument
      | Some (tree, cursor) \<Rightarrow>
          (case cursor_get db tree cursor of
             None \<Rightarrow> Inr (False, key, value, it)
           | Some (key, raw) \<Rightarrow>
               bind_outcome (dv_deserialize raw value) (\<lambda>value.
                 if \<not> pattern_passes it key \<and> it_can_early_break it then Inr (False, key, value, it)
                 else bind_outcome (if pattern_passes it key then deletion_passes hp it value else Inr False) (\<lambda>valid.
                   let stepped = it\<lparr> it_deletions := Some (move db (it_reverse it) (tree, cursor)) \<rparr> in
                   if valid then Inr (True, key, value, if silent_step then it else stepped)
                   else next_deletion hp db fuel key value silent_step stepped))))"

fun next_addition ::
  "'t tree_db \<Rightarrow> nat \<Rightarrow> triple \<Rightarrow> addition_value \<Rightarrow> 't patch_tree_iterator \<Rightarrow>
   (bool \<times> triple \<times> addition_value \<times> 't patch_tree_iterator) outcome" where
  "next_addition db 0 key value it = Inl Diverges"
| "next_addition db (Suc fuel) key value it =
     (case it_additions it of
        None \<Rightarrow> Inl Invalid_argument
      | Some (tree, cursor) \<Rightarrow>
          (case cursor_get db tree cursor of
             None \<Rightarrow> Inr (False, key, value, it)
           | Some (key, raw) \<Rightarrow>
               (let stepped = it\<lparr> it_additions := Some (move db (it_reverse it) (tree, cursor)) \<rparr> in
                bind_outcome (av_deserialize raw value) (\<lambda>value.
                  if \<not> pattern_passes it key then
                    if it_can_early_break it then Inr (False, key, value, stepped)
                    else next_addition db fuel key value stepped
                  else bind_outcome (addition_passes it value) (\<lambda>valid.
                    if valid then Inr (True, key, value, stepped)
                    else next_addition db fuel key value stepped)))))"

section \<open>The next of either\<close>

text \<open>The first part of \<open>next\<close>: the records of the two cursors, read unless one is kept from the last call.\<close>

definition next_pair ::
  "bool \<Rightarrow> 't tree_db \<Rightarrow> nat \<Rightarrow> tree_value \<Rightarrow> 't patch_tree_iterator \<Rightarrow>
   (bool \<times> bool \<times> tree_value \<times> 't patch_tree_iterator) outcome" where
  "next_pair hp db fuel value it =
     (let old = it_is_filter_local_changes it; it = it\<lparr> it_is_filter_local_changes := False \<rparr> in
      bind_outcome
        (if it_has_temp_key_deletion it then Inr (True, it_temp_key_deletion it, tv_deletion value, it)
         else next_deletion hp db fuel (it_temp_key_deletion it) (tv_deletion value) False it)
        (\<lambda>(had_deletion, key_deletion, deletion, it).
      let it = it\<lparr> it_temp_key_deletion := key_deletion \<rparr> in
      bind_outcome
        (if it_has_temp_key_addition it then Inr (True, it_temp_key_addition it, tv_addition value, it)
         else next_addition db fuel (it_temp_key_addition it) (tv_addition value) it)
        (\<lambda>(had_addition, key_addition, addition, it).
      Inr (had_deletion, had_addition, value\<lparr> tv_deletion := deletion, tv_addition := addition \<rparr>,
           it\<lparr> it_temp_key_addition := key_addition, it_is_filter_local_changes := old \<rparr>))))"

definition keep_temp :: "bool \<Rightarrow> bool \<Rightarrow> 't patch_tree_iterator \<Rightarrow> 't patch_tree_iterator" where
  "keep_temp deletion addition it = it\<lparr> it_has_temp_key_deletion := deletion, it_has_temp_key_addition := addition \<rparr>"

text \<open>Which of an addition and a deletion of the same triple to return: both when they are to be combined, else
  the one with the larger version. The value is marked as both meanwhile.\<close>

definition choose_equal ::
  "bool \<Rightarrow> tree_value \<Rightarrow> 't patch_tree_iterator \<Rightarrow> (bool \<times> bool) outcome" where
  "choose_equal hp value it =
     (if it_squash_equal it then Inr (True, True)
      else
        (let value = tv_set_addition True (tv_set_deletion True value) in
         bind_outcome
           (if it_is_patch_id_filter it
            then bind_outcome (tv_get_deletion_patch_id hp (it_patch_id_filter it) (it_is_patch_id_filter_exact it) value)
              (\<lambda>d. Inr (d, tv_get_addition_patch_id (it_patch_id_filter it) (it_is_patch_id_filter_exact it) value))
            else bind_outcome (dv_get_patch_at hp (dv_get_size (tv_deletion value) - 1) (tv_deletion value)) (\<lambda>e.
              Inr (el_patch_id e, av_get_patch_id_at (av_get_size (tv_addition value) - 1) (tv_addition value))))
           (\<lambda>(deletion_patch_id, addition_patch_id).
              Inr (deletion_patch_id \<ge> addition_patch_id, addition_patch_id > deletion_patch_id))))"

text \<open>What to return, deletion and addition, with the records kept for the next call.\<close>

definition choose_next ::
  "bool \<Rightarrow> bool \<Rightarrow> bool \<Rightarrow> tree_value \<Rightarrow> 't patch_tree_iterator \<Rightarrow> (bool \<times> bool \<times> 't patch_tree_iterator) outcome" where
  "choose_next hp had_deletion had_addition value it =
     (if had_deletion \<noteq> had_addition then Inr (had_deletion, had_addition, keep_temp False False it)
      else
        (let comparison = key_compare (it_comparator it) (it_temp_key_deletion it) (it_temp_key_addition it) in
         if comparison = 0 then
           bind_outcome (choose_equal hp value it) (\<lambda>(d, a). Inr (d, a, keep_temp False False it))
         else if comparison > 0 then Inr (False, True, keep_temp True False it)
         else Inr (True, False, keep_temp False True it)))"

fun it_next ::
  "bool \<Rightarrow> 't tree_db \<Rightarrow> nat \<Rightarrow> triple \<Rightarrow> tree_value \<Rightarrow> 't patch_tree_iterator \<Rightarrow>
   (bool \<times> triple \<times> tree_value \<times> 't patch_tree_iterator) outcome" where
  "it_next hp db 0 key value it = Inl Diverges"
| "it_next hp db (Suc fuel) key value it =
     (let value = tv_set_addition False (tv_set_deletion False value) in
      if is_deletion_tree it \<and> \<not> is_addition_tree it then
        bind_outcome (next_deletion hp db fuel key (tv_deletion value) False it) (\<lambda>(b, key, deletion, it).
          Inr (b, key, (tv_set_deletion True value)\<lparr> tv_deletion := deletion \<rparr>, it))
      else if \<not> is_deletion_tree it \<and> is_addition_tree it then
        bind_outcome (next_addition db fuel key (tv_addition value) it) (\<lambda>(b, key, addition, it).
          Inr (b, key, (tv_set_addition True value)\<lparr> tv_addition := addition \<rparr>, it))
      else
        bind_outcome (next_pair hp db fuel value it) (\<lambda>(had_deletion, had_addition, value, it).
          if \<not> had_deletion \<and> \<not> had_addition then Inr (False, key, value, it)
          else
            bind_outcome (choose_next hp had_deletion had_addition value it) (\<lambda>(return_deletion, return_addition, it).
            let value = tv_set_deletion return_deletion (tv_set_addition return_addition value) in
            bind_outcome
              (if it_is_filter_local_changes it then tv_is_local_change hp (it_patch_id_filter it) value
               else Inr False) (\<lambda>skip.
            if skip then it_next hp db fuel key value it
            else Inr (True, if return_addition then it_temp_key_addition it else it_temp_key_deletion it, value, it)))))"

section \<open>Iterators over triples\<close>

record positioned_triple =
  pst_triple :: triple
  pst_position :: int

record 't positioned_triple_iterator =
  pti_it :: "'t patch_tree_iterator"
  pti_patch_id :: int
  pti_triple_pattern :: triple

definition pti_next ::
  "'t tree_db \<Rightarrow> nat \<Rightarrow> positioned_triple \<Rightarrow> bool \<Rightarrow> bool \<Rightarrow> 't positioned_triple_iterator \<Rightarrow>
   (bool \<times> positioned_triple \<times> 't positioned_triple_iterator) outcome" where
  "pti_next db fuel positioned_triple silent_step get_position p =
     bind_outcome (next_deletion True db fuel default_triple (dv_new (pti_patch_id p)) silent_step (pti_it p))
       (\<lambda>(ret, key, value, it).
     let p = p\<lparr> pti_it := it \<rparr> in
     if \<not> ret then Inr (False, positioned_triple, p)
     else if get_position then
       bind_outcome (dv_get True (pti_patch_id p) value) (\<lambda>e.
         Inr (True, \<lparr> pst_triple = key, pst_position = get_by_pattern (el_positions e) (pti_triple_pattern p) \<rparr>, p))
     else Inr (True, positioned_triple\<lparr> pst_triple := key \<rparr>, p))"

record 't patch_tree_triple_iterator =
  ptt_it :: "'t patch_tree_iterator"
  ptt_triple_pattern :: triple
  ptt_max_patch_id :: int

definition ptt_next ::
  "'t tree_db \<Rightarrow> nat \<Rightarrow> triple \<Rightarrow> 't patch_tree_triple_iterator \<Rightarrow> (bool \<times> triple \<times> 't patch_tree_triple_iterator) outcome" where
  "ptt_next db fuel t p =
     bind_outcome (next_addition db fuel default_triple (av_new (ptt_max_patch_id p)) (ptt_it p)) (\<lambda>(ret, key, value, it).
       Inr (ret, if ret then key else t, p\<lparr> ptt_it := it \<rparr>))"

definition empty_triple_iterator_next :: "triple \<Rightarrow> bool \<times> triple" where
  "empty_triple_iterator_next t = (False, t)"

text \<open>\<open>SnapshotTripleIterator\<close> over an iterator of the HDT library with the operations \<open>has_next\<close> and \<open>next\<close>.\<close>

definition snapshot_triple_iterator_next ::
  "('s \<Rightarrow> bool) \<Rightarrow> ('s \<Rightarrow> (triple \<times> 's) outcome) \<Rightarrow> triple \<Rightarrow> 's \<Rightarrow> (bool \<times> triple \<times> 's) outcome" where
  "snapshot_triple_iterator_next has_next hdt_next t snapshot_it =
     (if has_next snapshot_it
      then bind_outcome (hdt_next snapshot_it) (\<lambda>(triple_id, snapshot_it). Inr (True, triple_id, snapshot_it))
      else Inr (False, t, snapshot_it))"

end
