(* ===== verification/Patch_Tree_Queries.thy ===== *)
theory Patch_Tree_Queries
  imports Patch_Tree_Iterator
begin

text \<open>
  The part of \<open>PatchTree\<close> (\<open>patch/patch_tree.{h,cc}\<close>) that reads: the iterators over a version or a pattern, the
  reconstruction of a patch, and the deletion and addition counts.
\<close>

section \<open>Iterators\<close>

definition pt_iterator_from :: "('t, 'c, 'h) kyoto \<Rightarrow> triple \<Rightarrow> ('t, 'c, 'h) patch_tree \<Rightarrow> 't patch_tree_iterator" where
  "pt_iterator_from kc key pt =
     (let d = get_default_deletions_tree (pt_store pt); a = get_default_additions_tree (pt_store pt) in
      it_new (Some (d, tree_from (kc_tree kc) d key)) (Some (a, tree_from (kc_tree kc) a key))
        (get_spo_comparator (pt_store pt)))"

definition pt_iterator_version ::
  "('t, 'c, 'h) kyoto \<Rightarrow> int \<Rightarrow> bool \<Rightarrow> ('t, 'c, 'h) patch_tree \<Rightarrow> 't patch_tree_iterator" where
  "pt_iterator_version kc patch_id exact pt =
     (let d = get_default_deletions_tree (pt_store pt); a = get_default_additions_tree (pt_store pt) in
      set_patch_filter patch_id exact
        (it_new (Some (d, tree_first (kc_tree kc) d)) (Some (a, tree_first (kc_tree kc) a))
          (get_spo_comparator (pt_store pt))))"

definition pt_iterator_version_from ::
  "('t, 'c, 'h) kyoto \<Rightarrow> triple \<Rightarrow> int \<Rightarrow> bool \<Rightarrow> ('t, 'c, 'h) patch_tree \<Rightarrow> 't patch_tree_iterator" where
  "pt_iterator_version_from kc key patch_id exact pt =
     (let d = get_default_deletions_tree (pt_store pt); a = get_default_additions_tree (pt_store pt) in
      set_patch_filter patch_id exact
        (it_new (Some (d, tree_from (kc_tree kc) d key)) (Some (a, tree_from (kc_tree kc) a key))
          (get_spo_comparator (pt_store pt))))"

definition pt_iterator_pattern :: "('t, 'c, 'h) kyoto \<Rightarrow> triple \<Rightarrow> ('t, 'c, 'h) patch_tree \<Rightarrow> 't patch_tree_iterator" where
  "pt_iterator_pattern kc triple_pattern pt =
     (let d = get_deletions_tree triple_pattern (pt_store pt); a = get_additions_tree triple_pattern (pt_store pt) in
      set_triple_pattern_filter triple_pattern
        (it_new (Some (d, tree_from (kc_tree kc) d triple_pattern)) (Some (a, tree_from (kc_tree kc) a triple_pattern))
          (get_spo_comparator (pt_store pt))))"

section \<open>Reconstruction\<close>

text \<open>The loop of \<open>reconstruct_to_patch\<close>; \<open>add\<close> is the \<open>add\<close> of the patch.\<close>

fun reconstruct_loop ::
  "('t, 'c, 'h) kyoto \<Rightarrow> (patch_element \<Rightarrow> 'p \<Rightarrow> 'p) \<Rightarrow> int \<Rightarrow> nat \<Rightarrow> triple \<Rightarrow> tree_value \<Rightarrow> 't patch_tree_iterator \<Rightarrow> 'p \<Rightarrow>
   'p outcome" where
  "reconstruct_loop kc add patch_id 0 key value it patch = Inl Diverges"
| "reconstruct_loop kc add patch_id (Suc fuel) key value it patch =
     bind_outcome (it_next True (kc_tree kc) fuel key value it) (\<lambda>(b, key, value, it).
       if \<not> b then Inr patch
       else
         bind_outcome (tv_is_exact patch_id value) (\<lambda>exact.
         bind_outcome (tv_is_local_change True (if exact then patch_id else patch_id - 1) value) (\<lambda>local_change.
         let element = pe_set_local_change local_change (pe_new key (tv_is_addition patch_id False value)) in
           reconstruct_loop kc add patch_id fuel key value it (add element patch))))"

definition reconstruct_to_patch ::
  "('t, 'c, 'h) kyoto \<Rightarrow> (patch_element \<Rightarrow> 'p \<Rightarrow> 'p) \<Rightarrow> nat \<Rightarrow> 'p \<Rightarrow> int \<Rightarrow> bool \<Rightarrow> ('t, 'c, 'h) patch_tree \<Rightarrow> 'p outcome" where
  "reconstruct_to_patch kc add fuel patch patch_id ignore_local_changes pt =
     reconstruct_loop kc add patch_id fuel default_triple (tv_new (pt_max_patch_id pt))
       (set_filter_local_changes ignore_local_changes (pt_iterator_version kc patch_id False pt)) patch"

definition reconstruct_patch_hashed ::
  "('t, 'c, 'h) kyoto \<Rightarrow> nat \<Rightarrow> int \<Rightarrow> bool \<Rightarrow> ('t, 'c, 'h) patch_tree \<Rightarrow> patch_hashed outcome" where
  "reconstruct_patch_hashed kc fuel patch_id ignore_local_changes pt =
     reconstruct_to_patch kc ph_add fuel \<lparr> ph_elements = [] \<rparr> patch_id ignore_local_changes pt"

definition reconstruct_patch ::
  "('t, 'c, 'h) kyoto \<Rightarrow> nat \<Rightarrow> int \<Rightarrow> bool \<Rightarrow> ('t, 'c, 'h) patch_tree \<Rightarrow> patch_sorted outcome" where
  "reconstruct_patch kc fuel patch_id ignore_local_changes pt =
     reconstruct_to_patch kc ps_add fuel (ps_new (get_spo_comparator (pt_store pt)) []) patch_id ignore_local_changes pt"

section \<open>Deletion counts\<close>

text \<open>A jump backwards to the last record that is not after the pattern with its blanks filled with the
  largest id; \<open>None\<close> when there is none.\<close>

definition last_deletion_value ::
  "bool \<Rightarrow> ('t, 'c, 'h) kyoto \<Rightarrow> nat \<Rightarrow> triple \<Rightarrow> int \<Rightarrow> ('t, 'c, 'h) patch_tree \<Rightarrow>
   (deletion_value \<times> triple) option outcome" where
  "last_deletion_value hp kc fuel triple_pattern patch_id pt =
     (let fill = (\<lambda>i. if i = 0 then max_id else i);
          triple_pattern_jump =
            mk_triple (fill (subject triple_pattern)) (fill (predicate triple_pattern)) (fill (object triple_pattern));
          tree = get_deletions_tree triple_pattern (pt_store pt) in
      case tree_upto (kc_tree kc) tree triple_pattern_jump of
        None \<Rightarrow> Inr None
      | Some k \<Rightarrow>
          (let it = set_reverse True (set_filter_local_changes True (set_triple_pattern_filter triple_pattern
                      (set_patch_filter patch_id True
                        (it_new (Some (tree, Some k)) None (get_spo_comparator (pt_store pt)))))) in
           bind_outcome (next_deletion hp (kc_tree kc) fuel default_triple (dv_new (pt_max_patch_id pt)) True it)
             (\<lambda>(b, key, value, it). Inr (if b then Some (value, key) else None))))"

definition deletion_count ::
  "('t, 'c, 'h) kyoto \<Rightarrow> nat \<Rightarrow> triple \<Rightarrow> int \<Rightarrow> ('t, 'c, 'h) patch_tree \<Rightarrow> (int \<times> triple) outcome" where
  "deletion_count kc fuel triple_pattern patch_id pt =
     (if is_default_tree triple_pattern then
        bind_outcome (last_deletion_value True kc fuel triple_pattern patch_id pt) (\<lambda>r. case r of
          None \<Rightarrow> Inr (0, default_triple)
        | Some (value, t) \<Rightarrow>
            bind_outcome (dv_get True patch_id value) (\<lambda>e. Inr (get_by_pattern (el_positions e) triple_pattern + 1, t)))
      else
        bind_outcome (last_deletion_value False kc fuel triple_pattern patch_id pt) (\<lambda>r. case r of
          None \<Rightarrow> Inr (0, default_triple)
        | Some (value, t) \<Rightarrow>
            bind_outcome (get_deletion_value kc t pt) (\<lambda>dv. case dv of
              None \<Rightarrow> Inl Undefined_behaviour
            | Some dv \<Rightarrow>
                bind_outcome (dv_get True patch_id dv) (\<lambda>e. Inr (get_by_pattern (el_positions e) triple_pattern + 1, t)))))"

definition deletion_iterator_from ::
  "('t, 'c, 'h) kyoto \<Rightarrow> triple \<Rightarrow> int \<Rightarrow> triple \<Rightarrow> ('t, 'c, 'h) patch_tree \<Rightarrow> 't positioned_triple_iterator" where
  "deletion_iterator_from kc offset patch_id triple_pattern pt =
     (let tree = get_default_deletions_tree (pt_store pt);
          it = it_new (Some (tree, tree_from (kc_tree kc) tree offset)) None (get_spo_comparator (pt_store pt));
          it = (if patch_id \<ge> 0 then set_patch_filter patch_id True it else it)
      in \<lparr> pti_it = set_early_break False (set_filter_local_changes True (set_triple_pattern_filter triple_pattern it)),
           pti_patch_id = patch_id, pti_triple_pattern = triple_pattern \<rparr>)"

definition get_deletion_patch_positions ::
  "('t, 'c, 'h) kyoto \<Rightarrow> nat \<Rightarrow> triple \<Rightarrow> int \<Rightarrow> bool \<Rightarrow> int \<Rightarrow> ('t, 'c, 'h) patch_tree \<Rightarrow> patch_positions outcome" where
  "get_deletion_patch_positions kc fuel t patch_id override all pt =
     (let count = (\<lambda>s p ob. bind_outcome (deletion_count kc fuel (mk_triple s p ob) patch_id pt) (\<lambda>(n, _). Inr n)) in
      bind_outcome (count (subject t) (predicate t) 0) (\<lambda>sp.
      bind_outcome (count (subject t) 0 (object t)) (\<lambda>so.
      bind_outcome (count (subject t) 0 0) (\<lambda>s.
      bind_outcome (count 0 (predicate t) (object t)) (\<lambda>po.
      bind_outcome (count 0 (predicate t) 0) (\<lambda>p.
      bind_outcome (count 0 0 (object t)) (\<lambda>ob.
      bind_outcome (if override then Inr all else count 0 0 0) (\<lambda>all.
        Inr \<lparr> pp_sp = sp, pp_so = so, pp_s = s, pp_po = po, pp_p = p, pp_o = ob, pp_all = all \<rparr>))))))))"

section \<open>Additions\<close>

definition addition_iterator :: "('t, 'c, 'h) kyoto \<Rightarrow> triple \<Rightarrow> ('t, 'c, 'h) patch_tree \<Rightarrow> 't patch_tree_iterator" where
  "addition_iterator kc triple_pattern pt =
     (let tree = get_additions_tree triple_pattern (pt_store pt) in
      set_triple_pattern_filter triple_pattern
        (it_new None (Some (tree, tree_from (kc_tree kc) tree triple_pattern)) (get_spo_comparator (pt_store pt))))"

text \<open>The loop that skips \<open>offset\<close> additions.\<close>

fun skip_additions ::
  "'t tree_db \<Rightarrow> nat \<Rightarrow> nat \<Rightarrow> triple \<Rightarrow> addition_value \<Rightarrow> 't patch_tree_iterator \<Rightarrow> 't patch_tree_iterator outcome" where
  "skip_additions db fuel 0 key value it = Inr it"
| "skip_additions db fuel (Suc offset) key value it =
     bind_outcome (next_addition db fuel key value it) (\<lambda>(b, key, value, it).
       if b then skip_additions db fuel offset key value it else Inr it)"

text \<open>When the stored count shows that the offset is past the last addition, the cursor jumps to the last
  record of the tree.\<close>

definition addition_iterator_from ::
  "('t, 'c, 'h) kyoto \<Rightarrow> nat \<Rightarrow> int \<Rightarrow> int \<Rightarrow> triple \<Rightarrow> ('t, 'c, 'h) patch_tree \<Rightarrow> 't patch_tree_triple_iterator outcome" where
  "addition_iterator_from kc fuel offset patch_id triple_pattern pt =
     (let tree = get_additions_tree triple_pattern (pt_store pt);
          it = set_filter_local_changes True (set_triple_pattern_filter triple_pattern (set_patch_filter patch_id True
                 (it_new None (Some (tree, tree_from (kc_tree kc) tree triple_pattern))
                   (get_spo_comparator (pt_store pt)))));
          count = get_addition_count (kc_count kc) patch_id triple_pattern (pt_store pt);
          it = (if count \<noteq> 0 \<and> count \<le> offset
                then it\<lparr> it_additions := Some (tree, tree_last (kc_tree kc) tree) \<rparr> else it) in
      bind_outcome (skip_additions (kc_tree kc) fuel (nat offset) default_triple (av_new (pt_max_patch_id pt)) it) (\<lambda>it.
        Inr \<lparr> ptt_it = it, ptt_triple_pattern = triple_pattern, ptt_max_patch_id = pt_max_patch_id pt \<rparr>))"

text \<open>The loop that counts the triples of an iterator.\<close>

fun count_triples :: "'t tree_db \<Rightarrow> nat \<Rightarrow> triple \<Rightarrow> 't patch_tree_triple_iterator \<Rightarrow> int \<Rightarrow> int outcome" where
  "count_triples db 0 t it count = Inl Diverges"
| "count_triples db (Suc fuel) t it count =
     bind_outcome (ptt_next db fuel t it) (\<lambda>(b, t, it).
       if b then count_triples db fuel t it (count + 1) else Inr count)"

definition addition_count ::
  "('t, 'c, 'h) kyoto \<Rightarrow> nat \<Rightarrow> int \<Rightarrow> triple \<Rightarrow> ('t, 'c, 'h) patch_tree \<Rightarrow> int outcome" where
  "addition_count kc fuel patch_id triple_pattern pt =
     (let count = get_addition_count (kc_count kc) patch_id triple_pattern (pt_store pt) in
      if count = 0 then
        bind_outcome
          (if patch_id = 0
           then Inr \<lparr> ptt_it = addition_iterator kc triple_pattern pt, ptt_triple_pattern = triple_pattern,
                      ptt_max_patch_id = pt_max_patch_id pt \<rparr>
           else addition_iterator_from kc fuel 0 patch_id triple_pattern pt) (\<lambda>it.
          count_triples (kc_tree kc) fuel default_triple it count)
      else Inr count)"

section \<open>Metadata\<close>

definition write_metadata :: "('t, 'c, 'h) patch_tree \<Rightarrow> string" where
  "write_metadata pt = show_int (pt_max_patch_id pt)"

definition is_space :: "char \<Rightarrow> bool" where
  "is_space c \<longleftrightarrow> (of_char c :: nat) = 32 \<or> 9 \<le> (of_char c :: nat) \<and> (of_char c :: nat) \<le> 13"

definition is_digit :: "char \<Rightarrow> bool" where
  "is_digit c \<longleftrightarrow> 48 \<le> (of_char c :: nat) \<and> (of_char c :: nat) \<le> 57"

definition digits_value :: "string \<Rightarrow> nat" where
  "digits_value ds = foldl (\<lambda>n c. 10 * n + (of_char c - 48)) 0 ds"

text \<open>\<open>std::stoi\<close> of a string without leading white space.\<close>

definition stoi :: "string \<Rightarrow> int outcome" where
  "stoi s =
     (let negative = (s \<noteq> [] \<and> hd s = CHR ''-'');
          rest = (if negative \<or> s \<noteq> [] \<and> hd s = CHR ''+'' then tl s else s);
          ds = takeWhile is_digit rest;
          n = (if negative then - int (digits_value ds) else int (digits_value ds)) in
      if ds = [] then Inl Invalid_argument
      else if INT_MIN \<le> n \<and> n \<le> INT_MAX then Inr n else Inl Out_of_range)"

text \<open>\<open>None\<close>: there is no metadata file. The first word of the file is the number.\<close>

definition read_metadata :: "string option \<Rightarrow> ('t, 'c, 'h) patch_tree \<Rightarrow> ('t, 'c, 'h) patch_tree outcome" where
  "read_metadata file pt =
     (case file of
        None \<Rightarrow> Inr pt
      | Some contents \<Rightarrow>
          bind_outcome (stoi (takeWhile (\<lambda>c. \<not> is_space c) (dropWhile is_space contents))) (\<lambda>n.
            Inr (pt\<lparr> pt_max_patch_id := n \<rparr>)))"

lemma digit_char: "d < 10 \<Longrightarrow> (of_char (char_of (48 + d) :: char) :: nat) = 48 + d"
  by (simp add: of_char_of)

lemma show_nat_digits: "\<forall>c\<in>set (show_nat n). is_digit c" "show_nat n \<noteq> []" "digits_value (show_nat n) = n"
proof -
  have "(\<forall>c\<in>set (show_nat n). is_digit c) \<and> show_nat n \<noteq> [] \<and> digits_value (show_nat n) = n"
  proof (induction n rule: show_nat.induct)
    case (1 n)
    then show ?case
      by (cases "n < 10") (simp_all add: show_nat.simps [of n] is_digit_def digits_value_def digit_char)
  qed
  then show "\<forall>c\<in>set (show_nat n). is_digit c" "show_nat n \<noteq> []" "digits_value (show_nat n) = n" by auto
qed

lemma stoi_show_int:
  assumes "int32_range i"
  shows "stoi (show_int i) = Inr i"
proof -
  have t: "takeWhile is_digit (show_nat n) = show_nat n" for n
    using show_nat_digits(1) by (simp add: takeWhile_eq_all_conv)
  have "\<not> is_digit CHR ''-''" "\<not> is_digit CHR ''+''" by (simp_all add: is_digit_def)
  then have h: "hd (show_nat n) \<noteq> CHR ''-''" "hd (show_nat n) \<noteq> CHR ''+''" for n
    using show_nat_digits(1,2) [of n] hd_in_set by metis+
  show ?thesis
    using assms by (cases "i < 0") (simp_all add: stoi_def show_int_def Let_def t h show_nat_digits)
qed

text \<open>Reopening a tree restores its largest version.\<close>

lemma metadata_restored:
  assumes "int32_range (pt_max_patch_id pt)"
  shows "read_metadata (Some (write_metadata pt)) (pt'\<lparr> pt_max_patch_id := k \<rparr>) =
    Inr (pt'\<lparr> pt_max_patch_id := pt_max_patch_id pt \<rparr>)"
proof -
  have "\<not> is_space c" if "is_digit c \<or> c = CHR ''-''" for c
    using that by (auto simp: is_space_def is_digit_def)
  then have n: "\<forall>c\<in>set (show_int i). \<not> is_space c" for i
    using show_nat_digits(1) by (auto simp: show_int_def)
  have "show_int i \<noteq> []" for i using show_nat_digits(2) by (simp add: show_int_def)
  then have d: "dropWhile is_space (show_int i) = show_int i" for i
    using n [of i] by (cases "show_int i") auto
  have t: "takeWhile (\<lambda>c. \<not> is_space c) (show_int i) = show_int i" for i
    using n by (simp add: takeWhile_eq_all_conv)
  show ?thesis
    by (simp add: read_metadata_def write_metadata_def d t stoi_show_int [OF assms])
qed

end
