(* ===== verification/Snapshot_Iterators.thy ===== *)
theory Snapshot_Iterators
  imports Iterator_Source Patch_Tree_Queries
begin

text \<open>
  The iterators of \<open>snapshot/\<close>: \<open>SortedTripleIterator\<close>, \<open>VectorTripleIterator\<close> and \<open>CombinedTripleIterator\<close>.
  An iterator of the HDT library, \<open>hdt::IteratorTripleID\<close>, is a state with the operations \<open>hasNext\<close> and
  \<open>next\<close>; the locale \<open>triple_id_iterator\<close> states what their documentation promises, and the iterators of
  \<open>snapshot/\<close> keep that promise.
\<close>

section \<open>Iterators over ids\<close>

type_synonym 's has_next_fun = "'s \<Rightarrow> bool"
type_synonym ('x, 's) hdt_next_fun = "'s \<Rightarrow> ('x \<times> 's) outcome"

text \<open>The elements of the source, taken out until there is no next one.\<close>

fun take_all :: "'s has_next_fun \<Rightarrow> ('x, 's) hdt_next_fun \<Rightarrow> nat \<Rightarrow> 's \<Rightarrow> 'x list outcome" where
  "take_all has_next hdt_next 0 source_it = Inl Diverges"
| "take_all has_next hdt_next (Suc fuel) source_it =
     (if has_next source_it
      then bind_outcome (hdt_next source_it) (\<lambda>(x, source_it).
             bind_outcome (take_all has_next hdt_next fuel source_it) (\<lambda>xs. Inr (x # xs)))
      else Inr [])"

locale triple_id_iterator =
  fixes has_next :: "'s has_next_fun" and hdt_next :: "('x, 's) hdt_next_fun" and ok :: "'s \<Rightarrow> bool"
    and rest :: "'s \<Rightarrow> 'x list"
  assumes has_next_rest: "ok s \<Longrightarrow> has_next s \<longleftrightarrow> rest s \<noteq> []"
    and hdt_next_rest: "ok s \<Longrightarrow> rest s = x # xs \<Longrightarrow> \<exists>s'. hdt_next s = Inr (x, s') \<and> ok s' \<and> rest s' = xs"
begin

lemma next_cases:
  assumes "ok s"
  obtains "\<not> has_next s" "rest s = []"
    | x s' where "has_next s" "hdt_next s = Inr (x, s')" "ok s'" "rest s = x # rest s'"
  using has_next_rest [OF assms] hdt_next_rest [OF assms] by (cases "rest s") auto

lemma take_all_rest: "ok s \<Longrightarrow> length (rest s) < fuel \<Longrightarrow> take_all has_next hdt_next fuel s = Inr (rest s)"
proof (induction fuel arbitrary: s)
  case (Suc fuel)
  show ?case
    by (rule next_cases [OF Suc.prems(1)]) (use Suc in auto)
qed simp

sublocale as_triples: iterator_source "\<lambda>t s. if has_next s
    then bind_outcome (hdt_next s) (\<lambda>(x, s). Inr (True, x, s)) else Inr (False, t, s)" ok rest
proof
  fix s x xs d
  assume ok: "ok s"
  show "rest s = [] \<Longrightarrow> \<exists>d' s'. (if has_next s then bind_outcome (hdt_next s) (\<lambda>(x, s). Inr (True, x, s))
      else Inr (False, d, s)) = Inr (False, d', s') \<and> ok s' \<and> rest s' = []"
    using has_next_rest [OF ok] ok by auto
  show "rest s = x # xs \<Longrightarrow> \<exists>s'. (if has_next s then bind_outcome (hdt_next s) (\<lambda>(x, s). Inr (True, x, s))
      else Inr (False, d, s)) = Inr (True, x, s') \<and> ok s' \<and> rest s' = xs"
    using has_next_rest [OF ok] hdt_next_rest [OF ok] by fastforce
qed

end

section \<open>SortedTripleIterator\<close>

record sorted_triple_iterator =
  sti_triples :: "triple list"
  sti_pos :: nat
  sti_order :: component_order

definition sti_new ::
  "'s has_next_fun \<Rightarrow> (triple, 's) hdt_next_fun \<Rightarrow> nat \<Rightarrow> 's \<Rightarrow> component_order \<Rightarrow> dict_ptr \<Rightarrow> sorted_triple_iterator outcome" where
  "sti_new has_next hdt_next fuel source_it order dict =
     bind_outcome (take_all has_next hdt_next fuel source_it) (\<lambda>triples.
       Inr \<lparr> sti_triples = std_sort (tc_less (get_triple_comparator order dict dict)) triples, sti_pos = 0,
             sti_order = order \<rparr>)"

definition sti_has_next :: "sorted_triple_iterator \<Rightarrow> bool" where
  "sti_has_next it \<longleftrightarrow> sti_pos it \<noteq> length (sti_triples it)"

definition sti_next :: "sorted_triple_iterator \<Rightarrow> (triple \<times> sorted_triple_iterator) outcome" where
  "sti_next it =
     (if sti_pos it < length (sti_triples it)
      then Inr (sti_triples it ! sti_pos it, it\<lparr> sti_pos := sti_pos it + 1 \<rparr>)
      else Inl Undefined_behaviour)"

definition sti_has_previous :: "sorted_triple_iterator \<Rightarrow> bool" where
  "sti_has_previous it \<longleftrightarrow> sti_pos it \<noteq> 0"

definition sti_previous :: "sorted_triple_iterator \<Rightarrow> (triple \<times> sorted_triple_iterator) outcome" where
  "sti_previous it =
     (if sti_pos it = 0 then Inl Undefined_behaviour
      else Inr (sti_triples it ! (sti_pos it - 1), it\<lparr> sti_pos := sti_pos it - 1 \<rparr>))"

definition sti_go_to_start :: "sorted_triple_iterator \<Rightarrow> sorted_triple_iterator" where
  "sti_go_to_start it = it\<lparr> sti_pos := 0 \<rparr>"

definition sti_estimated_num_results :: "sorted_triple_iterator \<Rightarrow> nat" where
  "sti_estimated_num_results it = length (sti_triples it)"

definition sti_go_to :: "nat \<Rightarrow> sorted_triple_iterator \<Rightarrow> sorted_triple_iterator outcome" where
  "sti_go_to pos it =
     (if pos \<le> length (sti_triples it) then Inr (it\<lparr> sti_pos := pos \<rparr>) else Inl Undefined_behaviour)"

definition sti_skip :: "nat \<Rightarrow> sorted_triple_iterator \<Rightarrow> sorted_triple_iterator outcome" where
  "sti_skip pos it =
     (if sti_pos it + pos \<le> length (sti_triples it) then Inr (it\<lparr> sti_pos := sti_pos it + pos \<rparr>)
      else Inl Undefined_behaviour)"

section \<open>VectorTripleIterator\<close>

text \<open>\<open>pos\<close> is the index of the last element returned, \<open>- 1\<close> before the first; compared with the size, an
  unsigned number, after adding 1.\<close>

record vector_triple_iterator =
  vti_triples :: "string_triple list"
  vti_pos :: int

definition vti_new :: "string_triple list \<Rightarrow> vector_triple_iterator" where
  "vti_new triples = \<lparr> vti_triples = triples, vti_pos = - 1 \<rparr>"

definition vti_has_next :: "vector_triple_iterator \<Rightarrow> bool" where
  "vti_has_next it \<longleftrightarrow> vti_pos it + 1 < int (length (vti_triples it))"

definition vti_next :: "vector_triple_iterator \<Rightarrow> (string_triple \<times> vector_triple_iterator) outcome" where
  "vti_next it =
     (let pos = vti_pos it + 1 in
      if pos < int (length (vti_triples it)) then Inr (vti_triples it ! nat pos, it\<lparr> vti_pos := pos \<rparr>)
      else Inl Undefined_behaviour)"

definition vti_has_previous :: "vector_triple_iterator \<Rightarrow> bool" where
  "vti_has_previous it \<longleftrightarrow> vti_pos it \<ge> 0"

definition vti_previous :: "vector_triple_iterator \<Rightarrow> (string_triple \<times> vector_triple_iterator) outcome" where
  "vti_previous it =
     (if vti_pos it < 0 then Inl Undefined_behaviour
      else Inr (vti_triples it ! nat (vti_pos it), it\<lparr> vti_pos := vti_pos it - 1 \<rparr>))"

definition vti_go_to_start :: "vector_triple_iterator \<Rightarrow> vector_triple_iterator" where
  "vti_go_to_start it = it\<lparr> vti_pos := - 1 \<rparr>"

section \<open>CombinedTripleIterator\<close>

text \<open>The iterators one after the other; \<open>hasNext\<close> moves past the ones that have ended. The constructor
  does not initialise \<open>pos\<close>: it is whatever was there, an argument here. Compared with the size, an unsigned
  number, a negative position is large.\<close>

record 's combined_triple_iterator =
  cti_iterators :: "'s list"
  cti_pos :: int

definition cti_new :: "int \<Rightarrow> 's combined_triple_iterator" where
  "cti_new pos = \<lparr> cti_iterators = [], cti_pos = pos \<rparr>"

definition cti_in_range :: "'s combined_triple_iterator \<Rightarrow> bool" where
  "cti_in_range it \<longleftrightarrow> 0 \<le> cti_pos it \<and> cti_pos it < int (length (cti_iterators it))"

function cti_has_next :: "'s has_next_fun \<Rightarrow> 's combined_triple_iterator \<Rightarrow> bool \<times> 's combined_triple_iterator" where
  "cti_has_next has_next it =
     (if cti_in_range it \<and> \<not> has_next (cti_iterators it ! nat (cti_pos it))
      then cti_has_next has_next (it\<lparr> cti_pos := cti_pos it + 1 \<rparr>)
      else (cti_in_range it, it))"
  by auto

termination
  by (relation "measure (\<lambda>(has_next, it). nat (int (length (cti_iterators it)) - cti_pos it))")
    (auto simp: cti_in_range_def)

declare cti_has_next.simps [simp del]

definition cti_next :: "('x, 's) hdt_next_fun \<Rightarrow> 's combined_triple_iterator \<Rightarrow> ('x \<times> 's combined_triple_iterator) outcome" where
  "cti_next hdt_next it =
     (if cti_in_range it
      then bind_outcome (hdt_next (cti_iterators it ! nat (cti_pos it))) (\<lambda>(x, s).
             Inr (x, it\<lparr> cti_iterators := (cti_iterators it)[nat (cti_pos it) := s] \<rparr>))
      else Inl Undefined_behaviour)"

definition cti_append_iterator :: "'s \<Rightarrow> 's combined_triple_iterator \<Rightarrow> 's combined_triple_iterator" where
  "cti_append_iterator s it = it\<lparr> cti_iterators := cti_iterators it @ [s] \<rparr>"

text \<open>Each iterator up to the current one goes back to its start; a negative position becomes the next
  larger one.\<close>

definition cti_go_to_start :: "('s \<Rightarrow> 's) \<Rightarrow> 's combined_triple_iterator \<Rightarrow> 's combined_triple_iterator" where
  "cti_go_to_start start it =
     (if cti_pos it < 0 then it\<lparr> cti_pos := cti_pos it + 1 \<rparr>
      else let n = nat (cti_pos it) + 1 in
        \<lparr> cti_iterators = map start (take n (cti_iterators it)) @ drop n (cti_iterators it), cti_pos = 0 \<rparr>)"

section \<open>The iterators keep the promise\<close>

definition sti_rest :: "sorted_triple_iterator \<Rightarrow> triple list" where
  "sti_rest it = drop (sti_pos it) (sti_triples it)"

lemma sti_source: "triple_id_iterator sti_has_next sti_next (\<lambda>it. sti_pos it \<le> length (sti_triples it)) sti_rest"
proof
  fix s :: sorted_triple_iterator and x xs
  assume ok: "sti_pos s \<le> length (sti_triples s)"
  then show "sti_has_next s \<longleftrightarrow> sti_rest s \<noteq> []" by (auto simp: sti_has_next_def sti_rest_def)
  assume "sti_rest s = x # xs"
  then show "\<exists>s'. sti_next s = Inr (x, s') \<and> sti_pos s' \<le> length (sti_triples s') \<and> sti_rest s' = xs"
    using ok by (cases "sti_pos s = length (sti_triples s)")
      (auto simp: sti_next_def sti_rest_def Cons_nth_drop_Suc [symmetric])
qed

interpretation sti: triple_id_iterator sti_has_next sti_next "\<lambda>it. sti_pos it \<le> length (sti_triples it)" sti_rest
  by (rule sti_source)

end
