(* ===== verification/Delta_Semantics.thy ===== *)
theory Delta_Semantics
  imports Snapshot_Iterators
begin

text \<open>
  The order of triples of several dictionaries by their strings, which the comparators compute, and what a list
  of deltas between two versions is.
\<close>

section \<open>Triples as strings\<close>

type_synonym spelling = "string \<times> string \<times> string"

definition text_of :: "dict_ptr \<Rightarrow> triple \<Rightarrow> spelling" where
  "text_of d t = (case d of
     None \<Rightarrow> ([], [], [])
   | Some (p, m) \<Rightarrow> (subject_string m t, predicate_string m t, object_string m t))"

fun in_order :: "component_order \<Rightarrow> spelling \<Rightarrow> spelling" where
  "in_order SPO (s, p, ob) = (s, p, ob)"
| "in_order SOP (s, p, ob) = (s, ob, p)"
| "in_order PSO (s, p, ob) = (p, s, ob)"
| "in_order POS (s, p, ob) = (p, ob, s)"
| "in_order OSP (s, p, ob) = (ob, s, p)"
| "in_order OPS (s, p, ob) = (ob, p, s)"
| "in_order Unknown (s, p, ob) = (s, p, ob)"

lemma in_order_inject [simp]: "in_order q a = in_order q b \<longleftrightarrow> a = b"
  by (cases a; cases b; cases q) auto

definition key_of :: "component_order \<Rightarrow> dict_ptr \<Rightarrow> triple \<Rightarrow> spelling" where
  "key_of q d t = in_order q (text_of d t)"

text \<open>The dictionary managers in memory: sorted ones, small enough for the comparisons of ids not to overflow.
  A triple is located when its terms are known to the manager its pointer points to.\<close>

definition managers_ok :: "(nat \<Rightarrow> dictionary_manager) \<Rightarrow> bool" where
  "managers_ok heap \<longleftrightarrow> (\<forall>p. (\<forall>r. role_sorted (heap p) r) \<and> unat (dm_max_hdt_id (heap p)) < 2 ^ 31)"

definition located :: "(nat \<Rightarrow> dictionary_manager) \<Rightarrow> dict_ptr \<Rightarrow> triple \<Rightarrow> bool" where
  "located heap d t \<longleftrightarrow> (\<exists>p. d = Some (p, heap p) \<and> t \<in> known_keys (heap p))"

lemma component_comparator_text:
  assumes "managers_ok heap" "get t1 \<in> known_ids (heap p1) r" "get t2 \<in> known_ids (heap p2) r"
  shows "sgn (component_comparator get r t1 t2 (Some (p1, heap p1)) (Some (p2, heap p2))) =
    string_compare (dm_id_to_string (get t1) r (heap p1)) (dm_id_to_string (get t2) r (heap p2))"
proof -
  have k: "role_id (heap p1) r (get t1)" "role_id (heap p2) r (get t2)" "get t1 \<noteq> max_id" "get t2 \<noteq> max_id"
      "get t1 \<noteq> 0" "get t2 \<noteq> 0"
    using assms(2,3) by (auto simp: known_ids_def role_id_def)
  have "sgn (string_compare a b) = string_compare a b" for a b by (simp add: string_compare_def)
  moreover have "p1 = p2 \<Longrightarrow> sgn (dm_compare_component (get t1) (get t2) r (heap p2)) =
      string_compare (dm_id_to_string (get t1) r (heap p2)) (dm_id_to_string (get t2) r (heap p2))"
    using k(1,2) assms(1) by (intro compare_component_string) (simp_all add: managers_ok_def)
  ultimately show ?thesis
    using k(3-6) by (simp add: component_comparator_def)
qed

lemma string_compare_sgn:
  assumes "sgn c = string_compare a b"
  shows "c = 0 \<longleftrightarrow> a = b" "c < 0 \<longleftrightarrow> a < b"
  using assms by (auto simp: string_compare_def sgn_if split: if_splits)

lemma compare_with_text:
  assumes "managers_ok heap" "located heap d1 t1" "located heap d2 t2"
  shows "compare_with (get_triple_comparator q a b) t1 t2 d1 d2 = 0 \<longleftrightarrow> key_of q d1 t1 = key_of q d2 t2"
    "compare_with (get_triple_comparator q a b) t1 t2 d1 d2 < 0 \<longleftrightarrow> key_of q d1 t1 < key_of q d2 t2"
proof -
  obtain p1 p2 where d: "d1 = Some (p1, heap p1)" "t1 \<in> known_keys (heap p1)"
      "d2 = Some (p2, heap p2)" "t2 \<in> known_keys (heap p2)"
    using assms(2,3) by (auto simp: located_def)
  note s = component_comparator_text [OF assms(1), of subject t1 p1 SUBJECT t2 p2]
    component_comparator_text [OF assms(1), of predicate t1 p1 PREDICATE t2 p2]
    component_comparator_text [OF assms(1), of object t1 p1 OBJECT t2 p2]
  note c = s [THEN string_compare_sgn(1)] s [THEN string_compare_sgn(2)]
  note defs = compare_with_def get_triple_comparator_def tc_new_def subject_comparator_def predicate_comparator_def
    object_comparator_def key_of_def text_of_def subject_string_def predicate_string_def object_string_def Let_def
  show "compare_with (get_triple_comparator q a b) t1 t2 d1 d2 = 0 \<longleftrightarrow> key_of q d1 t1 = key_of q d2 t2"
    using d by (cases q) (auto simp: defs c known_keys_def)
  show "compare_with (get_triple_comparator q a b) t1 t2 d1 d2 < 0 \<longleftrightarrow> key_of q d1 t1 < key_of q d2 t2"
    using d by (cases q) (auto simp: defs c known_keys_def)
qed

section \<open>Lists of deltas\<close>

type_synonym delta = "(nat \<times> dictionary_manager) triple_delta"

definition delta_text :: "delta \<Rightarrow> spelling" where
  "delta_text d = text_of (td_dict d) (td_triple d)"

definition delta_key :: "component_order \<Rightarrow> delta \<Rightarrow> spelling" where
  "delta_key q d = key_of q (td_dict d) (td_triple d)"

lemma delta_key_text: "delta_key q d = in_order q (delta_text d)"
  by (simp add: delta_key_def delta_text_def key_of_def)

text \<open>A list leads from a version to another, sets of triples in strings: it has the triples of the second
  that are not in the first as additions and those of the first that are not in the second as deletions, each
  once, in order.\<close>

definition leads :: "component_order \<Rightarrow> (nat \<Rightarrow> dictionary_manager) \<Rightarrow> delta list \<Rightarrow> spelling set \<Rightarrow> spelling set \<Rightarrow> bool" where
  "leads q heap ds A B \<longleftrightarrow> ascending (delta_key q) ds \<and> (\<forall>d\<in>set ds. located heap (td_dict d) (td_triple d)) \<and>
     delta_text ` {d \<in> set ds. td_addition d} = B - A \<and> delta_text ` {d \<in> set ds. \<not> td_addition d} = A - B"

lemma delta_agrees:
  assumes "managers_ok heap" "\<forall>d\<in>D. located heap (td_dict d) (td_triple d)" "\<forall>d\<in>E. located heap (td_dict d) (td_triple d)"
  shows "agrees (compare_triple_delta (get_triple_comparator q a b)) (delta_key q) (delta_key q) D E"
  using compare_with_text [OF assms(1)] assms(2,3) by (simp add: agrees_def compare_triple_delta_def delta_key_def)

text \<open>The triples of a version, listed in order under a dictionary.\<close>

definition holds :: "component_order \<Rightarrow> (nat \<Rightarrow> dictionary_manager) \<Rightarrow> dict_ptr \<Rightarrow> triple list \<Rightarrow> spelling set \<Rightarrow> bool" where
  "holds q heap d ts A \<longleftrightarrow> ascending (key_of q d) ts \<and> (\<forall>t\<in>set ts. located heap d t) \<and> text_of d ` set ts = A"

lemma key_of_image: "key_of q d t \<in> key_of q d' ` T \<longleftrightarrow> text_of d t \<in> text_of d' ` T"
  by (auto simp: key_of_def image_iff)

lemma delta_key_image: "delta_key q d \<in> delta_key q ` D \<longleftrightarrow> delta_text d \<in> delta_text ` D"
  by (auto simp: delta_key_text image_iff)

text \<open>The difference of two versions.\<close>

definition deleted :: "dict_ptr \<Rightarrow> triple \<Rightarrow> delta" where
  "deleted d t = \<lparr> td_triple = t, td_addition = False, td_dict = d \<rparr>"

definition added :: "dict_ptr \<Rightarrow> triple \<Rightarrow> delta" where
  "added d t = \<lparr> td_triple = t, td_addition = True, td_dict = d \<rparr>"

lemma delta_of_triple [simp]:
  "delta_key q (deleted d t) = key_of q d t" "delta_key q (added d t) = key_of q d t"
  "delta_text (deleted d t) = text_of d t" "delta_text (added d t) = text_of d t"
  "td_addition (added d t)" "\<not> td_addition (deleted d t)"
  "td_dict (deleted d t) = d" "td_dict (added d t) = d" "td_triple (deleted d t) = t" "td_triple (added d t) = t"
  by (simp_all add: delta_key_def delta_text_def deleted_def added_def)

definition difference :: "triple_comparator \<Rightarrow> dict_ptr \<Rightarrow> dict_ptr \<Rightarrow> triple list \<Rightarrow> triple list \<Rightarrow> delta list" where
  "difference c d1 d2 = merge_lists (\<lambda>t1 t2. compare_with c t1 t2 d1 d2) (deleted d1) (added d2) (\<lambda>_ _. None)"

text \<open>One list of deltas after another: where both have a triple with different signs it is left out.\<close>

definition compose :: "triple_comparator \<Rightarrow> delta list \<Rightarrow> delta list \<Rightarrow> delta list" where
  "compose c = merge_lists (compare_triple_delta c) (\<lambda>d. d) (\<lambda>d. d)
     (\<lambda>d1 d2. if td_addition d1 = td_addition d2 then Some d2 else None)"

text \<open>The first list backwards and then the second.\<close>

definition invert :: "delta \<Rightarrow> delta" where
  "invert d = d\<lparr> td_addition := \<not> td_addition d \<rparr>"

definition compose_inverse :: "triple_comparator \<Rightarrow> delta list \<Rightarrow> delta list \<Rightarrow> delta list" where
  "compose_inverse c = merge_lists (compare_triple_delta c) invert (\<lambda>d. d) (\<lambda>_ _. None)"

lemma invert_simps [simp]:
  "delta_key q (invert d) = delta_key q d" "delta_text (invert d) = delta_text d"
  "td_addition (invert d) \<longleftrightarrow> \<not> td_addition d" "td_dict (invert d) = td_dict d" "td_triple (invert d) = td_triple d"
  by (simp_all add: invert_def delta_key_def delta_text_def)

lemma leadsD:
  assumes "leads q heap ds A B"
  shows "ascending (delta_key q) ds" "\<forall>d\<in>set ds. located heap (td_dict d) (td_triple d)"
    "d \<in> set ds \<Longrightarrow> td_addition d \<Longrightarrow> delta_text d \<in> B - A" "d \<in> set ds \<Longrightarrow> \<not> td_addition d \<Longrightarrow> delta_text d \<in> A - B"
    "t \<in> B - A \<Longrightarrow> \<exists>d\<in>set ds. td_addition d \<and> delta_text d = t"
    "t \<in> A - B \<Longrightarrow> \<exists>d\<in>set ds. \<not> td_addition d \<and> delta_text d = t"
proof -
  note l = assms [unfolded leads_def]
  show "ascending (delta_key q) ds" "\<forall>d\<in>set ds. located heap (td_dict d) (td_triple d)" using l by auto
  show "d \<in> set ds \<Longrightarrow> td_addition d \<Longrightarrow> delta_text d \<in> B - A" "d \<in> set ds \<Longrightarrow> \<not> td_addition d \<Longrightarrow> delta_text d \<in> A - B"
    using l by blast+
  show "t \<in> B - A \<Longrightarrow> \<exists>d\<in>set ds. td_addition d \<and> delta_text d = t"
    "t \<in> A - B \<Longrightarrow> \<exists>d\<in>set ds. \<not> td_addition d \<and> delta_text d = t"
    using l by (metis (mono_tags, lifting) imageE mem_Collect_eq)+
qed

lemma leads_texts: "leads q heap ds A B \<Longrightarrow> delta_text ` set ds = (B - A) \<union> (A - B)"
  using leadsD(3-6) [of q heap ds A B] by (auto simp: image_iff) metis+

lemma leadsI:
  assumes "ascending (delta_key q) ds" "\<forall>d\<in>set ds. located heap (td_dict d) (td_triple d)"
    "\<And>d. d \<in> set ds \<Longrightarrow> if td_addition d then delta_text d \<in> B - A else delta_text d \<in> A - B"
    "\<And>t. t \<in> (B - A) \<union> (A - B) \<Longrightarrow> t \<in> delta_text ` set ds"
  shows "leads q heap ds A B"
proof -
  have "delta_text ` {d \<in> set ds. td_addition d} = B - A"
    using assms(3,4) by (auto simp: image_iff) (metis Diff_iff)+
  moreover have "delta_text ` {d \<in> set ds. \<not> td_addition d} = A - B"
    using assms(3,4) by (auto simp: image_iff) (metis Diff_iff)+
  ultimately show ?thesis using assms(1,2) by (simp add: leads_def)
qed

lemma difference_leads:
  assumes "managers_ok heap" "holds q heap d1 xs A" "holds q heap d2 ys B"
  shows "leads q heap (difference (get_triple_comparator q a b) d1 d2 xs ys) A B"
proof -
  note h = assms(2,3) [unfolded holds_def]
  have ag: "agrees (\<lambda>t1 t2. compare_with (get_triple_comparator q a b) t1 t2 d1 d2) (key_of q d1) (key_of q d2) (set xs) (set ys)"
    using compare_with_text [OF assms(1)] h by (simp add: agrees_def)
  have s: "set (difference (get_triple_comparator q a b) d1 d2 xs ys) =
      deleted d1 ` {t \<in> set xs. text_of d1 t \<notin> B} \<union> added d2 ` {t \<in> set ys. text_of d2 t \<notin> A}"
    unfolding difference_def set_merge_lists [OF ag h(1) [THEN conjunct1] h(2) [THEN conjunct1]] key_of_image
      h(1) [THEN conjunct2, THEN conjunct2] h(2) [THEN conjunct2, THEN conjunct2] by simp
  show ?thesis
  proof (rule leadsI)
    show "ascending (delta_key q) (difference (get_triple_comparator q a b) d1 d2 xs ys)"
      unfolding difference_def using h by (intro ascending_merge_lists [OF ag]) simp_all
    show "\<forall>d\<in>set (difference (get_triple_comparator q a b) d1 d2 xs ys). located heap (td_dict d) (td_triple d)"
      using h by (auto simp: s)
    show "if td_addition d then delta_text d \<in> B - A else delta_text d \<in> A - B"
      if "d \<in> set (difference (get_triple_comparator q a b) d1 d2 xs ys)" for d
      using that h by (auto simp: s)
    show "t \<in> delta_text ` set (difference (get_triple_comparator q a b) d1 d2 xs ys)"
      if "t \<in> (B - A) \<union> (A - B)" for t
    proof (cases "t \<in> A")
      case True
      then obtain x where x: "x \<in> set xs" "text_of d1 x = t" using h by auto
      then have "deleted d1 x \<in> set (difference (get_triple_comparator q a b) d1 d2 xs ys)" using that True by (simp add: s)
      then show ?thesis by (rule rev_image_eqI) (simp add: x)
    next
      case False
      then have "t \<in> text_of d2 ` set ys" using that h by auto
      then obtain y where y: "y \<in> set ys" "text_of d2 y = t" by blast
      then have "added d2 y \<in> set (difference (get_triple_comparator q a b) d1 d2 xs ys)" using that False by (simp add: s)
      then show ?thesis by (rule rev_image_eqI) (simp add: y)
    qed
  qed
qed

lemma compose_leads:
  assumes "managers_ok heap" "leads q heap xs A B" "leads q heap ys B C"
  shows "leads q heap (compose (get_triple_comparator q a b) xs ys) A C"
proof -
  note l = leadsD [OF assms(2)] and m = leadsD [OF assms(3)]
  note ag = delta_agrees [OF assms(1) l(2) m(2), of q a b]
  have s: "set (compose (get_triple_comparator q a b) xs ys) =
      {d \<in> set xs. delta_text d \<notin> (C - B) \<union> (B - C)} \<union> {d \<in> set ys. delta_text d \<notin> (B - A) \<union> (A - B)}"
  proof -
    have "td_addition x \<noteq> td_addition y" if "x \<in> set xs" "y \<in> set ys" "delta_key q x = delta_key q y" for x y
      using l(3,4) [OF that(1)] m(3,4) [OF that(2)] that(3) by (auto simp: delta_key_text)
    then have "{c. \<exists>x\<in>set xs. \<exists>y\<in>set ys. delta_key q x = delta_key q y \<and>
        (if td_addition x = td_addition y then Some y else None) = Some c} = {}"
      by auto
    then show ?thesis
      unfolding compose_def set_merge_lists [OF ag l(1) m(1)] delta_key_image
        leads_texts [OF assms(2)] leads_texts [OF assms(3)] by (simp only: image_ident Un_empty_right)
  qed
  show ?thesis
  proof (rule leadsI)
    show "ascending (delta_key q) (compose (get_triple_comparator q a b) xs ys)"
      unfolding compose_def by (intro ascending_merge_lists [OF ag l(1) m(1)]) (auto split: if_splits)
    show "\<forall>d\<in>set (compose (get_triple_comparator q a b) xs ys). located heap (td_dict d) (td_triple d)"
      using l(2) m(2) by (auto simp: s)
    show "if td_addition d then delta_text d \<in> C - A else delta_text d \<in> A - C"
      if "d \<in> set (compose (get_triple_comparator q a b) xs ys)" for d
      using that l(3,4) [of d] m(3,4) [of d] by (auto simp: s)
    show "t \<in> delta_text ` set (compose (get_triple_comparator q a b) xs ys)" if "t \<in> (C - A) \<union> (A - C)" for t
    proof (cases "t \<in> B")
      case True
      then show ?thesis using that l(5) [of t] m(6) [of t] by (auto simp: s image_iff)
    next
      case False
      then show ?thesis using that l(6) [of t] m(5) [of t] by (auto simp: s image_iff)
    qed
  qed
qed

lemma compose_inverse_leads:
  assumes "managers_ok heap" "leads q heap xs A B" "leads q heap ys A C"
  shows "leads q heap (compose_inverse (get_triple_comparator q a b) xs ys) B C"
proof -
  note l = leadsD [OF assms(2)] and m = leadsD [OF assms(3)]
  note ag = delta_agrees [OF assms(1) l(2) m(2), of q a b]
  have s: "set (compose_inverse (get_triple_comparator q a b) xs ys) =
      invert ` {d \<in> set xs. delta_text d \<notin> (C - A) \<union> (A - C)} \<union> {d \<in> set ys. delta_text d \<notin> (B - A) \<union> (A - B)}"
    unfolding compose_inverse_def set_merge_lists [OF ag l(1) m(1)] delta_key_image
      leads_texts [OF assms(2)] leads_texts [OF assms(3)] by simp
  show ?thesis
  proof (rule leadsI)
    show "ascending (delta_key q) (compose_inverse (get_triple_comparator q a b) xs ys)"
      unfolding compose_inverse_def by (intro ascending_merge_lists [OF ag l(1) m(1)]) auto
    show "\<forall>d\<in>set (compose_inverse (get_triple_comparator q a b) xs ys). located heap (td_dict d) (td_triple d)"
      using l(2) m(2) by (auto simp: s)
    show "if td_addition d then delta_text d \<in> C - B else delta_text d \<in> B - C"
      if "d \<in> set (compose_inverse (get_triple_comparator q a b) xs ys)" for d
      using that l(3,4) m(3,4) [of d] by (auto simp: s)
    show "t \<in> delta_text ` set (compose_inverse (get_triple_comparator q a b) xs ys)" if t: "t \<in> (C - B) \<union> (B - C)" for t
    proof (cases "t \<in> (B - A) \<union> (A - B)")
      case True
      then obtain d where d: "d \<in> set xs" "delta_text d = t" using l(5,6) [of t] by blast
      then have "invert d \<in> set (compose_inverse (get_triple_comparator q a b) xs ys)"
        unfolding s using True t by blast
      then show ?thesis by (rule rev_image_eqI) (simp add: d)
    next
      case False
      then have "t \<in> (C - A) \<union> (A - C)" using t by blast
      then obtain d where d: "d \<in> set ys" "delta_text d = t" using m(5,6) [of t] by blast
      then have "d \<in> set (compose_inverse (get_triple_comparator q a b) xs ys)" unfolding s using False by blast
      then show ?thesis by (rule rev_image_eqI) (simp add: d)
    qed
  qed
qed

end
