(* ===== verification/Versions_Iterators.thy ===== *)
theory Versions_Iterators
  imports Delta_Semantics
begin

text \<open>
  The iterators over triples with the versions they are in, \<open>controller/triple_versions_iterator.{h,cc}\<close>: over one
  delta chain (\<open>PatchTreeTripleVersionsIterator\<close> and its second form), sorted, merged, and combined over several
  chains. \<open>kc\<close> holds the operations of the databases, \<open>has_next\<close> and \<open>hdt_next\<close> those of an HDT iterator.
\<close>

section \<open>Vectors of versions\<close>

type_synonym versions = "(nat \<times> dictionary_manager) triple_versions"

text \<open>\<open>std::iota\<close> over a vector of the given size, which is an unsigned number.\<close>

definition iota_from :: "int \<Rightarrow> int \<Rightarrow> int list outcome" where
  "iota_from sz value = (if sz < 0 then Inl Length_error else Inr [value..value + sz - 1])"

text \<open>Erasing \<open>std::equal_range\<close>: from the first element that is not less to the first that is greater.\<close>

definition erase_equal_range :: "int \<Rightarrow> int list \<Rightarrow> int list" where
  "erase_equal_range x vs = takeWhile (\<lambda>v. v < x) vs @ dropWhile (\<lambda>v. v \<le> x) (dropWhile (\<lambda>v. v < x) vs)"

text \<open>\<open>std::merge\<close>, \<open>std::unique\<close> (which is \<open>remdups_adj\<close>) and \<open>std::set_union\<close>.\<close>

fun std_merge :: "int list \<Rightarrow> int list \<Rightarrow> int list" where
  "std_merge [] ys = ys"
| "std_merge (x # xs) [] = x # xs"
| "std_merge (x # xs) (y # ys) = (if y < x then y # std_merge (x # xs) ys else x # std_merge xs (y # ys))"

fun set_union :: "int list \<Rightarrow> int list \<Rightarrow> int list" where
  "set_union [] ys = ys"
| "set_union (x # xs) [] = x # xs"
| "set_union (x # xs) (y # ys) =
     (if x < y then x # set_union xs (y # ys)
      else if y < x then y # set_union (x # xs) ys else x # set_union xs ys)"

definition merge_versions :: "int list \<Rightarrow> int list \<Rightarrow> int list" where
  "merge_versions v1 v2 = remdups_adj (std_merge v1 v2)"

section \<open>The versions of a triple\<close>

text \<open>The loop over the elements of the deletion value.\<close>

fun erase_loop :: "deletion_value \<Rightarrow> int \<Rightarrow> nat \<Rightarrow> int list \<Rightarrow> int list outcome" where
  "erase_loop deletion v_del 0 vs = Inr vs"
| "erase_loop deletion v_del (Suc n) vs =
     bind_outcome (dv_get_patch_at True v_del deletion) (\<lambda>element.
       erase_loop deletion (v_del + 1) n (erase_equal_range (el_patch_id element) vs))"

definition erase_deleted_versions ::
  "('t, 'c, 'h) kyoto \<Rightarrow> ('t, 'c, 'h) patch_tree option \<Rightarrow> triple \<Rightarrow> int \<Rightarrow> int list outcome" where
  "erase_deleted_versions kc patch_tree current_triple initial_version =
     (case patch_tree of
        None \<Rightarrow> Inr [initial_version]
      | Some pt \<Rightarrow>
          bind_outcome (get_deletion_value kc current_triple pt) (\<lambda>deletion.
          bind_outcome (iota_from (pt_max_patch_id pt + 1 - initial_version) initial_version) (\<lambda>vs.
            case deletion of
              None \<Rightarrow> Inr vs
            | Some deletion \<Rightarrow> erase_loop deletion 0 (nat (dv_get_size deletion)) vs)))"

section \<open>One delta chain\<close>

record ('t, 'c, 'h, 's) chain_versions_iterator =
  cvi_triple_pattern :: triple
  cvi_snapshot_it :: "'s option"
  cvi_patch_tree :: "('t, 'c, 'h) patch_tree option"
  cvi_addition_it :: "'t patch_tree_iterator option"
  cvi_first_version :: int
  cvi_dict :: dict_ptr

definition cvi_new ::
  "triple \<Rightarrow> 's option \<Rightarrow> ('t, 'c, 'h) patch_tree option \<Rightarrow> int \<Rightarrow> dict_ptr \<Rightarrow> ('t, 'c, 'h, 's) chain_versions_iterator" where
  "cvi_new triple_pattern snapshot_it patch_tree first_version dictionary =
     \<lparr> cvi_triple_pattern = triple_pattern, cvi_snapshot_it = snapshot_it, cvi_patch_tree = patch_tree,
       cvi_addition_it = None, cvi_first_version = first_version, cvi_dict = dictionary \<rparr>"

text \<open>The next addition that was not part of the snapshot: the first version of one that was is a local
  change.\<close>

fun next_new_addition ::
  "'t tree_db \<Rightarrow> nat \<Rightarrow> triple \<Rightarrow> addition_value \<Rightarrow> 't patch_tree_iterator \<Rightarrow>
   (bool \<times> triple \<times> addition_value \<times> 't patch_tree_iterator) outcome" where
  "next_new_addition db 0 key value it = Inl Diverges"
| "next_new_addition db (Suc fuel) key value it =
     bind_outcome (next_addition db fuel key value it) (\<lambda>(b, key, value, it).
       if \<not> b then Inr (False, key, value, it)
       else bind_outcome (av_is_local_change (av_get_patch_id_at 0 value) value) (\<lambda>local_change.
         if \<not> local_change then Inr (True, key, value, it) else next_new_addition db fuel key value it))"

definition cvi_next ::
  "('t, 'c, 'h) kyoto \<Rightarrow> 's has_next_fun \<Rightarrow> (triple, 's) hdt_next_fun \<Rightarrow> nat \<Rightarrow>
   (versions, ('t, 'c, 'h, 's) chain_versions_iterator) next_fun" where
  "cvi_next kc has_next hdt_next fuel tv it =
     (let tv = tv\<lparr> tvs_dict := cvi_dict it \<rparr>;
          additions = (case cvi_patch_tree it of
             None \<Rightarrow> Inr (False, tv, it)
           | Some pt \<Rightarrow>
               (let addition_it = (case cvi_addition_it it of
                      None \<Rightarrow> addition_iterator kc (cvi_triple_pattern it) pt | Some a \<Rightarrow> a) in
                bind_outcome (next_new_addition (kc_tree kc) fuel (tvs_triple tv) (av_new (pt_max_patch_id pt)) addition_it)
                  (\<lambda>(b, key, value, addition_it).
                let it = it\<lparr> cvi_addition_it := Some addition_it \<rparr>; tv = tv\<lparr> tvs_triple := key \<rparr> in
                if b then
                  bind_outcome (erase_deleted_versions kc (cvi_patch_tree it) key (av_get_patch_id_at 0 value)) (\<lambda>vs.
                    Inr (True, tv\<lparr> tvs_versions := vs \<rparr>, it))
                else Inr (False, tv, it)))) in
      case cvi_snapshot_it it of
        None \<Rightarrow> additions
      | Some s \<Rightarrow>
          if has_next s then
            bind_outcome (hdt_next s) (\<lambda>(t, s).
            bind_outcome (erase_deleted_versions kc (cvi_patch_tree it) t (cvi_first_version it)) (\<lambda>vs.
              Inr (True, tv\<lparr> tvs_triple := t, tvs_versions := vs \<rparr>, it\<lparr> cvi_snapshot_it := Some s \<rparr>)))
          else additions)"

section \<open>One delta chain in order\<close>

record ('t, 'c, 'h, 's) chain_merge_iterator =
  cmi_snapshot_it :: 's
  cmi_patch_tree :: "('t, 'c, 'h) patch_tree option"
  cmi_addition_it :: "'t patch_tree_iterator option"
  cmi_first_version :: int
  cmi_dict :: dict_ptr
  cmi_comparator :: triple_comparator
  cmi_t1 :: triple
  cmi_status1 :: bool
  cmi_value :: addition_value
  cmi_t2 :: triple
  cmi_status2 :: bool

definition cmi_step_snapshot ::
  "'s has_next_fun \<Rightarrow> (triple, 's) hdt_next_fun \<Rightarrow> ('t, 'c, 'h, 's) chain_merge_iterator \<Rightarrow>
   ('t, 'c, 'h, 's) chain_merge_iterator outcome" where
  "cmi_step_snapshot has_next hdt_next it =
     (if has_next (cmi_snapshot_it it)
      then bind_outcome (hdt_next (cmi_snapshot_it it)) (\<lambda>(t, s).
             Inr (it\<lparr> cmi_snapshot_it := s, cmi_t1 := t, cmi_status1 := True \<rparr>))
      else Inr (it\<lparr> cmi_status1 := False \<rparr>))"

definition cmi_step_addition ::
  "'t tree_db \<Rightarrow> nat \<Rightarrow> ('t, 'c, 'h, 's) chain_merge_iterator \<Rightarrow> ('t, 'c, 'h, 's) chain_merge_iterator outcome" where
  "cmi_step_addition db fuel it =
     (case cmi_addition_it it of
        None \<Rightarrow> Inl Undefined_behaviour
      | Some a \<Rightarrow> bind_outcome (next_addition db fuel (cmi_t2 it) (cmi_value it) a) (\<lambda>(b, key, value, a).
          Inr (it\<lparr> cmi_status2 := b, cmi_t2 := key, cmi_value := value, cmi_addition_it := Some a \<rparr>)))"

text \<open>The value without a patch tree is a null pointer, which is not read then.\<close>

definition cmi_new ::
  "('t, 'c, 'h) kyoto \<Rightarrow> 's has_next_fun \<Rightarrow> (triple, 's) hdt_next_fun \<Rightarrow> nat \<Rightarrow> triple \<Rightarrow> 's \<Rightarrow>
   ('t, 'c, 'h) patch_tree option \<Rightarrow> int \<Rightarrow> dict_ptr \<Rightarrow> ('t, 'c, 'h, 's) chain_merge_iterator outcome" where
  "cmi_new kc has_next hdt_next fuel triple_pattern snapshot_it patch_tree first_version dictionary =
     bind_outcome (cmi_step_snapshot has_next hdt_next
       \<lparr> cmi_snapshot_it = snapshot_it, cmi_patch_tree = patch_tree, cmi_addition_it = None,
         cmi_first_version = first_version, cmi_dict = dictionary,
         cmi_comparator = get_triple_comparator (get_query_order triple_pattern) dictionary dictionary,
         cmi_t1 = default_triple, cmi_status1 = False, cmi_value = av_new 0, cmi_t2 = default_triple,
         cmi_status2 = False \<rparr>) (\<lambda>it.
     case patch_tree of
       None \<Rightarrow> Inr it
     | Some pt \<Rightarrow>
         cmi_step_addition (kc_tree kc) fuel
           (it\<lparr> cmi_addition_it := Some (addition_iterator kc triple_pattern pt),
                cmi_value := av_new (pt_max_patch_id pt) \<rparr>))"

text \<open>When one side is at its end, the code also computes the string of the triple, which it does not use:
  that dereferences the dictionary.\<close>

definition cmi_next ::
  "('t, 'c, 'h) kyoto \<Rightarrow> 's has_next_fun \<Rightarrow> (triple, 's) hdt_next_fun \<Rightarrow> nat \<Rightarrow>
   (versions, ('t, 'c, 'h, 's) chain_merge_iterator) next_fun" where
  "cmi_next kc has_next hdt_next fuel tv it =
     (let tv = tv\<lparr> tvs_dict := cmi_dict it \<rparr>;
          emit = (\<lambda>t version. bind_outcome (erase_deleted_versions kc (cmi_patch_tree it) t version) (\<lambda>vs.
                    Inr (tv\<lparr> tvs_triple := t, tvs_versions := vs \<rparr>)));
          emit_snapshot = (\<lambda>_::unit. emit (cmi_t1 it) (cmi_first_version it));
          emit_addition = (\<lambda>_::unit. emit (cmi_t2 it) (av_get_patch_id_at 0 (cmi_value it)));
          compared = tc_compare (cmi_comparator it) (cmi_t1 it) (cmi_t2 it) in
      if cmi_status1 it \<and> cmi_status2 it \<and> compared = 0 then
        bind_outcome (emit_snapshot ()) (\<lambda>tv.
        bind_outcome (cmi_step_snapshot has_next hdt_next it) (\<lambda>it.
        bind_outcome (cmi_step_addition (kc_tree kc) fuel it) (\<lambda>it. Inr (True, tv, it))))
      else if cmi_status1 it \<noteq> cmi_status2 it \<and> cmi_dict it = None then Inl Undefined_behaviour
      else if cmi_status1 it \<and> (\<not> cmi_status2 it \<or> compared < 0) then
        bind_outcome (emit_snapshot ()) (\<lambda>tv.
        bind_outcome (cmi_step_snapshot has_next hdt_next it) (\<lambda>it. Inr (True, tv, it)))
      else if cmi_status2 it then
        bind_outcome (emit_addition ()) (\<lambda>tv.
        bind_outcome (cmi_step_addition (kc_tree kc) fuel it) (\<lambda>it. Inr (True, tv, it)))
      else Inr (False, tv, it))"

section \<open>Two iterators merged\<close>

record ('s, 'r) merged_versions_iterator =
  mvi_it1 :: 's
  mvi_it2 :: 'r
  mvi_t1 :: versions
  mvi_t2 :: versions
  mvi_status1 :: bool
  mvi_status2 :: bool
  mvi_comparator :: triple_comparator

definition mvi_new ::
  "(versions, 's) next_fun \<Rightarrow> (versions, 'r) next_fun \<Rightarrow> 's \<Rightarrow> 'r \<Rightarrow> component_order \<Rightarrow>
   ('s, 'r) merged_versions_iterator outcome" where
  "mvi_new n1 n2 iterator1 iterator2 triple_order =
     bind_outcome (n1 default_triple_versions iterator1) (\<lambda>(status1, t1, it1).
     bind_outcome (n2 default_triple_versions iterator2) (\<lambda>(status2, t2, it2).
       Inr \<lparr> mvi_it1 = it1, mvi_it2 = it2, mvi_t1 = t1, mvi_t2 = t2, mvi_status1 = status1, mvi_status2 = status2,
             mvi_comparator = get_triple_comparator triple_order (tvs_dict t1) (tvs_dict t2) \<rparr>))"

definition mvi_step1 ::
  "(versions, 's) next_fun \<Rightarrow> ('s, 'r) merged_versions_iterator \<Rightarrow> ('s, 'r) merged_versions_iterator outcome" where
  "mvi_step1 n1 m =
     bind_outcome (n1 (mvi_t1 m) (mvi_it1 m)) (\<lambda>(b, t, s). Inr (m\<lparr> mvi_status1 := b, mvi_t1 := t, mvi_it1 := s \<rparr>))"

definition mvi_step2 ::
  "(versions, 'r) next_fun \<Rightarrow> ('s, 'r) merged_versions_iterator \<Rightarrow> ('s, 'r) merged_versions_iterator outcome" where
  "mvi_step2 n2 m =
     bind_outcome (n2 (mvi_t2 m) (mvi_it2 m)) (\<lambda>(b, t, s). Inr (m\<lparr> mvi_status2 := b, mvi_t2 := t, mvi_it2 := s \<rparr>))"

definition mvi_next ::
  "(versions, 's) next_fun \<Rightarrow> (versions, 'r) next_fun \<Rightarrow> (versions, ('s, 'r) merged_versions_iterator) next_fun" where
  "mvi_next n1 n2 tv m =
     (let compared = tc_compare (mvi_comparator m) (tvs_triple (mvi_t1 m)) (tvs_triple (mvi_t2 m)) in
      if \<not> mvi_status1 m \<and> \<not> mvi_status2 m then Inr (False, tv, m)
      else if mvi_status1 m \<and> (\<not> mvi_status2 m \<or> compared < 0) then
        bind_outcome (mvi_step1 n1 m) (\<lambda>m'. Inr (True, mvi_t1 m, m'))
      else if mvi_status2 m \<and> (\<not> mvi_status1 m \<or> compared > 0) then
        bind_outcome (mvi_step2 n2 m) (\<lambda>m'. Inr (True, mvi_t2 m, m'))
      else
        (let v = merge_versions (tvs_versions (mvi_t1 m)) (tvs_versions (mvi_t2 m)) in
         bind_outcome (mvi_step1 n1 m) (\<lambda>m'.
         bind_outcome (mvi_step2 n2 m') (\<lambda>m'. Inr (True, (mvi_t1 m)\<lparr> tvs_versions := v \<rparr>, m')))))"

section \<open>An iterator sorted\<close>

record sorted_versions_iterator =
  svi_triples :: "versions list"
  svi_pos :: nat

text \<open>Every call gets the element of the last one.\<close>

fun take_versions :: "(versions, 's) next_fun \<Rightarrow> nat \<Rightarrow> versions \<Rightarrow> 's \<Rightarrow> versions list outcome" where
  "take_versions nxt 0 tv it = Inl Diverges"
| "take_versions nxt (Suc fuel) tv it =
     bind_outcome (nxt tv it) (\<lambda>(b, tv, it).
       if b then bind_outcome (take_versions nxt fuel tv it) (\<lambda>tvs. Inr (tv # tvs)) else Inr [])"

definition svi_new ::
  "(versions, 's) next_fun \<Rightarrow> nat \<Rightarrow> 's \<Rightarrow> component_order \<Rightarrow> sorted_versions_iterator outcome" where
  "svi_new nxt fuel iterator order =
     bind_outcome (take_versions nxt fuel default_triple_versions iterator) (\<lambda>triples.
       Inr \<lparr> svi_triples = std_sort (less_triple_versions (get_triple_comparator order None None)) triples, svi_pos = 0 \<rparr>)"

definition svi_next :: "(versions, sorted_versions_iterator) next_fun" where
  "svi_next tv it =
     Inr (if svi_pos it \<ge> length (svi_triples it) then (False, tv, it)
          else (True, svi_triples it ! svi_pos it, it\<lparr> svi_pos := svi_pos it + 1 \<rparr>))"

definition svi_get_count :: "sorted_versions_iterator \<Rightarrow> nat" where
  "svi_get_count it = length (svi_triples it)"

text \<open>The position is unsigned: a negative sum is past the end.\<close>

definition svi_offset :: "int \<Rightarrow> sorted_versions_iterator \<Rightarrow> sorted_versions_iterator" where
  "svi_offset offset it =
     (let pos = int (svi_pos it) + offset in it\<lparr> svi_pos := if pos < 0 then nat (2 ^ 64 + pos) else nat pos \<rparr>)"

section \<open>Iterators combined\<close>

text \<open>The triples of the iterators added, in order; the same representation serves \<open>std::set\<close> in the first form
  and \<open>std::vector\<close> in the second.\<close>

record combined_versions_iterator =
  cbi_comparator :: triple_comparator
  cbi_triples :: "versions list"
  cbi_triples_it :: nat

definition cbi_new :: "component_order \<Rightarrow> combined_versions_iterator" where
  "cbi_new order = \<lparr> cbi_comparator = get_triple_comparator order None None, cbi_triples = [], cbi_triples_it = 0 \<rparr>"

definition cbi_next :: "(versions, combined_versions_iterator) next_fun" where
  "cbi_next tv it =
     Inr (if cbi_triples_it it \<ge> length (cbi_triples it) then (False, tv, it)
          else (True, cbi_triples it ! cbi_triples_it it, it\<lparr> cbi_triples_it := cbi_triples_it it + 1 \<rparr>))"

definition cbi_get_count :: "combined_versions_iterator \<Rightarrow> nat" where
  "cbi_get_count it = length (cbi_triples it)"

text \<open>The offset is compared with the size as an unsigned number.\<close>

definition cbi_offset :: "int \<Rightarrow> combined_versions_iterator \<Rightarrow> combined_versions_iterator outcome" where
  "cbi_offset offset it =
     (let n = length (cbi_triples it) in
      if offset < 0 \<or> offset > int n then Inr (it\<lparr> cbi_triples_it := n \<rparr>)
      else if cbi_triples_it it + nat offset \<le> n then Inr (it\<lparr> cbi_triples_it := cbi_triples_it it + nat offset \<rparr>)
      else Inl Undefined_behaviour)"

text \<open>\<open>add_iterator\<close> of \<open>TripleVersionsIteratorCombined\<close>: find the triple in the set, and merge the versions
  into it or insert it.\<close>

definition cbi_put :: "triple_comparator \<Rightarrow> versions \<Rightarrow> versions list \<Rightarrow> versions list" where
  "cbi_put c t triples =
     (let pos = lower_bound (\<lambda>e. less_triple_versions c e t) triples in
      if pos \<noteq> length triples \<and> \<not> less_triple_versions c t (triples ! pos)
      then triples[pos := (triples ! pos)\<lparr> tvs_versions := merge_versions (tvs_versions t) (tvs_versions (triples ! pos)) \<rparr>]
      else insert_at pos t triples)"

fun cbi_loop ::
  "(versions, 's) next_fun \<Rightarrow> nat \<Rightarrow> triple_comparator \<Rightarrow> versions \<Rightarrow> 's \<Rightarrow> versions list \<Rightarrow> versions list outcome" where
  "cbi_loop nxt 0 c t it triples = Inl Diverges"
| "cbi_loop nxt (Suc fuel) c t it triples =
     bind_outcome (nxt t it) (\<lambda>(b, t, it).
       if b then cbi_loop nxt fuel c t it (cbi_put c t triples) else Inr triples)"

definition cbi_add_iterator ::
  "(versions, 's) next_fun \<Rightarrow> nat \<Rightarrow> 's \<Rightarrow> combined_versions_iterator \<Rightarrow> combined_versions_iterator outcome" where
  "cbi_add_iterator nxt fuel it c =
     bind_outcome (cbi_loop nxt fuel (cbi_comparator c) default_triple_versions it (cbi_triples c)) (\<lambda>triples.
       Inr (c\<lparr> cbi_triples := triples, cbi_triples_it := 0 \<rparr>))"

text \<open>\<open>add_iterator\<close> of \<open>TripleVersionsIteratorCombinedV2\<close>: one pass over the vector and the iterator, which is
  expected to be sorted. \<open>std::lower_bound\<close> from a position on.\<close>

definition lower_bound_from :: "nat \<Rightarrow> ('a \<Rightarrow> bool) \<Rightarrow> 'a list \<Rightarrow> nat" where
  "lower_bound_from pos lt xs = pos + lower_bound lt (drop pos xs)"

fun cb2_loop ::
  "(versions, 's) next_fun \<Rightarrow> nat \<Rightarrow> triple_comparator \<Rightarrow> bool \<Rightarrow> versions \<Rightarrow> 's \<Rightarrow> nat \<Rightarrow> versions list \<Rightarrow>
   versions list outcome" where
  "cb2_loop nxt 0 c status t it pos triples = Inl Diverges"
| "cb2_loop nxt (Suc fuel) c status t it pos triples =
     (if \<not> status then Inr triples
      else if pos \<noteq> length triples then
        (let compared = compare_triple_versions c t (triples ! pos) in
         if compared = 0 then
           (let nv = set_union (tvs_versions (triples ! pos)) (tvs_versions t);
                triples = triples[pos := (triples ! pos)\<lparr> tvs_versions := nv \<rparr>] in
            bind_outcome (nxt t it) (\<lambda>(status, t, it). cb2_loop nxt fuel c status t it (pos + 1) triples))
         else if compared < 0 then
           (let triples = insert_at pos t triples in
            bind_outcome (nxt default_triple_versions it) (\<lambda>(status, t, it).
              cb2_loop nxt fuel c status t it (pos + 1) triples))
         else
           cb2_loop nxt fuel c status t it (lower_bound_from pos (\<lambda>e. less_triple_versions c e t) triples) triples)
      else
        (let triples = triples @ [t] in
         bind_outcome (nxt default_triple_versions it) (\<lambda>(status, t, it).
           cb2_loop nxt fuel c status t it (length triples) triples)))"

definition cb2_add_iterator ::
  "(versions, 's) next_fun \<Rightarrow> nat \<Rightarrow> 's \<Rightarrow> combined_versions_iterator \<Rightarrow> combined_versions_iterator outcome" where
  "cb2_add_iterator nxt fuel it c =
     bind_outcome (nxt default_triple_versions it) (\<lambda>(status, t, it).
     bind_outcome (cb2_loop nxt fuel (cbi_comparator c) status t it
         (lower_bound (\<lambda>e. less_triple_versions (cbi_comparator c) e t) (cbi_triples c)) (cbi_triples c)) (\<lambda>triples.
       Inr (c\<lparr> cbi_triples := triples, cbi_triples_it := 0 \<rparr>)))"

section \<open>Additions with their first version\<close>

record 't standard_addition_proxy =
  sap_value :: addition_value
  sap_addition_it :: "'t patch_tree_iterator"

definition sap_new :: "('t, 'c, 'h) kyoto \<Rightarrow> ('t, 'c, 'h) patch_tree \<Rightarrow> triple \<Rightarrow> 't standard_addition_proxy" where
  "sap_new kc pt triple_pattern =
     \<lparr> sap_value = av_new (pt_max_patch_id pt), sap_addition_it = addition_iterator kc triple_pattern pt \<rparr>"

definition sap_next ::
  "'t tree_db \<Rightarrow> nat \<Rightarrow> triple \<Rightarrow> 't standard_addition_proxy \<Rightarrow> (bool \<times> triple \<times> int \<times> 't standard_addition_proxy) outcome" where
  "sap_next db fuel t p =
     bind_outcome (next_addition db fuel t (sap_value p) (sap_addition_it p)) (\<lambda>(status, t, value, it).
       Inr (status, t, av_get_patch_id_at 0 value, \<lparr> sap_value = value, sap_addition_it = it \<rparr>))"

record sorted_addition_proxy =
  sop_triples :: "(triple \<times> int) list"
  sop_triples_it :: nat

fun take_additions ::
  "'t tree_db \<Rightarrow> nat \<Rightarrow> triple \<Rightarrow> addition_value \<Rightarrow> 't patch_tree_iterator \<Rightarrow> (triple \<times> int) list outcome" where
  "take_additions db 0 t value it = Inl Diverges"
| "take_additions db (Suc fuel) t value it =
     bind_outcome (next_addition db fuel t value it) (\<lambda>(b, t, value, it).
       if b then bind_outcome (take_additions db fuel t value it) (\<lambda>ts. Inr ((t, av_get_patch_id_at 0 value) # ts))
       else Inr [])"

definition sop_new ::
  "('t, 'c, 'h) kyoto \<Rightarrow> nat \<Rightarrow> ('t, 'c, 'h) patch_tree \<Rightarrow> triple \<Rightarrow> triple_comparator \<Rightarrow> sorted_addition_proxy outcome" where
  "sop_new kc fuel pt triple_pattern comparator =
     bind_outcome (take_additions (kc_tree kc) fuel default_triple (av_new (pt_max_patch_id pt))
         (addition_iterator kc triple_pattern pt)) (\<lambda>triples.
       Inr \<lparr> sop_triples = std_sort (\<lambda>rhs lhs. tc_compare comparator (fst rhs) (fst lhs) < 0) triples,
             sop_triples_it = 0 \<rparr>)"

definition sop_next :: "triple \<Rightarrow> int \<Rightarrow> sorted_addition_proxy \<Rightarrow> bool \<times> triple \<times> int \<times> sorted_addition_proxy" where
  "sop_next t first_version p =
     (if sop_triples_it p \<noteq> length (sop_triples p)
      then let (t, v) = sop_triples p ! sop_triples_it p in
           (True, t, v, p\<lparr> sop_triples_it := sop_triples_it p + 1 \<rparr>)
      else (False, t, first_version, p))"

end
