(* ===== verification/Delta_Iterators.thy ===== *)
theory Delta_Iterators
  imports Delta_Semantics
begin

text \<open>
  The iterators over deltas, \<open>controller/triple_delta_iterator.{h,cc}\<close>: the deltas of one patch, of two snapshots
  and of two streams of triples, sorted deltas, and the two iterators that merge deltas. Each is a state with a
  function \<open>next\<close>; the ones over other iterators take the functions of these. The loops take fuel.
\<close>

section \<open>Sorted deltas\<close>

record sorted_delta_iterator =
  sdi_index :: nat
  sdi_triples :: "delta list"

definition sdi_new :: "(delta, 's) next_fun \<Rightarrow> nat \<Rightarrow> 's \<Rightarrow> component_order \<Rightarrow> sorted_delta_iterator outcome" where
  "sdi_new nxt fuel iterator order =
     bind_outcome (drain nxt fuel default_triple_delta iterator) (\<lambda>triples.
       let comparator = get_triple_comparator order None None in
       Inr \<lparr> sdi_index = 0,
             sdi_triples = (if successively (\<lambda>x y. \<not> less_triple_delta comparator y x) triples then triples
                            else std_sort (less_triple_delta comparator) triples) \<rparr>)"

definition sdi_next :: "(delta, sorted_delta_iterator) next_fun" where
  "sdi_next triple it =
     Inr (if sdi_index it < length (sdi_triples it)
          then let d = sdi_triples it ! sdi_index it in
               (True, triple\<lparr> td_triple := td_triple d, td_addition := td_addition d, td_dict := td_dict d \<rparr>,
                it\<lparr> sdi_index := sdi_index it + 1 \<rparr>)
          else (False, triple, it))"

definition empty_delta_next :: "(delta, unit) next_fun" where
  "empty_delta_next triple it = Inr (False, triple, it)"

section \<open>Deltas of one patch\<close>

record 't forward_delta_iterator =
  fdi_it :: "'t patch_tree_iterator"
  fdi_value :: tree_value
  fdi_dict :: dict_ptr

definition fdi_new ::
  "('t, 'c, 'h) kyoto \<Rightarrow> ('t, 'c, 'h) patch_tree \<Rightarrow> triple \<Rightarrow> int \<Rightarrow> dict_ptr \<Rightarrow> 't forward_delta_iterator" where
  "fdi_new kc pt triple_pattern patch_id_end dict =
     \<lparr> fdi_it = set_squash_equal_addition_deletion True (set_early_break True (set_filter_local_changes True
                  (set_patch_filter patch_id_end False (pt_iterator_pattern kc triple_pattern pt)))),
       fdi_value = tv_new (pt_max_patch_id pt), fdi_dict = dict \<rparr>"

text \<open>The loop of \<open>next\<close> that skips deletions of triples the snapshot does not have; the result is the triple and
  whether it is an addition.\<close>

fun fdi_loop ::
  "bool \<Rightarrow> 't tree_db \<Rightarrow> nat \<Rightarrow> triple \<Rightarrow> 't forward_delta_iterator \<Rightarrow>
   (bool \<times> triple \<times> bool \<times> 't forward_delta_iterator) outcome" where
  "fdi_loop hp db 0 key f = Inl Diverges"
| "fdi_loop hp db (Suc fuel) key f =
     bind_outcome (it_next hp db fuel key (fdi_value f) (fdi_it f)) (\<lambda>(valid, key, value, it).
       let f = f\<lparr> fdi_value := value, fdi_it := it \<rparr> in
       if \<not> valid then Inr (False, key, False, f)
       else let addition = tv_is_addition (it_patch_id_filter it) True value in
         if addition then Inr (True, key, True, f)
         else bind_outcome (tv_exists_in_snapshot hp value) (\<lambda>e.
                if e then Inr (True, key, False, f) else fdi_loop hp db fuel key f))"

definition fdi_next ::
  "bool \<Rightarrow> 't tree_db \<Rightarrow> nat \<Rightarrow> (delta, 't forward_delta_iterator) next_fun" where
  "fdi_next hp db fuel triple f =
     bind_outcome (fdi_loop hp db fuel (td_triple triple) f) (\<lambda>(valid, key, addition, f).
       Inr (valid, \<lparr> td_triple = key, td_addition = (if valid then addition else td_addition triple),
                     td_dict = fdi_dict f \<rparr>, f))"

record 't forward_diff_delta_iterator = "'t forward_delta_iterator" +
  fdd_patch_id_start :: int
  fdd_patch_id_end :: int

definition fdd_new ::
  "('t, 'c, 'h) kyoto \<Rightarrow> ('t, 'c, 'h) patch_tree \<Rightarrow> triple \<Rightarrow> int \<Rightarrow> int \<Rightarrow> dict_ptr \<Rightarrow> 't forward_diff_delta_iterator" where
  "fdd_new kc pt triple_pattern patch_id_start patch_id_end dict =
     (let f = fdi_new kc pt triple_pattern patch_id_end dict in
      \<lparr> fdi_it = set_filter_local_changes False (fdi_it f), fdi_value = fdi_value f, fdi_dict = fdi_dict f,
        fdd_patch_id_start = patch_id_start, fdd_patch_id_end = patch_id_end \<rparr>)"

text \<open>The loop of \<open>next\<close> that skips triples that are in both versions or in neither.\<close>

fun fdd_loop ::
  "bool \<Rightarrow> 't tree_db \<Rightarrow> nat \<Rightarrow> triple \<Rightarrow> 't forward_diff_delta_iterator \<Rightarrow>
   (bool \<times> triple \<times> 't forward_diff_delta_iterator) outcome" where
  "fdd_loop hp db 0 key f = Inl Diverges"
| "fdd_loop hp db (Suc fuel) key f =
     bind_outcome (it_next hp db fuel key (fdi_value f) (fdi_it f)) (\<lambda>(valid, key, value, it).
       let f = f\<lparr> fdi_value := value, fdi_it := it \<rparr> in
       if \<not> valid then Inr (False, key, f)
       else bind_outcome (tv_is_delta_type_equal hp (fdd_patch_id_start f) (fdd_patch_id_end f) value) (\<lambda>e.
              if e then fdd_loop hp db fuel key f else Inr (True, key, f)))"

definition fdd_next ::
  "bool \<Rightarrow> 't tree_db \<Rightarrow> nat \<Rightarrow> (delta, 't forward_diff_delta_iterator) next_fun" where
  "fdd_next hp db fuel triple f =
     bind_outcome (fdd_loop hp db fuel (td_triple triple) f) (\<lambda>(valid, key, f).
       Inr (valid, \<lparr> td_triple = key,
                     td_addition = (if valid then tv_is_addition (fdd_patch_id_end f) True (fdi_value f)
                                    else td_addition triple),
                     td_dict = fdi_dict f \<rparr>, f))"

section \<open>Deltas of two snapshots\<close>

text \<open>\<open>None\<close> in \<open>sdf_t1\<close> is \<open>nullptr\<close>: the iterator has ended.\<close>

record ('s, 'r) snapshot_diff_iterator =
  sdf_snapshot_it_1 :: 's
  sdf_snapshot_it_2 :: 'r
  sdf_t1 :: "triple option"
  sdf_t2 :: "triple option"
  sdf_dict1 :: dict_ptr
  sdf_dict2 :: dict_ptr
  sdf_comparator :: triple_comparator

definition next_or_null :: "'s has_next_fun \<Rightarrow> ('x, 's) hdt_next_fun \<Rightarrow> 's \<Rightarrow> ('x option \<times> 's) outcome" where
  "next_or_null has_next hdt_next it =
     (if has_next it then bind_outcome (hdt_next it) (\<lambda>(x, it). Inr (Some x, it)) else Inr (None, it))"

text \<open>The constructor, for the iterators it gets from the two snapshots.\<close>

definition sdf_new ::
  "'s has_next_fun \<Rightarrow> (triple, 's) hdt_next_fun \<Rightarrow> 'r has_next_fun \<Rightarrow> (triple, 'r) hdt_next_fun \<Rightarrow>
   's \<Rightarrow> 'r \<Rightarrow> dict_ptr \<Rightarrow> dict_ptr \<Rightarrow> component_order \<Rightarrow> ('s, 'r) snapshot_diff_iterator outcome" where
  "sdf_new hn1 nx1 hn2 nx2 it1 it2 dict1 dict2 qr_order =
     bind_outcome (next_or_null hn1 nx1 it1) (\<lambda>(t1, it1).
     bind_outcome (next_or_null hn2 nx2 it2) (\<lambda>(t2, it2).
       Inr \<lparr> sdf_snapshot_it_1 = it1, sdf_snapshot_it_2 = it2, sdf_t1 = t1, sdf_t2 = t2,
             sdf_dict1 = dict1, sdf_dict2 = dict2, sdf_comparator = get_triple_comparator qr_order None None \<rparr>))"

definition sdf_step1 ::
  "'s has_next_fun \<Rightarrow> (triple, 's) hdt_next_fun \<Rightarrow> ('s, 'r) snapshot_diff_iterator \<Rightarrow> ('s, 'r) snapshot_diff_iterator outcome" where
  "sdf_step1 has_next hdt_next it =
     bind_outcome (next_or_null has_next hdt_next (sdf_snapshot_it_1 it)) (\<lambda>(t, s).
       Inr (it\<lparr> sdf_t1 := t, sdf_snapshot_it_1 := s \<rparr>))"

definition sdf_step2 ::
  "'r has_next_fun \<Rightarrow> (triple, 'r) hdt_next_fun \<Rightarrow> ('s, 'r) snapshot_diff_iterator \<Rightarrow> ('s, 'r) snapshot_diff_iterator outcome" where
  "sdf_step2 has_next hdt_next it =
     bind_outcome (next_or_null has_next hdt_next (sdf_snapshot_it_2 it)) (\<lambda>(t, s).
       Inr (it\<lparr> sdf_t2 := t, sdf_snapshot_it_2 := s \<rparr>))"

definition sdf_compare :: "('s, 'r) snapshot_diff_iterator \<Rightarrow> triple \<Rightarrow> triple \<Rightarrow> int" where
  "sdf_compare it t1 t2 = compare_with (sdf_comparator it) t1 t2 (sdf_dict1 it) (sdf_dict2 it)"

text \<open>The inner loop: both iterators advance while their triples are equal. The comparison of the last
  two triples comes back, the old one when an iterator has ended.\<close>

fun sdf_skip ::
  "'s has_next_fun \<Rightarrow> (triple, 's) hdt_next_fun \<Rightarrow> 'r has_next_fun \<Rightarrow> (triple, 'r) hdt_next_fun \<Rightarrow> nat \<Rightarrow> int \<Rightarrow>
   ('s, 'r) snapshot_diff_iterator \<Rightarrow> (int \<times> ('s, 'r) snapshot_diff_iterator) outcome" where
  "sdf_skip hn1 nx1 hn2 nx2 0 cmp it = Inl Diverges"
| "sdf_skip hn1 nx1 hn2 nx2 (Suc fuel) cmp it =
     (if cmp = 0 \<and> sdf_t1 it \<noteq> None \<and> sdf_t2 it \<noteq> None then
        bind_outcome (sdf_step1 hn1 nx1 it) (\<lambda>it.
        bind_outcome (sdf_step2 hn2 nx2 it) (\<lambda>it.
          sdf_skip hn1 nx1 hn2 nx2 fuel
            (case (sdf_t1 it, sdf_t2 it) of (Some t1, Some t2) \<Rightarrow> sdf_compare it t1 t2 | _ \<Rightarrow> cmp) it))
      else Inr (cmp, it))"

definition sdf_emit_deletion ::
  "'s has_next_fun \<Rightarrow> (triple, 's) hdt_next_fun \<Rightarrow> ('s, 'r) snapshot_diff_iterator \<Rightarrow>
   (bool \<times> delta \<times> ('s, 'r) snapshot_diff_iterator) outcome" where
  "sdf_emit_deletion hn1 nx1 it =
     (case sdf_t1 it of
        None \<Rightarrow> Inl Undefined_behaviour
      | Some t \<Rightarrow> bind_outcome (sdf_step1 hn1 nx1 it) (\<lambda>it. Inr (True, deleted (sdf_dict1 it) t, it)))"

definition sdf_emit_addition ::
  "'r has_next_fun \<Rightarrow> (triple, 'r) hdt_next_fun \<Rightarrow> ('s, 'r) snapshot_diff_iterator \<Rightarrow>
   (bool \<times> delta \<times> ('s, 'r) snapshot_diff_iterator) outcome" where
  "sdf_emit_addition hn2 nx2 it =
     (case sdf_t2 it of
        None \<Rightarrow> Inl Undefined_behaviour
      | Some t \<Rightarrow> bind_outcome (sdf_step2 hn2 nx2 it) (\<lambda>it. Inr (True, added (sdf_dict2 it) t, it)))"

definition sdf_next ::
  "'s has_next_fun \<Rightarrow> (triple, 's) hdt_next_fun \<Rightarrow> 'r has_next_fun \<Rightarrow> (triple, 'r) hdt_next_fun \<Rightarrow> nat \<Rightarrow>
   (delta, ('s, 'r) snapshot_diff_iterator) next_fun" where
  "sdf_next hn1 nx1 hn2 nx2 fuel triple it =
     (case (sdf_t1 it, sdf_t2 it) of
        (Some t1, Some t2) \<Rightarrow>
          (let cmp = sdf_compare it t1 t2 in
           if cmp = 0 then
             bind_outcome (sdf_skip hn1 nx1 hn2 nx2 fuel cmp it) (\<lambda>(cmp, it).
               if cmp < 0 \<or> sdf_t1 it \<noteq> None \<and> sdf_t2 it = None then sdf_emit_deletion hn1 nx1 it
               else if cmp > 0 \<or> sdf_t1 it = None \<and> sdf_t2 it \<noteq> None then sdf_emit_addition hn2 nx2 it
               else Inr (False, triple, it))
           else if cmp < 0 then sdf_emit_deletion hn1 nx1 it else sdf_emit_addition hn2 nx2 it)
      | (Some t1, None) \<Rightarrow> sdf_emit_deletion hn1 nx1 it
      | (None, Some t2) \<Rightarrow> sdf_emit_addition hn2 nx2 it
      | (None, None) \<Rightarrow> Inr (False, triple, it))"

section \<open>Deltas of two streams of triples\<close>

record ('s, 'r) plain_diff_iterator =
  pdi_it_v1 :: 's
  pdi_it_v2 :: 'r
  pdi_status1 :: bool
  pdi_status2 :: bool
  pdi_triple1 :: triple
  pdi_triple2 :: triple
  pdi_dict1 :: dict_ptr
  pdi_dict2 :: dict_ptr
  pdi_comparator :: triple_comparator

definition pdi_new ::
  "(triple, 's) next_fun \<Rightarrow> (triple, 'r) next_fun \<Rightarrow> 's \<Rightarrow> 'r \<Rightarrow> dict_ptr \<Rightarrow> dict_ptr \<Rightarrow>
   ('s, 'r) plain_diff_iterator outcome" where
  "pdi_new n1 n2 it1 it2 dict1 dict2 =
     bind_outcome (n1 default_triple it1) (\<lambda>(status1, triple1, it1).
     bind_outcome (n2 default_triple it2) (\<lambda>(status2, triple2, it2).
       Inr \<lparr> pdi_it_v1 = it1, pdi_it_v2 = it2, pdi_status1 = status1, pdi_status2 = status2,
             pdi_triple1 = triple1, pdi_triple2 = triple2, pdi_dict1 = dict1, pdi_dict2 = dict2,
             pdi_comparator = get_triple_comparator SPO dict1 dict2 \<rparr>))"

definition pdi_step1 ::
  "(triple, 's) next_fun \<Rightarrow> ('s, 'r) plain_diff_iterator \<Rightarrow> ('s, 'r) plain_diff_iterator outcome" where
  "pdi_step1 n1 it =
     bind_outcome (n1 (pdi_triple1 it) (pdi_it_v1 it)) (\<lambda>(b, t, s).
       Inr (it\<lparr> pdi_status1 := b, pdi_triple1 := t, pdi_it_v1 := s \<rparr>))"

definition pdi_step2 ::
  "(triple, 'r) next_fun \<Rightarrow> ('s, 'r) plain_diff_iterator \<Rightarrow> ('s, 'r) plain_diff_iterator outcome" where
  "pdi_step2 n2 it =
     bind_outcome (n2 (pdi_triple2 it) (pdi_it_v2 it)) (\<lambda>(b, t, s).
       Inr (it\<lparr> pdi_status2 := b, pdi_triple2 := t, pdi_it_v2 := s \<rparr>))"

fun pdi_next ::
  "(triple, 's) next_fun \<Rightarrow> (triple, 'r) next_fun \<Rightarrow> nat \<Rightarrow> (delta, ('s, 'r) plain_diff_iterator) next_fun" where
  "pdi_next n1 n2 0 triple it = Inl Diverges"
| "pdi_next n1 n2 (Suc fuel) triple it =
     (if \<not> pdi_status1 it \<and> \<not> pdi_status2 it then Inr (False, triple, it)
      else if \<not> pdi_status1 it \<and> pdi_status2 it then
        bind_outcome (pdi_step2 n2 it) (\<lambda>it'. Inr (True, added (pdi_dict2 it) (pdi_triple2 it), it'))
      else if pdi_status1 it \<and> \<not> pdi_status2 it then
        bind_outcome (pdi_step1 n1 it) (\<lambda>it'. Inr (True, deleted (pdi_dict1 it) (pdi_triple1 it), it'))
      else
        (let cmp = tc_compare (pdi_comparator it) (pdi_triple1 it) (pdi_triple2 it) in
         if cmp = 0 then
           bind_outcome (pdi_step1 n1 it) (\<lambda>it.
           bind_outcome (pdi_step2 n2 it) (\<lambda>it. pdi_next n1 n2 fuel triple it))
         else if cmp < 0 then
           bind_outcome (pdi_step1 n1 it) (\<lambda>it'. Inr (True, deleted (pdi_dict1 it) (pdi_triple1 it), it'))
         else
           bind_outcome (pdi_step2 n2 it) (\<lambda>it'. Inr (True, added (pdi_dict2 it) (pdi_triple2 it), it'))))"

section \<open>Merged deltas\<close>

record ('s, 'r) merge_diff_iterator =
  mdi_it1 :: 's
  mdi_it2 :: 'r
  mdi_status1 :: bool
  mdi_status2 :: bool
  mdi_triple1 :: delta
  mdi_triple2 :: delta
  mdi_comparator :: triple_comparator

definition mdi_new ::
  "(delta, 's) next_fun \<Rightarrow> (delta, 'r) next_fun \<Rightarrow> 's \<Rightarrow> 'r \<Rightarrow> component_order \<Rightarrow> ('s, 'r) merge_diff_iterator outcome" where
  "mdi_new n1 n2 iterator_1 iterator_2 qr_order =
     bind_outcome (n1 default_triple_delta iterator_1) (\<lambda>(status1, triple1, it1).
     bind_outcome (n2 default_triple_delta iterator_2) (\<lambda>(status2, triple2, it2).
       Inr \<lparr> mdi_it1 = it1, mdi_it2 = it2, mdi_status1 = status1, mdi_status2 = status2,
             mdi_triple1 = triple1, mdi_triple2 = triple2,
             mdi_comparator = get_triple_comparator qr_order None None \<rparr>))"

definition mdi_step1 ::
  "(delta, 's) next_fun \<Rightarrow> ('s, 'r) merge_diff_iterator \<Rightarrow> ('s, 'r) merge_diff_iterator outcome" where
  "mdi_step1 n1 m =
     bind_outcome (n1 (mdi_triple1 m) (mdi_it1 m)) (\<lambda>(b, d, s).
       Inr (m\<lparr> mdi_status1 := b, mdi_triple1 := d, mdi_it1 := s \<rparr>))"

definition mdi_step2 ::
  "(delta, 'r) next_fun \<Rightarrow> ('s, 'r) merge_diff_iterator \<Rightarrow> ('s, 'r) merge_diff_iterator outcome" where
  "mdi_step2 n2 m =
     bind_outcome (n2 (mdi_triple2 m) (mdi_it2 m)) (\<lambda>(b, d, s).
       Inr (m\<lparr> mdi_status2 := b, mdi_triple2 := d, mdi_it2 := s \<rparr>))"

definition mdi_compare :: "('s, 'r) merge_diff_iterator \<Rightarrow> int" where
  "mdi_compare m = compare_triple_delta (mdi_comparator m) (mdi_triple1 m) (mdi_triple2 m)"

definition emit_triple :: "delta \<Rightarrow> bool \<Rightarrow> delta \<Rightarrow> delta" where
  "emit_triple source is_addition target =
     target\<lparr> td_triple := td_triple source, td_addition := is_addition, td_dict := td_dict source \<rparr>"

text \<open>The loop over equal triples: \<open>skips\<close> tells which pairs of them are dropped.\<close>

fun mdi_skip ::
  "(delta \<Rightarrow> delta \<Rightarrow> bool) \<Rightarrow> (delta, 's) next_fun \<Rightarrow> (delta, 'r) next_fun \<Rightarrow> nat \<Rightarrow> ('s, 'r) merge_diff_iterator \<Rightarrow>
   ('s, 'r) merge_diff_iterator outcome" where
  "mdi_skip skips n1 n2 0 m = Inl Diverges"
| "mdi_skip skips n1 n2 (Suc fuel) m =
     (if mdi_status1 m \<and> mdi_status2 m \<and> mdi_compare m = 0 \<and> skips (mdi_triple1 m) (mdi_triple2 m)
      then bind_outcome (mdi_step1 n1 m) (\<lambda>m. bind_outcome (mdi_step2 n2 m) (\<lambda>m. mdi_skip skips n1 n2 fuel m))
      else Inr m)"

definition mdi_next ::
  "(delta, 's) next_fun \<Rightarrow> (delta, 'r) next_fun \<Rightarrow> nat \<Rightarrow> (delta, ('s, 'r) merge_diff_iterator) next_fun" where
  "mdi_next n1 n2 fuel triple m =
     bind_outcome (mdi_skip (\<lambda>d1 d2. td_addition d1 \<noteq> td_addition d2) n1 n2 fuel m) (\<lambda>m.
       let emit1 = emit_triple (mdi_triple1 m) (td_addition (mdi_triple1 m)) triple;
           emit2 = emit_triple (mdi_triple2 m) (td_addition (mdi_triple2 m)) triple in
       if mdi_status1 m \<and> mdi_status2 m then
         (let cmp = mdi_compare m in
          if cmp = 0 then
            bind_outcome (mdi_step1 n1 m) (\<lambda>m. bind_outcome (mdi_step2 n2 m) (\<lambda>m. Inr (True, emit2, m)))
          else if cmp < 0 then bind_outcome (mdi_step1 n1 m) (\<lambda>m. Inr (True, emit1, m))
          else bind_outcome (mdi_step2 n2 m) (\<lambda>m. Inr (True, emit2, m)))
       else if mdi_status1 m then bind_outcome (mdi_step1 n1 m) (\<lambda>m. Inr (True, emit1, m))
       else if mdi_status2 m then bind_outcome (mdi_step2 n2 m) (\<lambda>m. Inr (True, emit2, m))
       else Inr (False, triple, m))"

definition mdi2_next ::
  "(delta, 's) next_fun \<Rightarrow> (delta, 'r) next_fun \<Rightarrow> nat \<Rightarrow> (delta, ('s, 'r) merge_diff_iterator) next_fun" where
  "mdi2_next n1 n2 fuel triple m =
     bind_outcome (mdi_skip (\<lambda>d1 d2. True) n1 n2 fuel m) (\<lambda>m.
       let emit1 = emit_triple (mdi_triple1 m) (\<not> td_addition (mdi_triple1 m)) triple;
           emit2 = emit_triple (mdi_triple2 m) (td_addition (mdi_triple2 m)) triple in
       if mdi_status1 m \<and> mdi_status2 m then
         if mdi_compare m < 0 then bind_outcome (mdi_step1 n1 m) (\<lambda>m. Inr (True, emit1, m))
         else bind_outcome (mdi_step2 n2 m) (\<lambda>m. Inr (True, emit2, m))
       else if mdi_status1 m then bind_outcome (mdi_step1 n1 m) (\<lambda>m. Inr (True, emit1, m))
       else if mdi_status2 m then bind_outcome (mdi_step2 n2 m) (\<lambda>m. Inr (True, emit2, m))
       else Inr (False, triple, m))"

end
