(* ===== verification/Delta_Properties.thy ===== *)
theory Delta_Properties
  imports Delta_Iterators
begin

text \<open>
  The iterators over deltas are sources of the lists of deltas that \<open>Delta_Semantics\<close> composes: what comes out
  of a difference of two versions, of one delta after another, and of a delta backwards and then another leads
  from the first version to the last.
\<close>

section \<open>Delivering a list\<close>

definition delivers :: "(bool \<times> 'd \<times> 's) outcome \<Rightarrow> ('s \<Rightarrow> bool) \<Rightarrow> ('s \<Rightarrow> 'd list) \<Rightarrow> 'd list \<Rightarrow> bool" where
  "delivers r ok rest xs \<longleftrightarrow>
     (case xs of
        [] \<Rightarrow> \<exists>d s. r = Inr (False, d, s) \<and> ok s \<and> rest s = []
      | x # xs \<Rightarrow> \<exists>s. r = Inr (True, x, s) \<and> ok s \<and> rest s = xs)"

lemma delivers_source:
  assumes "\<And>d s. ok s \<Longrightarrow> delivers (nxt d s) ok rest (rest s)"
  shows "iterator_source nxt ok rest"
proof
  fix d s x xs
  assume ok: "ok s"
  show "rest s = [] \<Longrightarrow> \<exists>d' s'. nxt d s = Inr (False, d', s') \<and> ok s' \<and> rest s' = []"
    using assms [OF ok, of d] by (simp add: delivers_def)
  show "rest s = x # xs \<Longrightarrow> \<exists>s'. nxt d s = Inr (True, x, s') \<and> ok s' \<and> rest s' = xs"
    using assms [OF ok, of d] by (simp add: delivers_def)
qed

lemma delivers_intros:
  "ok s \<Longrightarrow> rest s = [] \<Longrightarrow> xs = [] \<Longrightarrow> delivers (Inr (False, d, s)) ok rest xs"
  "ok s \<Longrightarrow> xs = x # rest s \<Longrightarrow> delivers (Inr (True, x, s)) ok rest xs"
  by (simp_all add: delivers_def)

section \<open>Sorted deltas\<close>

definition sdi_rest :: "sorted_delta_iterator \<Rightarrow> delta list" where
  "sdi_rest it = drop (sdi_index it) (sdi_triples it)"

lemma sdi_source: "iterator_source sdi_next (\<lambda>_. True) sdi_rest"
  by (rule delivers_source)
    (auto simp: delivers_def sdi_next_def sdi_rest_def Cons_nth_drop_Suc [symmetric] Let_def split: list.split)

interpretation sdi: iterator_source sdi_next "\<lambda>_. True" sdi_rest
  by (rule sdi_source)

section \<open>The difference of two streams\<close>

locale triple_sources =
  s1: iterator_source n1 ok1 rest1 + s2: iterator_source n2 ok2 rest2
  for n1 :: "(triple, 's) next_fun" and ok1 rest1 and n2 :: "(triple, 'r) next_fun" and ok2 rest2
begin

definition list1 :: "('s, 'r) plain_diff_iterator \<Rightarrow> triple list" where
  "list1 it = pending (pdi_status1 it) (pdi_triple1 it) (rest1 (pdi_it_v1 it))"

definition list2 :: "('s, 'r) plain_diff_iterator \<Rightarrow> triple list" where
  "list2 it = pending (pdi_status2 it) (pdi_triple2 it) (rest2 (pdi_it_v2 it))"

definition pdi_ok :: "nat \<Rightarrow> ('s, 'r) plain_diff_iterator \<Rightarrow> bool" where
  "pdi_ok n it \<longleftrightarrow> ok1 (pdi_it_v1 it) \<and> ok2 (pdi_it_v2 it) \<and> length (list1 it) < n \<and>
     tc_dict1 (pdi_comparator it) = pdi_dict1 it \<and> tc_dict2 (pdi_comparator it) = pdi_dict2 it"

definition pdi_rest :: "('s, 'r) plain_diff_iterator \<Rightarrow> delta list" where
  "pdi_rest it = difference (pdi_comparator it) (pdi_dict1 it) (pdi_dict2 it) (list1 it) (list2 it)"

lemma pdi_next_delivers:
  assumes "pdi_ok n it" "length (list1 it) < fuel"
  shows "delivers (pdi_next n1 n2 fuel triple it) (pdi_ok n) pdi_rest (pdi_rest it)"
  using assms
proof (induction fuel arbitrary: it)
  case (Suc fuel)
  have ok: "ok1 (pdi_it_v1 it)" "ok2 (pdi_it_v2 it)" using Suc.prems(1) by (simp_all add: pdi_ok_def)
  obtain b1 t1 s1 where 1: "n1 (pdi_triple1 it) (pdi_it_v1 it) = Inr (b1, t1, s1)"
      "ok1 s1" "rest1 (pdi_it_v1 it) = pending b1 t1 (rest1 s1)"
    by (rule s1.next_pending [OF ok(1)])
  obtain b2 t2 s2 where 2: "n2 (pdi_triple2 it) (pdi_it_v2 it) = Inr (b2, t2, s2)"
      "ok2 s2" "rest2 (pdi_it_v2 it) = pending b2 t2 (rest2 s2)"
    by (rule s2.next_pending [OF ok(2)])
  define it1 where "it1 = it\<lparr> pdi_status1 := b1, pdi_triple1 := t1, pdi_it_v1 := s1 \<rparr>"
  note defs = pdi_ok_def pdi_rest_def list1_def list2_def difference_def it1_def
  show ?case
  proof (cases "pdi_status1 it \<and> pdi_status2 it \<and> tc_compare (pdi_comparator it) (pdi_triple1 it) (pdi_triple2 it) = 0")
    case True
    define it2 where "it2 = it1\<lparr> pdi_status2 := b2, pdi_triple2 := t2, pdi_it_v2 := s2 \<rparr>"
    have "delivers (pdi_next n1 n2 fuel triple it2) (pdi_ok n) pdi_rest (pdi_rest it2)"
      using Suc.prems 1(2,3) 2(2,3) True by (intro Suc.IH) (auto simp: defs it2_def)
    moreover have "pdi_rest it2 = pdi_rest it"
      using Suc.prems 1(3) 2(3) True by (simp add: defs it2_def tc_compare_def)
    moreover have "pdi_next n1 n2 (Suc fuel) triple it = pdi_next n1 n2 fuel triple it2"
      using True 1(1) 2(1) by (simp add: it2_def it1_def pdi_step1_def pdi_step2_def)
    ultimately show ?thesis by simp
  next
    case False
    then show ?thesis
      using Suc.prems 1 2
      by (cases "pdi_status1 it"; cases "pdi_status2 it")
        (auto intro!: delivers_intros simp: defs pdi_step1_def pdi_step2_def tc_compare_def Let_def cong: if_cong)
  qed
qed simp

lemma pdi_source: "n \<le> fuel \<Longrightarrow> iterator_source (pdi_next n1 n2 fuel) (pdi_ok n) pdi_rest"
  by (rule delivers_source, rule pdi_next_delivers) (auto simp: pdi_ok_def)

text \<open>A new iterator, over everything its sources still have.\<close>

lemma pdi_new_rest:
  assumes "ok1 i1" "ok2 i2"
  obtains it where "pdi_new n1 n2 i1 i2 d1 d2 = Inr it" "pdi_ok (Suc (length (rest1 i1))) it"
    "pdi_rest it = difference (get_triple_comparator SPO d1 d2) d1 d2 (rest1 i1) (rest2 i2)"
proof -
  obtain b1 t1 s1 where 1: "n1 default_triple i1 = Inr (b1, t1, s1)" "ok1 s1" "rest1 i1 = pending b1 t1 (rest1 s1)"
    by (rule s1.next_pending [OF assms(1)])
  obtain b2 t2 s2 where 2: "n2 default_triple i2 = Inr (b2, t2, s2)" "ok2 s2" "rest2 i2 = pending b2 t2 (rest2 s2)"
    by (rule s2.next_pending [OF assms(2)])
  show thesis
    by (rule that [of "\<lparr> pdi_it_v1 = s1, pdi_it_v2 = s2, pdi_status1 = b1, pdi_status2 = b2,
             pdi_triple1 = t1, pdi_triple2 = t2, pdi_dict1 = d1, pdi_dict2 = d2,
             pdi_comparator = get_triple_comparator SPO d1 d2 \<rparr>"])
      (use 1 2 in \<open>simp_all add: pdi_new_def pdi_ok_def pdi_rest_def list1_def list2_def
        get_triple_comparator_def tc_new_def\<close>)
qed

end

section \<open>Merged deltas\<close>

locale delta_sources =
  s1: iterator_source n1 ok1 rest1 + s2: iterator_source n2 ok2 rest2
  for n1 :: "(delta, 's) next_fun" and ok1 rest1 and n2 :: "(delta, 'r) next_fun" and ok2 rest2
begin

definition list1 :: "('s, 'r) merge_diff_iterator \<Rightarrow> delta list" where
  "list1 m = pending (mdi_status1 m) (mdi_triple1 m) (rest1 (mdi_it1 m))"

definition list2 :: "('s, 'r) merge_diff_iterator \<Rightarrow> delta list" where
  "list2 m = pending (mdi_status2 m) (mdi_triple2 m) (rest2 (mdi_it2 m))"

definition mdi_ok :: "nat \<Rightarrow> ('s, 'r) merge_diff_iterator \<Rightarrow> bool" where
  "mdi_ok n m \<longleftrightarrow> ok1 (mdi_it1 m) \<and> ok2 (mdi_it2 m) \<and> length (list1 m) < n"

definition mdi_rest :: "('s, 'r) merge_diff_iterator \<Rightarrow> delta list" where
  "mdi_rest m = compose (mdi_comparator m) (list1 m) (list2 m)"

definition mdi2_rest :: "('s, 'r) merge_diff_iterator \<Rightarrow> delta list" where
  "mdi2_rest m = compose_inverse (mdi_comparator m) (list1 m) (list2 m)"

lemmas mdi_defs = mdi_ok_def mdi_rest_def mdi2_rest_def list1_def list2_def mdi_compare_def
  compose_def compose_inverse_def

lemma step1:
  assumes "mdi_ok n m"
  obtains m' where "mdi_step1 n1 m = Inr m'" "mdi_status1 m \<longrightarrow> mdi_ok n m'" "mdi_status1 m \<longrightarrow> list1 m = mdi_triple1 m # list1 m'"
    "list2 m' = list2 m" "mdi_status2 m' = mdi_status2 m" "mdi_triple2 m' = mdi_triple2 m"
    "mdi_comparator m' = mdi_comparator m"
proof -
  have ok: "ok1 (mdi_it1 m)" using assms by (simp add: mdi_ok_def)
  obtain b d s where 1: "n1 (mdi_triple1 m) (mdi_it1 m) = Inr (b, d, s)" "ok1 s" "rest1 (mdi_it1 m) = pending b d (rest1 s)"
    by (rule s1.next_pending [OF ok])
  show thesis
    by (rule that [of "m\<lparr> mdi_status1 := b, mdi_triple1 := d, mdi_it1 := s \<rparr>"])
      (use assms 1 in \<open>auto simp: mdi_step1_def mdi_defs\<close>)
qed

lemma step2:
  assumes "mdi_ok n m"
  obtains m' where "mdi_step2 n2 m = Inr m'" "mdi_ok n m'" "mdi_status2 m \<longrightarrow> list2 m = mdi_triple2 m # list2 m'"
    "list1 m' = list1 m" "mdi_status1 m' = mdi_status1 m" "mdi_triple1 m' = mdi_triple1 m"
    "mdi_comparator m' = mdi_comparator m"
proof -
  have ok: "ok2 (mdi_it2 m)" using assms by (simp add: mdi_ok_def)
  obtain b d s where 1: "n2 (mdi_triple2 m) (mdi_it2 m) = Inr (b, d, s)" "ok2 s" "rest2 (mdi_it2 m) = pending b d (rest2 s)"
    by (rule s2.next_pending [OF ok])
  show thesis
    by (rule that [of "m\<lparr> mdi_status2 := b, mdi_triple2 := d, mdi_it2 := s \<rparr>"])
      (use assms 1 in \<open>auto simp: mdi_step2_def mdi_defs\<close>)
qed

text \<open>What the loop over equal triples leaves.\<close>

lemma skip_result:
  assumes "mdi_ok n m" "length (list1 m) < fuel"
  obtains m' where "mdi_skip skips n1 n2 fuel m = Inr m'" "mdi_ok n m'"
    "\<not> (mdi_status1 m' \<and> mdi_status2 m' \<and> mdi_compare m' = 0 \<and> skips (mdi_triple1 m') (mdi_triple2 m'))"
    "\<And>f g h. (\<And>x y. skips x y \<Longrightarrow> h x y = (None :: delta option)) \<Longrightarrow>
       merge_lists (compare_triple_delta (mdi_comparator m')) f g h (list1 m') (list2 m') =
       merge_lists (compare_triple_delta (mdi_comparator m)) f g h (list1 m) (list2 m)"
  using assms
proof (induction fuel arbitrary: m thesis)
  case (Suc fuel)
  show ?case
  proof (cases "mdi_status1 m \<and> mdi_status2 m \<and> mdi_compare m = 0 \<and> skips (mdi_triple1 m) (mdi_triple2 m)")
    case False
    show ?thesis by (rule Suc.prems(1) [of m]) (use False Suc.prems(2) in auto)
  next
    case True
    obtain m1 where 1: "mdi_step1 n1 m = Inr m1" "mdi_ok n m1" "list1 m = mdi_triple1 m # list1 m1"
      "list2 m1 = list2 m" "mdi_status2 m1 = mdi_status2 m" "mdi_triple2 m1 = mdi_triple2 m"
      "mdi_comparator m1 = mdi_comparator m"
      by (rule step1 [OF Suc.prems(2)]) (use True in blast)
    obtain m2 where 2: "mdi_step2 n2 m1 = Inr m2" "mdi_ok n m2" "list2 m1 = mdi_triple2 m1 # list2 m2"
      "list1 m2 = list1 m1" "mdi_comparator m2 = mdi_comparator m1"
      by (rule step2 [OF 1(2)]) (use True 1(5) in auto)
    have len: "length (list1 m2) < fuel" using Suc.prems(3) 1(3) 2(4) by simp
    have c: "compare_triple_delta (mdi_comparator m) (mdi_triple1 m) (mdi_triple2 m) = 0"
      using True by (simp add: mdi_compare_def)
    show ?thesis
    proof (rule Suc.IH [OF _ 2(2) len])
      fix m'
      assume 3: "mdi_skip skips n1 n2 fuel m2 = Inr m'" "mdi_ok n m'"
        "\<not> (mdi_status1 m' \<and> mdi_status2 m' \<and> mdi_compare m' = 0 \<and> skips (mdi_triple1 m') (mdi_triple2 m'))"
      assume 4: "\<And>f g h. (\<And>x y. skips x y \<Longrightarrow> h x y = (None :: delta option)) \<Longrightarrow>
         merge_lists (compare_triple_delta (mdi_comparator m')) f g h (list1 m') (list2 m') =
         merge_lists (compare_triple_delta (mdi_comparator m2)) f g h (list1 m2) (list2 m2)"
      show ?thesis
      proof (rule Suc.prems(1) [OF _ 3(2,3)])
        show "mdi_skip skips n1 n2 (Suc fuel) m = Inr m'" using True 1(1) 2(1) 3(1) by simp
        show "merge_lists (compare_triple_delta (mdi_comparator m')) f g h (list1 m') (list2 m') =
            merge_lists (compare_triple_delta (mdi_comparator m)) f g h (list1 m) (list2 m)"
          if h: "\<And>x y. skips x y \<Longrightarrow> h x y = (None :: delta option)" for f g h
        proof -
          have "merge_lists (compare_triple_delta (mdi_comparator m')) f g h (list1 m') (list2 m') =
              merge_lists (compare_triple_delta (mdi_comparator m2)) f g h (list1 m2) (list2 m2)"
            by (rule 4) (rule h)
          moreover have "list2 m = mdi_triple2 m # list2 m2" using 1(4,6) 2(3) by simp
          ultimately show ?thesis using True c h [of "mdi_triple1 m" "mdi_triple2 m"] 1(3,7) 2(4,5) by simp
        qed
      qed
    qed
  qed
qed simp

lemma mdi_next_delivers:
  assumes "mdi_ok n m" "n \<le> fuel"
  shows "delivers (mdi_next n1 n2 fuel triple m) (mdi_ok n) mdi_rest (mdi_rest m)"
proof -
  have f: "length (list1 m) < fuel" using assms by (simp add: mdi_ok_def)
  obtain m' where s: "mdi_skip (\<lambda>d1 d2. td_addition d1 \<noteq> td_addition d2) n1 n2 fuel m = Inr m'" "mdi_ok n m'"
    "\<not> (mdi_status1 m' \<and> mdi_status2 m' \<and> mdi_compare m' = 0 \<and> td_addition (mdi_triple1 m') \<noteq> td_addition (mdi_triple2 m'))"
    and r: "mdi_rest m' = mdi_rest m"
    by (rule skip_result [OF assms(1) f, of "\<lambda>d1 d2. td_addition d1 \<noteq> td_addition d2"])
      (simp add: mdi_rest_def compose_def)
  note c = mdi_rest_def compose_def mdi_compare_def
  have e: "emit_triple d (td_addition d) triple = d" for d by (simp add: emit_triple_def)
  obtain m1 where 1: "mdi_step1 n1 m' = Inr m1" "mdi_status1 m' \<longrightarrow> mdi_ok n m1"
    "mdi_status1 m' \<longrightarrow> list1 m' = mdi_triple1 m' # list1 m1" "list2 m1 = list2 m'" "mdi_status2 m1 = mdi_status2 m'"
    "mdi_triple2 m1 = mdi_triple2 m'" "mdi_comparator m1 = mdi_comparator m'"
    by (rule step1 [OF s(2)])
  obtain m2 where 2: "mdi_step2 n2 m' = Inr m2" "mdi_ok n m2" "mdi_status2 m' \<longrightarrow> list2 m' = mdi_triple2 m' # list2 m2"
    "list1 m2 = list1 m'" "mdi_comparator m2 = mdi_comparator m'"
    by (rule step2 [OF s(2)])
  consider (none) "\<not> mdi_status1 m'" "\<not> mdi_status2 m'" | (one) "mdi_status1 m'" "\<not> mdi_status2 m'"
    | (two) "\<not> mdi_status1 m'" "mdi_status2 m'" | (eq) "mdi_status1 m'" "mdi_status2 m'" "mdi_compare m' = 0"
    | (lt) "mdi_status1 m'" "mdi_status2 m'" "mdi_compare m' < 0" | (gt) "mdi_status1 m'" "mdi_status2 m'" "mdi_compare m' > 0"
    by linarith
  then have "delivers (mdi_next n1 n2 fuel triple m) (mdi_ok n) mdi_rest (mdi_rest m')"
  proof cases
    case none
    then show ?thesis
      by (unfold mdi_next_def s(1)) (auto intro!: delivers_intros simp: s(2) c list1_def list2_def)
  next
    case one
    then show ?thesis
      using 1 by (unfold mdi_next_def s(1)) (auto intro!: delivers_intros simp: e c list2_def)
  next
    case two
    then show ?thesis
      using 2 by (unfold mdi_next_def s(1)) (auto intro!: delivers_intros simp: e c list1_def)
  next
    case lt
    then show ?thesis
      using 1 2(3) by (unfold mdi_next_def s(1)) (auto intro!: delivers_intros simp: e c)
  next
    case gt
    then show ?thesis
      using 2 1(3) by (unfold mdi_next_def s(1)) (auto intro!: delivers_intros simp: e c)
  next
    case eq
    obtain m3 where 3: "mdi_step2 n2 m1 = Inr m3" "mdi_ok n m3" "list2 m1 = mdi_triple2 m1 # list2 m3"
      "list1 m3 = list1 m1" "mdi_comparator m3 = mdi_comparator m1"
      by (rule step2 [OF 1(2) [rule_format, OF eq(1)]]) (use 1(5) eq(2) in auto)
    have l: "list2 m' = mdi_triple2 m' # list2 m3" using 1(4,6) 3(3) by simp
    have "td_addition (mdi_triple1 m') = td_addition (mdi_triple2 m')" using s(3) eq by simp
    then show ?thesis
      using eq 1(1-3,7) 3(1,2,4,5) l by (unfold mdi_next_def s(1)) (auto intro!: delivers_intros simp: e c)
  qed
  then show ?thesis by (simp only: r)
qed

lemma mdi_source: "n \<le> fuel \<Longrightarrow> iterator_source (mdi_next n1 n2 fuel) (mdi_ok n) mdi_rest"
  by (rule delivers_source) (rule mdi_next_delivers)

lemma mdi2_next_delivers:
  assumes "mdi_ok n m" "n \<le> fuel"
  shows "delivers (mdi2_next n1 n2 fuel triple m) (mdi_ok n) mdi2_rest (mdi2_rest m)"
proof -
  have f: "length (list1 m) < fuel" using assms by (simp add: mdi_ok_def)
  obtain m' where s: "mdi_skip (\<lambda>d1 d2. True) n1 n2 fuel m = Inr m'" "mdi_ok n m'"
    "\<not> (mdi_status1 m' \<and> mdi_status2 m' \<and> mdi_compare m' = 0)"
    and r: "mdi2_rest m' = mdi2_rest m"
    by (rule skip_result [OF assms(1) f, of "\<lambda>d1 d2. True"]) (simp add: mdi2_rest_def compose_inverse_def)
  note c = mdi2_rest_def compose_inverse_def mdi_compare_def
  have e: "emit_triple d (td_addition d) triple = d" "emit_triple d (\<not> td_addition d) triple = invert d" for d
    by (simp_all add: emit_triple_def invert_def)
  obtain m1 where 1: "mdi_step1 n1 m' = Inr m1" "mdi_status1 m' \<longrightarrow> mdi_ok n m1"
    "mdi_status1 m' \<longrightarrow> list1 m' = mdi_triple1 m' # list1 m1" "list2 m1 = list2 m'"
    "mdi_comparator m1 = mdi_comparator m'"
    by (rule step1 [OF s(2)])
  obtain m2 where 2: "mdi_step2 n2 m' = Inr m2" "mdi_ok n m2" "mdi_status2 m' \<longrightarrow> list2 m' = mdi_triple2 m' # list2 m2"
    "list1 m2 = list1 m'" "mdi_comparator m2 = mdi_comparator m'"
    by (rule step2 [OF s(2)])
  consider (none) "\<not> mdi_status1 m'" "\<not> mdi_status2 m'" | (one) "mdi_status1 m'" "\<not> mdi_status2 m'"
    | (two) "\<not> mdi_status1 m'" "mdi_status2 m'"
    | (lt) "mdi_status1 m'" "mdi_status2 m'" "mdi_compare m' < 0" | (gt) "mdi_status1 m'" "mdi_status2 m'" "mdi_compare m' > 0"
    using s(3) by linarith
  then have "delivers (mdi2_next n1 n2 fuel triple m) (mdi_ok n) mdi2_rest (mdi2_rest m')"
  proof cases
    case none
    then show ?thesis
      by (unfold mdi2_next_def s(1)) (auto intro!: delivers_intros simp: s(2) c list1_def list2_def)
  next
    case one
    then show ?thesis
      using 1 by (unfold mdi2_next_def s(1)) (auto intro!: delivers_intros simp: e c list2_def)
  next
    case two
    then show ?thesis
      using 2 by (unfold mdi2_next_def s(1)) (auto intro!: delivers_intros simp: e c list1_def)
  next
    case lt
    then show ?thesis
      using 1 2(3) by (unfold mdi2_next_def s(1)) (auto intro!: delivers_intros simp: e c)
  next
    case gt
    then show ?thesis
      using 2 1(3) by (unfold mdi2_next_def s(1)) (auto intro!: delivers_intros simp: e c)
  qed
  then show ?thesis by (simp only: r)
qed

lemma mdi2_source: "n \<le> fuel \<Longrightarrow> iterator_source (mdi2_next n1 n2 fuel) (mdi_ok n) mdi2_rest"
  by (rule delivers_source) (rule mdi2_next_delivers)

lemma mdi_new_rest:
  assumes "ok1 i1" "ok2 i2"
  obtains m where "mdi_new n1 n2 i1 i2 q = Inr m" "mdi_ok (Suc (length (rest1 i1))) m"
    "mdi_rest m = compose (get_triple_comparator q None None) (rest1 i1) (rest2 i2)"
    "mdi2_rest m = compose_inverse (get_triple_comparator q None None) (rest1 i1) (rest2 i2)"
proof -
  obtain b1 t1 s1 where 1: "n1 default_triple_delta i1 = Inr (b1, t1, s1)" "ok1 s1" "rest1 i1 = pending b1 t1 (rest1 s1)"
    by (rule s1.next_pending [OF assms(1)])
  obtain b2 t2 s2 where 2: "n2 default_triple_delta i2 = Inr (b2, t2, s2)" "ok2 s2" "rest2 i2 = pending b2 t2 (rest2 s2)"
    by (rule s2.next_pending [OF assms(2)])
  show thesis
    by (rule that [of "\<lparr> mdi_it1 = s1, mdi_it2 = s2, mdi_status1 = b1, mdi_status2 = b2,
             mdi_triple1 = t1, mdi_triple2 = t2, mdi_comparator = get_triple_comparator q None None \<rparr>"])
      (use 1 2 in \<open>simp_all add: mdi_new_def mdi_ok_def mdi_rest_def mdi2_rest_def list1_def list2_def\<close>)
qed

end

section \<open>The difference of two snapshots\<close>

definition with_head :: "'x option \<Rightarrow> 'x list \<Rightarrow> 'x list" where
  "with_head t xs = (case t of None \<Rightarrow> [] | Some x \<Rightarrow> x # xs)"

lemma with_head_simps [simp]: "with_head None xs = []" "with_head (Some x) xs = x # xs"
  by (simp_all add: with_head_def)

locale id_sources =
  i1: triple_id_iterator hn1 nx1 ok1 rest1 + i2: triple_id_iterator hn2 nx2 ok2 rest2
  for hn1 :: "'s has_next_fun" and nx1 :: "(triple, 's) hdt_next_fun" and ok1 rest1
    and hn2 :: "'r has_next_fun" and nx2 :: "(triple, 'r) hdt_next_fun" and ok2 rest2
begin

definition list1 :: "('s, 'r) snapshot_diff_iterator \<Rightarrow> triple list" where
  "list1 it = with_head (sdf_t1 it) (rest1 (sdf_snapshot_it_1 it))"

definition list2 :: "('s, 'r) snapshot_diff_iterator \<Rightarrow> triple list" where
  "list2 it = with_head (sdf_t2 it) (rest2 (sdf_snapshot_it_2 it))"

definition sdf_ok :: "nat \<Rightarrow> ('s, 'r) snapshot_diff_iterator \<Rightarrow> bool" where
  "sdf_ok n it \<longleftrightarrow> ok1 (sdf_snapshot_it_1 it) \<and> ok2 (sdf_snapshot_it_2 it) \<and> length (list1 it) < n"

definition sdf_rest :: "('s, 'r) snapshot_diff_iterator \<Rightarrow> delta list" where
  "sdf_rest it = difference (sdf_comparator it) (sdf_dict1 it) (sdf_dict2 it) (list1 it) (list2 it)"

lemmas sdf_defs = sdf_ok_def sdf_rest_def list1_def list2_def difference_def sdf_compare_def

lemma next_or_null1:
  assumes "ok1 s"
  obtains t s' where "next_or_null hn1 nx1 s = Inr (t, s')" "ok1 s'" "rest1 s = with_head t (rest1 s')"
  by (rule i1.next_cases [OF assms]) (use assms that in \<open>auto simp: next_or_null_def\<close>)

lemma next_or_null2:
  assumes "ok2 s"
  obtains t s' where "next_or_null hn2 nx2 s = Inr (t, s')" "ok2 s'" "rest2 s = with_head t (rest2 s')"
  by (rule i2.next_cases [OF assms]) (use assms that in \<open>auto simp: next_or_null_def\<close>)

lemma skip_result:
  assumes "sdf_ok n it" "length (list1 it) < fuel"
    "(case (sdf_t1 it, sdf_t2 it) of (Some t1, Some t2) \<Rightarrow> c = sdf_compare it t1 t2 | _ \<Rightarrow> c = 0)"
  obtains c' it' where "sdf_skip hn1 nx1 hn2 nx2 fuel c it = Inr (c', it')" "sdf_ok n it'" "sdf_rest it' = sdf_rest it"
    "(case (sdf_t1 it', sdf_t2 it') of (Some t1, Some t2) \<Rightarrow> c' = sdf_compare it' t1 t2 \<and> c' \<noteq> 0 | _ \<Rightarrow> c' = 0)"
  using assms
proof (induction fuel arbitrary: it c thesis)
  case (Suc fuel)
  show ?case
  proof (cases "c = 0 \<and> sdf_t1 it \<noteq> None \<and> sdf_t2 it \<noteq> None")
    case False
    show ?thesis
      by (rule Suc.prems(1) [of c it]) (use False Suc.prems(2,4) in \<open>auto split: option.splits\<close>)
  next
    case True
    then obtain t1 t2 where t: "sdf_t1 it = Some t1" "sdf_t2 it = Some t2" "c = 0" by auto
    then have z: "compare_with (sdf_comparator it) t1 t2 (sdf_dict1 it) (sdf_dict2 it) = 0"
      using Suc.prems(4) by (simp add: sdf_compare_def)
    have ok: "ok1 (sdf_snapshot_it_1 it)" "ok2 (sdf_snapshot_it_2 it)" using Suc.prems(2) by (simp_all add: sdf_ok_def)
    obtain u1 s1 where 1: "next_or_null hn1 nx1 (sdf_snapshot_it_1 it) = Inr (u1, s1)" "ok1 s1"
      "rest1 (sdf_snapshot_it_1 it) = with_head u1 (rest1 s1)" by (rule next_or_null1 [OF ok(1)])
    obtain u2 s2 where 2: "next_or_null hn2 nx2 (sdf_snapshot_it_2 it) = Inr (u2, s2)" "ok2 s2"
      "rest2 (sdf_snapshot_it_2 it) = with_head u2 (rest2 s2)" by (rule next_or_null2 [OF ok(2)])
    define it2 where "it2 = it\<lparr> sdf_t1 := u1, sdf_snapshot_it_1 := s1, sdf_t2 := u2, sdf_snapshot_it_2 := s2 \<rparr>"
    define c2 where "c2 = (case (u1, u2) of (Some t1, Some t2) \<Rightarrow> sdf_compare it2 t1 t2 | _ \<Rightarrow> 0)"
    have st: "sdf_skip hn1 nx1 hn2 nx2 (Suc fuel) c it = sdf_skip hn1 nx1 hn2 nx2 fuel c2 it2"
      using t 1(1) 2(1) by (cases u1; cases u2) (simp_all add: sdf_step1_def sdf_step2_def it2_def c2_def)
    have r: "sdf_rest it2 = sdf_rest it" using t z 1(3) 2(3) by (simp add: sdf_defs it2_def)
    show ?thesis
    proof (rule Suc.IH [where it = it2 and c = c2])
      show "sdf_ok n it2" "length (list1 it2) < fuel"
        using Suc.prems(2,3) t 1(2,3) 2(2,3) by (simp_all add: sdf_defs it2_def)
      show "case (sdf_t1 it2, sdf_t2 it2) of (Some t1, Some t2) \<Rightarrow> c2 = sdf_compare it2 t1 t2 | _ \<Rightarrow> c2 = 0"
        by (simp add: it2_def c2_def split: option.split)
    qed (rule Suc.prems(1); simp add: st r del: sdf_skip.simps)
  qed
qed simp

lemma emit_deletion_delivers:
  assumes "sdf_ok n it" "sdf_t1 it = Some t"
    "sdf_t2 it = None \<or> sdf_t2 it = Some t2 \<and> sdf_compare it t t2 < 0"
  shows "delivers (sdf_emit_deletion hn1 nx1 it) (sdf_ok n) sdf_rest (sdf_rest it)"
proof -
  have ok: "ok1 (sdf_snapshot_it_1 it)" using assms(1) by (simp add: sdf_ok_def)
  obtain u1 s1 where 1: "next_or_null hn1 nx1 (sdf_snapshot_it_1 it) = Inr (u1, s1)" "ok1 s1"
      "rest1 (sdf_snapshot_it_1 it) = with_head u1 (rest1 s1)" by (rule next_or_null1 [OF ok])
  show ?thesis
    using assms 1 by (auto intro!: delivers_intros simp: sdf_emit_deletion_def sdf_step1_def sdf_defs)
qed

lemma emit_addition_delivers:
  assumes "sdf_ok n it" "sdf_t2 it = Some t"
    "sdf_t1 it = None \<or> sdf_t1 it = Some t1 \<and> sdf_compare it t1 t > 0"
  shows "delivers (sdf_emit_addition hn2 nx2 it) (sdf_ok n) sdf_rest (sdf_rest it)"
proof -
  have ok: "ok2 (sdf_snapshot_it_2 it)" using assms(1) by (simp add: sdf_ok_def)
  obtain u2 s2 where 2: "next_or_null hn2 nx2 (sdf_snapshot_it_2 it) = Inr (u2, s2)" "ok2 s2"
      "rest2 (sdf_snapshot_it_2 it) = with_head u2 (rest2 s2)" by (rule next_or_null2 [OF ok])
  show ?thesis
    using assms 2 by (auto intro!: delivers_intros simp: sdf_emit_addition_def sdf_step2_def sdf_defs)
qed

lemma sdf_next_delivers:
  assumes "sdf_ok n it" "n \<le> fuel"
  shows "delivers (sdf_next hn1 nx1 hn2 nx2 fuel triple it) (sdf_ok n) sdf_rest (sdf_rest it)"
proof (cases "sdf_t1 it")
  case None
  show ?thesis
  proof (cases "sdf_t2 it")
    case None
    then show ?thesis
      using \<open>sdf_t1 it = None\<close> assms(1) by (auto intro!: delivers_intros simp: sdf_next_def sdf_defs)
  next
    case (Some t2)
    then show ?thesis
      using None emit_addition_delivers [OF assms(1) Some] by (simp add: sdf_next_def)
  qed
next
  case t1: (Some t1)
  show ?thesis
  proof (cases "sdf_t2 it")
    case None
    then show ?thesis
      using t1 emit_deletion_delivers [OF assms(1) t1] by (simp add: sdf_next_def)
  next
    case t2: (Some t2)
    consider (lt) "sdf_compare it t1 t2 < 0" | (gt) "sdf_compare it t1 t2 > 0" | (eq) "sdf_compare it t1 t2 = 0"
      by linarith
    then show ?thesis
    proof cases
      case lt
      then show ?thesis
        using t1 t2 emit_deletion_delivers [OF assms(1) t1] by (simp add: sdf_next_def)
    next
      case gt
      then show ?thesis
        using t1 t2 emit_addition_delivers [OF assms(1) t2] by (simp add: sdf_next_def)
    next
      case eq
      have f: "length (list1 it) < fuel" using assms by (simp add: sdf_ok_def)
      have c: "case (sdf_t1 it, sdf_t2 it) of (Some t1, Some t2) \<Rightarrow> sdf_compare it t1 t2 = sdf_compare it t1 t2
          | _ \<Rightarrow> sdf_compare it t1 t2 = 0"
        using t1 t2 by simp
      obtain c' it' where s: "sdf_skip hn1 nx1 hn2 nx2 fuel 0 it = Inr (c', it')" "sdf_ok n it'"
        "sdf_rest it' = sdf_rest it"
        "case (sdf_t1 it', sdf_t2 it') of (Some t1, Some t2) \<Rightarrow> c' = sdf_compare it' t1 t2 \<and> c' \<noteq> 0 | _ \<Rightarrow> c' = 0"
        by (rule skip_result [OF assms(1) f, of 0]) (use t1 t2 eq in auto)
      have n: "sdf_next hn1 nx1 hn2 nx2 fuel triple it =
          (if c' < 0 \<or> sdf_t1 it' \<noteq> None \<and> sdf_t2 it' = None then sdf_emit_deletion hn1 nx1 it'
           else if c' > 0 \<or> sdf_t1 it' = None \<and> sdf_t2 it' \<noteq> None then sdf_emit_addition hn2 nx2 it'
           else Inr (False, triple, it'))"
        using t1 t2 eq s(1) by (simp add: sdf_next_def)
      show ?thesis
        unfolding n s(3) [symmetric]
        using s(2,4) emit_deletion_delivers [OF s(2)] emit_addition_delivers [OF s(2)]
        by (cases "sdf_t1 it'"; cases "sdf_t2 it'") (auto intro!: delivers_intros simp: sdf_rest_def list1_def list2_def difference_def)
    qed
  qed
qed

lemma sdf_source: "n \<le> fuel \<Longrightarrow> iterator_source (sdf_next hn1 nx1 hn2 nx2 fuel) (sdf_ok n) sdf_rest"
  by (rule delivers_source) (rule sdf_next_delivers)

lemma sdf_new_rest:
  assumes "ok1 i1" "ok2 i2"
  obtains it where "sdf_new hn1 nx1 hn2 nx2 i1 i2 d1 d2 q = Inr it" "sdf_ok (Suc (length (rest1 i1))) it"
    "sdf_rest it = difference (get_triple_comparator q None None) d1 d2 (rest1 i1) (rest2 i2)"
proof -
  obtain u1 s1 where 1: "next_or_null hn1 nx1 i1 = Inr (u1, s1)" "ok1 s1" "rest1 i1 = with_head u1 (rest1 s1)"
    by (rule next_or_null1 [OF assms(1)])
  obtain u2 s2 where 2: "next_or_null hn2 nx2 i2 = Inr (u2, s2)" "ok2 s2" "rest2 i2 = with_head u2 (rest2 s2)"
    by (rule next_or_null2 [OF assms(2)])
  show thesis
    by (rule that [of "\<lparr> sdf_snapshot_it_1 = s1, sdf_snapshot_it_2 = s2, sdf_t1 = u1, sdf_t2 = u2,
             sdf_dict1 = d1, sdf_dict2 = d2, sdf_comparator = get_triple_comparator q None None \<rparr>"])
      (use 1 2 in \<open>simp_all add: sdf_new_def sdf_ok_def sdf_rest_def list1_def list2_def\<close>)
qed

end

section \<open>Interpretations\<close>

lemma sti_triple_source:
  "iterator_source (snapshot_triple_iterator_next sti_has_next sti_next) (\<lambda>it. sti_pos it \<le> length (sti_triples it)) sti_rest"
  using sti.as_triples.iterator_source_axioms by (simp add: snapshot_triple_iterator_next_def [abs_def])

interpretation sorted_triples: triple_sources
  "snapshot_triple_iterator_next sti_has_next sti_next" "\<lambda>it. sti_pos it \<le> length (sti_triples it)" sti_rest
  "snapshot_triple_iterator_next sti_has_next sti_next" "\<lambda>it. sti_pos it \<le> length (sti_triples it)" sti_rest
  by (intro triple_sources.intro sti_triple_source)

interpretation sorted_deltas: delta_sources sdi_next "\<lambda>_. True" sdi_rest sdi_next "\<lambda>_. True" sdi_rest
  by (intro delta_sources.intro sdi_source)

interpretation sorted_ids: id_sources
  sti_has_next sti_next "\<lambda>it. sti_pos it \<le> length (sti_triples it)" sti_rest
  sti_has_next sti_next "\<lambda>it. sti_pos it \<le> length (sti_triples it)" sti_rest
  by (intro id_sources.intro sti_source)

section \<open>Examples\<close>

definition example_dict :: dict_ptr where
  "example_dict = Some (0, example_manager)"

definition example_heap :: "nat \<Rightarrow> dictionary_manager" where
  "example_heap p = example_manager"

lemma example_managers: "managers_ok example_heap"
  by (simp add: managers_ok_def example_heap_def example_sorted example_bounds)

lemma example_located:
  "located example_heap example_dict (mk_triple 1 1 3)" "located example_heap example_dict (mk_triple 2 1 2)"
  "located example_heap example_dict (mk_triple 1 1 2)"
  using example_known by (simp_all add: located_def example_heap_def example_dict_def)

lemma example_texts:
  "text_of example_dict (mk_triple 1 1 2) = (''a'', ''p'', ''b'')"
  "text_of example_dict (mk_triple 1 1 3) = (''a'', ''p'', ''d'')"
  "text_of example_dict (mk_triple 2 1 2) = (''c'', ''p'', ''b'')"
  by code_simp+

lemma example_holds:
  "holds SPO example_heap example_dict [mk_triple 1 1 2, mk_triple 1 1 3] {(''a'', ''p'', ''b''), (''a'', ''p'', ''d'')}"
  "holds SPO example_heap example_dict [mk_triple 1 1 3, mk_triple 2 1 2] {(''a'', ''p'', ''d''), (''c'', ''p'', ''b'')}"
  using example_located by (simp_all add: holds_def key_of_def example_texts)

definition example_ids :: "triple list \<Rightarrow> sorted_triple_iterator" where
  "example_ids ts = \<lparr> sti_triples = ts, sti_pos = 0, sti_order = SPO \<rparr>"

definition example_deltas :: "delta list \<Rightarrow> sorted_delta_iterator" where
  "example_deltas ds = \<lparr> sdi_index = 0, sdi_triples = ds \<rparr>"

lemma example_rest: "sti_rest (example_ids ts) = ts" "sti_pos (example_ids ts) = 0" "sti_triples (example_ids ts) = ts"
  "sdi_rest (example_deltas ds) = ds"
  by (simp_all add: sti_rest_def sdi_rest_def example_ids_def example_deltas_def)

lemma example_leads:
  "leads SPO example_heap [deleted example_dict (mk_triple 1 1 2), added example_dict (mk_triple 2 1 2)]
     {(''a'', ''p'', ''b'')} {(''c'', ''p'', ''b'')}"
  "leads SPO example_heap [added example_dict (mk_triple 1 1 2), added example_dict (mk_triple 1 1 3)]
     {(''c'', ''p'', ''b'')} {(''a'', ''p'', ''b''), (''a'', ''p'', ''d''), (''c'', ''p'', ''b'')}"
  "leads SPO example_heap [added example_dict (mk_triple 1 1 3)]
     {(''a'', ''p'', ''b'')} {(''a'', ''p'', ''b''), (''a'', ''p'', ''d'')}"
  by (rule leadsI; auto simp: example_located delta_key_def key_of_def example_texts)+

section \<open>Properties\<close>

text \<open>C34: \<open>PlainDiffDeltaIterator\<close>, over iterators that list two versions in SPO order, each under its own
  dictionary, returns the difference: the triples of the first that the second does not have, compared by
  their strings, as deletions, those of the second that the first does not have as additions, each once, in
  order, and then nothing more.\<close>

theorem plain_diff_leads:
  assumes "iterator_source n1 ok1 rest1" "iterator_source n2 ok2 rest2" "ok1 i1" "ok2 i2" "managers_ok heap"
    "holds SPO heap d1 (rest1 i1) A" "holds SPO heap d2 (rest2 i2) B" "length (rest1 i1) + length (rest2 i2) < fuel"
  shows "\<exists>it ds. pdi_new n1 n2 i1 i2 d1 d2 = Inr it \<and> drain (pdi_next n1 n2 fuel) fuel td it = Inr ds \<and>
    leads SPO heap ds A B"
proof -
  note l = triple_sources.intro [OF assms(1,2)]
  obtain it where it: "pdi_new n1 n2 i1 i2 d1 d2 = Inr it"
    "triple_sources.pdi_ok ok1 rest1 ok2 (Suc (length (rest1 i1))) it"
    "triple_sources.pdi_rest rest1 rest2 it = difference (get_triple_comparator SPO d1 d2) d1 d2 (rest1 i1) (rest2 i2)"
    by (rule triple_sources.pdi_new_rest [OF l assms(3,4)])
  have "length (triple_sources.pdi_rest rest1 rest2 it) < fuel"
    unfolding it(3) difference_def using merge_lists_length assms(8) by (rule le_less_trans)
  then have "drain (pdi_next n1 n2 fuel) fuel td it = Inr (triple_sources.pdi_rest rest1 rest2 it)"
    using assms(8) by (intro iterator_source.drain_rest [OF triple_sources.pdi_source [OF l] it(2)]) simp_all
  then show ?thesis
    using it(1) difference_leads [OF assms(5-7), of d1 d2] unfolding it(3) by blast
qed

theorem plain_diff_leads_witness:
  "\<exists>it ds. pdi_new (snapshot_triple_iterator_next sti_has_next sti_next) (snapshot_triple_iterator_next sti_has_next sti_next)
       (example_ids [mk_triple 1 1 2, mk_triple 1 1 3]) (example_ids [mk_triple 1 1 3, mk_triple 2 1 2])
       example_dict example_dict = Inr it \<and>
     drain (pdi_next (snapshot_triple_iterator_next sti_has_next sti_next) (snapshot_triple_iterator_next sti_has_next sti_next) 5)
       5 default_triple_delta it = Inr ds \<and>
     leads SPO example_heap ds {(''a'', ''p'', ''b''), (''a'', ''p'', ''d'')} {(''a'', ''p'', ''d''), (''c'', ''p'', ''b'')}"
  by (rule plain_diff_leads [OF sti_triple_source sti_triple_source])
    (simp_all add: example_rest example_managers example_holds)

text \<open>C35: \<open>SnapshotDiffIterator\<close>, over the triples of two snapshots in the order of the query, returns the same
  difference of the two versions, each deletion under the first dictionary and each addition under the
  second.\<close>

theorem snapshot_diff_leads:
  assumes "triple_id_iterator hn1 nx1 ok1 rest1" "triple_id_iterator hn2 nx2 ok2 rest2" "ok1 i1" "ok2 i2"
    "managers_ok heap" "holds q heap d1 (rest1 i1) A" "holds q heap d2 (rest2 i2) B"
    "length (rest1 i1) + length (rest2 i2) < fuel"
  shows "\<exists>it ds. sdf_new hn1 nx1 hn2 nx2 i1 i2 d1 d2 q = Inr it \<and>
    drain (sdf_next hn1 nx1 hn2 nx2 fuel) fuel td it = Inr ds \<and> leads q heap ds A B \<and>
    (\<forall>d\<in>set ds. td_dict d = (if td_addition d then d2 else d1))"
proof -
  note l = id_sources.intro [OF assms(1,2)]
  obtain it where it: "sdf_new hn1 nx1 hn2 nx2 i1 i2 d1 d2 q = Inr it"
    "id_sources.sdf_ok ok1 rest1 ok2 (Suc (length (rest1 i1))) it"
    "id_sources.sdf_rest rest1 rest2 it = difference (get_triple_comparator q None None) d1 d2 (rest1 i1) (rest2 i2)"
    by (rule id_sources.sdf_new_rest [OF l assms(3,4)])
  have "length (id_sources.sdf_rest rest1 rest2 it) < fuel"
    unfolding it(3) difference_def using merge_lists_length assms(8) by (rule le_less_trans)
  then have "drain (sdf_next hn1 nx1 hn2 nx2 fuel) fuel td it = Inr (id_sources.sdf_rest rest1 rest2 it)"
    using assms(8) by (intro iterator_source.drain_rest [OF id_sources.sdf_source [OF l] it(2)]) simp_all
  moreover have "\<forall>d\<in>set (difference c d1 d2 xs ys). td_dict d = (if td_addition d then d2 else d1)" for c xs ys
    unfolding difference_def by (rule ballI) (rule merge_lists_all, auto)
  ultimately show ?thesis
    using it(1) difference_leads [OF assms(5-7), of None None] unfolding it(3) by blast
qed

theorem snapshot_diff_leads_witness:
  "\<exists>it ds. sdf_new sti_has_next sti_next sti_has_next sti_next (example_ids [mk_triple 1 1 2, mk_triple 1 1 3])
       (example_ids [mk_triple 1 1 3, mk_triple 2 1 2]) example_dict example_dict SPO = Inr it \<and>
     drain (sdf_next sti_has_next sti_next sti_has_next sti_next 5) 5 default_triple_delta it = Inr ds \<and>
     leads SPO example_heap ds {(''a'', ''p'', ''b''), (''a'', ''p'', ''d'')} {(''a'', ''p'', ''d''), (''c'', ''p'', ''b'')} \<and>
     (\<forall>d\<in>set ds. td_dict d = (if td_addition d then example_dict else example_dict))"
  by (rule snapshot_diff_leads [OF sti_source sti_source])
    (simp_all add: example_rest example_managers example_holds)

text \<open>C36: \<open>MergeDiffIterator\<close> composes deltas: over an iterator whose deltas lead from a first version to a second
  and one whose deltas lead from the second to a third, in the order of the query, it returns deltas that
  lead from the first to the third. What the first adds and the second deletes again, or the other way
  round, does not come out.\<close>

theorem merge_diff_leads:
  assumes "iterator_source n1 ok1 rest1" "iterator_source n2 ok2 rest2" "ok1 i1" "ok2 i2" "managers_ok heap"
    "leads q heap (rest1 i1) A B" "leads q heap (rest2 i2) B C" "length (rest1 i1) + length (rest2 i2) < fuel"
  shows "\<exists>m ds. mdi_new n1 n2 i1 i2 q = Inr m \<and> drain (mdi_next n1 n2 fuel) fuel td m = Inr ds \<and>
    leads q heap ds A C"
proof -
  note l = delta_sources.intro [OF assms(1,2)]
  obtain m where m: "mdi_new n1 n2 i1 i2 q = Inr m" "delta_sources.mdi_ok ok1 rest1 ok2 (Suc (length (rest1 i1))) m"
    "delta_sources.mdi_rest rest1 rest2 m = compose (get_triple_comparator q None None) (rest1 i1) (rest2 i2)"
    by (rule delta_sources.mdi_new_rest [OF l assms(3,4)])
  have "length (delta_sources.mdi_rest rest1 rest2 m) < fuel"
    unfolding m(3) compose_def using merge_lists_length assms(8) by (rule le_less_trans)
  then have "drain (mdi_next n1 n2 fuel) fuel td m = Inr (delta_sources.mdi_rest rest1 rest2 m)"
    using assms(8) by (intro iterator_source.drain_rest [OF delta_sources.mdi_source [OF l] m(2)]) simp_all
  then show ?thesis
    using m(1) compose_leads [OF assms(5-7), of None None] unfolding m(3) by blast
qed

theorem merge_diff_leads_witness:
  "\<exists>m ds. mdi_new sdi_next sdi_next
       (example_deltas [deleted example_dict (mk_triple 1 1 2), added example_dict (mk_triple 2 1 2)])
       (example_deltas [added example_dict (mk_triple 1 1 2), added example_dict (mk_triple 1 1 3)]) SPO = Inr m \<and>
     drain (mdi_next sdi_next sdi_next 5) 5 default_triple_delta m = Inr ds \<and>
     leads SPO example_heap ds {(''a'', ''p'', ''b'')}
       {(''a'', ''p'', ''b''), (''a'', ''p'', ''d''), (''c'', ''p'', ''b'')}"
  by (rule merge_diff_leads [OF sdi_source sdi_source, where B = "{(''c'', ''p'', ''b'')}"])
    (simp_all add: example_rest example_managers example_leads)

text \<open>C37: The deltas between versions of two delta chains, as \<open>Controller::get_delta_materialized\<close> combines them:
  the deltas from the first snapshot to the start version, the difference of the two snapshots, both in a
  \<open>MergeDiffIteratorCase2\<close>, and the deltas from the second snapshot to the end version, in a
  \<open>MergeDiffIterator\<close> over that, lead from the start version to the end version.\<close>

theorem delta_across_chains:
  assumes "iterator_source n1 ok1 rest1" "iterator_source n2 ok2 rest2" "iterator_source n3 ok3 rest3"
    "ok1 i1" "ok2 i2" "ok3 i3" "managers_ok heap"
    "leads q heap (rest1 i1) S1 V1" "leads q heap (rest2 i2) S1 S2" "leads q heap (rest3 i3) S2 V2"
    "length (rest1 i1) + length (rest2 i2) + length (rest3 i3) < fuel"
  shows "\<exists>m it ds. mdi_new n1 n2 i1 i2 q = Inr m \<and> mdi_new (mdi2_next n1 n2 fuel) n3 m i3 q = Inr it \<and>
    drain (mdi_next (mdi2_next n1 n2 fuel) n3 fuel) fuel td it = Inr ds \<and> leads q heap ds V1 V2"
proof -
  note l = delta_sources.intro [OF assms(1,2)]
  define n where "n = Suc (length (rest1 i1))"
  obtain m where m: "mdi_new n1 n2 i1 i2 q = Inr m" "delta_sources.mdi_ok ok1 rest1 ok2 n m"
    "delta_sources.mdi2_rest rest1 rest2 m = compose_inverse (get_triple_comparator q None None) (rest1 i1) (rest2 i2)"
    unfolding n_def by (rule delta_sources.mdi_new_rest [OF l assms(4,5)])
  have len: "length (delta_sources.mdi2_rest rest1 rest2 m) \<le> length (rest1 i1) + length (rest2 i2)"
    unfolding m(3) compose_inverse_def by (rule merge_lists_length)
  have s: "iterator_source (mdi2_next n1 n2 fuel) (delta_sources.mdi_ok ok1 rest1 ok2 n) (delta_sources.mdi2_rest rest1 rest2)"
    using assms(11) by (intro delta_sources.mdi2_source [OF l]) (simp add: n_def)
  have v: "leads q heap (delta_sources.mdi2_rest rest1 rest2 m) V1 S2"
    unfolding m(3) by (rule compose_inverse_leads [OF assms(7-9)])
  note l2 = delta_sources.intro [OF s assms(3)]
  define k where "k = Suc (length (delta_sources.mdi2_rest rest1 rest2 m))"
  obtain it where it: "mdi_new (mdi2_next n1 n2 fuel) n3 m i3 q = Inr it"
    "delta_sources.mdi_ok (delta_sources.mdi_ok ok1 rest1 ok2 n) (delta_sources.mdi2_rest rest1 rest2) ok3 k it"
    "delta_sources.mdi_rest (delta_sources.mdi2_rest rest1 rest2) rest3 it =
     compose (get_triple_comparator q None None) (delta_sources.mdi2_rest rest1 rest2 m) (rest3 i3)"
    unfolding k_def by (rule delta_sources.mdi_new_rest [OF l2 m(2) assms(6)])
  have "length (delta_sources.mdi_rest (delta_sources.mdi2_rest rest1 rest2) rest3 it) < fuel"
    unfolding it(3) compose_def by (rule le_less_trans [OF merge_lists_length]) (use len assms(11) in linarith)
  moreover have "k \<le> fuel" using len assms(11) by (simp add: k_def)
  ultimately have "drain (mdi_next (mdi2_next n1 n2 fuel) n3 fuel) fuel td it =
      Inr (delta_sources.mdi_rest (delta_sources.mdi2_rest rest1 rest2) rest3 it)"
    by (intro iterator_source.drain_rest [OF delta_sources.mdi_source [OF l2] it(2)])
  then show ?thesis
    using m(1) it(1) compose_leads [OF assms(7) v assms(10), of None None] unfolding it(3) by blast
qed

theorem delta_across_chains_witness:
  "\<exists>m it ds. mdi_new sdi_next sdi_next (example_deltas [added example_dict (mk_triple 1 1 3)])
       (example_deltas [deleted example_dict (mk_triple 1 1 2), added example_dict (mk_triple 2 1 2)]) SPO = Inr m \<and>
     mdi_new (mdi2_next sdi_next sdi_next 9) sdi_next m
       (example_deltas [added example_dict (mk_triple 1 1 2), added example_dict (mk_triple 1 1 3)]) SPO = Inr it \<and>
     drain (mdi_next (mdi2_next sdi_next sdi_next 9) sdi_next 9) 9 default_triple_delta it = Inr ds \<and>
     leads SPO example_heap ds {(''a'', ''p'', ''b''), (''a'', ''p'', ''d'')}
       {(''a'', ''p'', ''b''), (''a'', ''p'', ''d''), (''c'', ''p'', ''b'')}"
  by (rule delta_across_chains [OF sdi_source sdi_source sdi_source, where ?S1.0 = "{(''a'', ''p'', ''b'')}" and
      ?S2.0 = "{(''c'', ''p'', ''b'')}"])
    (simp_all add: example_rest example_managers example_leads)

end
