(* ===== verification/Versions_Properties.thy ===== *)
theory Versions_Properties
  imports Append_Properties Versions_Iterators Delta_Properties
begin

text \<open>
  What the iterators over triples with versions return: the versions of a triple are those it is not deleted
  in, and combining the iterators of several delta chains is the union of what they list.
\<close>

section \<open>Sorted vectors of versions\<close>

lemma erase_equal_range_sorted: "sorted_wrt (<) vs \<Longrightarrow> erase_equal_range x vs = filter (\<lambda>v. v \<noteq> x) vs"
proof (induction vs)
  case (Cons v vs)
  consider "v < x" | "v = x" | "x < v" by linarith
  then show ?case
  proof cases
    case 2
    then have "\<forall>w\<in>set vs. x < w" using Cons.prems by simp
    then have "dropWhile (\<lambda>w. w \<le> x) vs = vs" "filter (\<lambda>w. w \<noteq> x) vs = vs"
      by (cases vs; force) (use \<open>\<forall>w\<in>set vs. x < w\<close> in \<open>fastforce simp: filter_id_conv\<close>)
    then show ?thesis using 2 by (simp add: erase_equal_range_def)
  next
    case 3
    then have "\<forall>w\<in>set vs. x < w" using Cons.prems by auto
    then have "filter (\<lambda>w. w \<noteq> x) vs = vs" by (fastforce simp: filter_id_conv)
    then show ?thesis using 3 by (simp add: erase_equal_range_def)
  qed (use Cons in \<open>simp add: erase_equal_range_def\<close>)
qed (simp add: erase_equal_range_def)

lemma set_union_sorted:
  assumes "sorted_wrt (<) xs" "sorted_wrt (<) ys"
  shows "sorted_wrt (<) (set_union xs ys)" "set (set_union xs ys) = set xs \<union> set ys"
proof -
  show s: "set (set_union xs ys) = set xs \<union> set ys" for xs ys
    by (induction xs ys rule: set_union.induct) auto
  show "sorted_wrt (<) (set_union xs ys)"
    using assms by (induction xs ys rule: set_union.induct) (auto simp: s)
qed

section \<open>The versions of a triple\<close>

text \<open>When the elements of a deletion value can be read, the loop keeps the versions that none of them has.\<close>

lemma erase_loop_filter:
  assumes "\<And>j. j < length ids \<Longrightarrow> \<exists>e. dv_get_patch_at True (k + int j) d = Inr e \<and> el_patch_id e = ids ! j"
    "sorted_wrt (<) vs"
  shows "erase_loop d k (length ids) vs = Inr (filter (\<lambda>v. v \<notin> set ids) vs)"
  using assms
proof (induction ids arbitrary: k vs)
  case (Cons i ids)
  obtain e where e: "dv_get_patch_at True k d = Inr e" "el_patch_id e = i"
    using Cons.prems(1) [of 0] by auto
  have "erase_loop d (k + 1) (length ids) (filter (\<lambda>v. v \<noteq> i) vs) =
      Inr (filter (\<lambda>v. v \<notin> set ids) (filter (\<lambda>v. v \<noteq> i) vs))"
  proof (rule Cons.IH)
    show "\<exists>e. dv_get_patch_at True (k + 1 + int j) d = Inr e \<and> el_patch_id e = ids ! j" if "j < length ids" for j
      using Cons.prems(1) [of "Suc j"] that by (simp add: algebra_simps)
  qed (simp add: Cons.prems(2) sorted_wrt_filter)
  then show ?case
    by (simp add: e erase_equal_range_sorted [OF Cons.prems(2)] conj_commute)
qed simp

text \<open>A deletion value built from a history lists the versions the triple is deleted in, if each is at or
  after the first local change.\<close>

lemma deletion_elements:
  assumes "dv_ascending evs" "\<forall>e\<in>set evs. dv_event_id e \<le> m" "- 1 \<le> m" "m < INT_MAX"
    "\<forall>x\<le>m. deleted_at evs x \<longrightarrow> (case first_added (concat (map local_events evs)) of None \<Rightarrow> True | Some a \<Rightarrow> a \<le> x)"
  obtains v ids where "dv_run True evs (dv_new m) = Inr v" "dv_get_size v = int (length ids)"
    "set ids = {x. x \<le> m \<and> deleted_at evs x}"
    "\<forall>j<length ids. \<exists>e. dv_get_patch_at True (int j) v = Inr e \<and> el_patch_id e = ids ! j"
proof -
  have mi: "m + 1 \<le> INT_MAX" using assms(4) by simp
  obtain v where v: "dv_run True evs (dv_new m) = Inr v" "dv_max_patch_id v = m + 1"
    "il_settled (m + 1) (dv_patches (dv_elements v))" "il_settled (m + 1) (dv_local_changes (dv_elements v))"
    "\<forall>x < INT_MAX. il_mem (dv_patches (dv_elements v)) x = deleted_at evs x"
    "\<forall>x < INT_MAX. il_mem (dv_local_changes (dv_elements v)) x = local_at evs x"
    "il_start (dv_local_changes (dv_elements v)) = first_added (concat (map local_events evs))"
    "\<forall>q lim p. positions_at evs q = Some p \<longrightarrow> v2_get_positions q lim (dv_positions (dv_elements v)) = Inr (Some p)"
    using dv_run_lookup [OF assms(1-4)] .
  define ids where "ids = il_values (m + 1) (dv_patches (dv_elements v))"
  note f = il_settled_values [OF v(3) order_refl mi, folded ids_def]
  show thesis
  proof (rule that [OF v(1), of ids])
    show "dv_get_size v = int (length ids)" using f(3) v(2) by (simp add: dv_get_size_def dvi_size_def)
    show s: "set ids = {x. x \<le> m \<and> deleted_at evs x}" using f(1) v(5) assms(4) by auto
    show "\<forall>j<length ids. \<exists>e. dv_get_patch_at True (int j) v = Inr e \<and> el_patch_id e = ids ! j"
    proof (intro allI impI)
      fix j
      assume j: "j < length ids"
      have id: "il_get_element_at (int j) (m + 1) (dv_patches (dv_elements v)) = ids ! j"
        using f(4) [of "int j"] j by simp
      have d: "ids ! j \<le> m" "deleted_at evs (ids ! j)" using s nth_mem [OF j] by auto
      then obtain p where "positions_at evs (ids ! j) = Some p" using positions_at_deleted by blast
      moreover have "\<exists>b. il_is_in (ids ! j) (dv_local_changes (dv_elements v)) = Inr b"
        using il_is_in_settled [OF v(4), of "ids ! j"] v(7) d assms(4,5) by (auto split: option.splits)
      ultimately show "\<exists>e. dv_get_patch_at True (int j) v = Inr e \<and> el_patch_id e = ids ! j"
        using id v(2,8) by (auto simp: dv_get_patch_at_def dvi_get_element_at_def Let_def dve_make_def dve_new_def)
    qed
  qed
qed

section \<open>Lists of triples with versions\<close>

definition versions_text :: "versions \<Rightarrow> spelling" where
  "versions_text tv = text_of (tvs_dict tv) (tvs_triple tv)"

definition versions_key :: "component_order \<Rightarrow> versions \<Rightarrow> spelling" where
  "versions_key q tv = key_of q (tvs_dict tv) (tvs_triple tv)"

lemma versions_key_text: "versions_key q a = versions_key q b \<longleftrightarrow> versions_text a = versions_text b"
  by (simp add: versions_key_def versions_text_def key_of_def)

definition well_listed :: "component_order \<Rightarrow> (nat \<Rightarrow> dictionary_manager) \<Rightarrow> versions list \<Rightarrow> bool" where
  "well_listed q heap tvs \<longleftrightarrow> ascending (versions_key q) tvs \<and>
     (\<forall>tv\<in>set tvs. located heap (tvs_dict tv) (tvs_triple tv) \<and> sorted_wrt (<) (tvs_versions tv))"

definition facts_of :: "versions list \<Rightarrow> (spelling \<times> int) set" where
  "facts_of tvs = {(versions_text tv, v) |tv v. tv \<in> set tvs \<and> v \<in> set (tvs_versions tv)}"

lemma facts_of_Cons:
  "facts_of [] = {}" "facts_of (tv # tvs) = Pair (versions_text tv) ` set (tvs_versions tv) \<union> facts_of tvs"
  by (auto simp: facts_of_def)

text \<open>A list has each triple once, in order, with its versions in order; \<open>F\<close> are the pairs of a triple, in
  strings, and a version it is in.\<close>

definition lists :: "component_order \<Rightarrow> (nat \<Rightarrow> dictionary_manager) \<Rightarrow> versions list \<Rightarrow> (spelling \<times> int) set \<Rightarrow> bool" where
  "lists q heap tvs F \<longleftrightarrow> well_listed q heap tvs \<and> facts_of tvs = F"

lemma versions_compare:
  assumes "managers_ok heap" "located heap (tvs_dict x) (tvs_triple x)" "located heap (tvs_dict y) (tvs_triple y)"
  shows "compare_triple_versions (get_triple_comparator q a b) x y = 0 \<longleftrightarrow> versions_key q x = versions_key q y"
    "compare_triple_versions (get_triple_comparator q a b) x y < 0 \<longleftrightarrow> versions_key q x < versions_key q y"
    "less_triple_versions (get_triple_comparator q a b) x y \<longleftrightarrow> versions_key q x < versions_key q y"
  using compare_with_text [OF assms]
  by (simp_all add: compare_triple_versions_def less_triple_versions_def versions_key_def)

definition united :: "versions \<Rightarrow> versions \<Rightarrow> versions" where
  "united x y = y\<lparr> tvs_versions := set_union (tvs_versions y) (tvs_versions x) \<rparr>"

definition union_lists :: "triple_comparator \<Rightarrow> versions list \<Rightarrow> versions list \<Rightarrow> versions list" where
  "union_lists c = merge_lists (compare_triple_versions c) (\<lambda>x. x) (\<lambda>y. y) (\<lambda>x y. Some (united x y))"

lemma united_simps [simp]:
  "versions_key q (united x y) = versions_key q y" "versions_text (united x y) = versions_text y"
  "tvs_dict (united x y) = tvs_dict y" "tvs_triple (united x y) = tvs_triple y"
  by (simp_all add: united_def versions_key_def versions_text_def)

lemma union_lists_listed:
  assumes "managers_ok heap" "well_listed q heap xs" "well_listed q heap ys"
  shows "lists q heap (union_lists (get_triple_comparator q a b) xs ys) (facts_of xs \<union> facts_of ys)"
proof -
  note x = assms(2) [unfolded well_listed_def] and y = assms(3) [unfolded well_listed_def]
  have ag: "agrees (compare_triple_versions (get_triple_comparator q a b)) (versions_key q) (versions_key q) (set xs) (set ys)"
    using versions_compare [OF assms(1)] x y by (simp add: agrees_def)
  have s: "set (union_lists (get_triple_comparator q a b) xs ys) =
      {x \<in> set xs. versions_key q x \<notin> versions_key q ` set ys} \<union>
      {y \<in> set ys. versions_key q y \<notin> versions_key q ` set xs} \<union>
      {united x y |x y. x \<in> set xs \<and> y \<in> set ys \<and> versions_key q x = versions_key q y}"
    unfolding union_lists_def set_merge_lists [OF ag x [THEN conjunct1] y [THEN conjunct1]] by auto
  have u: "sorted_wrt (<) (tvs_versions (united x y))" "set (tvs_versions (united x y)) = set (tvs_versions x) \<union> set (tvs_versions y)"
    if "x \<in> set xs" "y \<in> set ys" for x y
    using that x y set_union_sorted [of "tvs_versions y" "tvs_versions x"] by (auto simp: united_def)
  have "ascending (versions_key q) (union_lists (get_triple_comparator q a b) xs ys)"
    unfolding union_lists_def using x y by (intro ascending_merge_lists [OF ag]) auto
  then have w: "well_listed q heap (union_lists (get_triple_comparator q a b) xs ys)"
    using x y u by (auto simp: well_listed_def s)
  have "facts_of (union_lists (get_triple_comparator q a b) xs ys) \<subseteq> facts_of xs \<union> facts_of ys"
  proof (rule subsetI)
    fix p
    assume "p \<in> facts_of (union_lists (get_triple_comparator q a b) xs ys)"
    then obtain tv v where p: "p = (versions_text tv, v)" "v \<in> set (tvs_versions tv)"
      and tv: "tv \<in> set (union_lists (get_triple_comparator q a b) xs ys)" by (auto simp: facts_of_def)
    from tv consider "tv \<in> set xs" | "tv \<in> set ys"
      | x y where "tv = united x y" "x \<in> set xs" "y \<in> set ys" "versions_key q x = versions_key q y"
      unfolding s by blast
    then show "p \<in> facts_of xs \<union> facts_of ys"
    proof cases
      case (3 x y)
      have e: "versions_text x = versions_text y" using 3(4) by (simp add: versions_key_text)
      show ?thesis using p 3 u(2) [OF 3(2,3)] by (auto simp: facts_of_def) (metis e)
    qed (use p in \<open>auto simp: facts_of_def\<close>)
  qed
  moreover have "facts_of xs \<union> facts_of ys \<subseteq> facts_of (union_lists (get_triple_comparator q a b) xs ys)"
  proof (rule subsetI)
    fix p
    assume "p \<in> facts_of xs \<union> facts_of ys"
    then consider (x) x v where "p = (versions_text x, v)" "x \<in> set xs" "v \<in> set (tvs_versions x)"
      | (y) y v where "p = (versions_text y, v)" "y \<in> set ys" "v \<in> set (tvs_versions y)"
      by (auto simp: facts_of_def)
    then have "\<exists>tv v. p = (versions_text tv, v) \<and> tv \<in> set (union_lists (get_triple_comparator q a b) xs ys) \<and>
        v \<in> set (tvs_versions tv)"
    proof cases
      case x
      show ?thesis
      proof (cases "versions_key q x \<in> versions_key q ` set ys")
        case True
        then obtain y where y: "y \<in> set ys" "versions_key q x = versions_key q y" by auto
        have "united x y \<in> set (union_lists (get_triple_comparator q a b) xs ys)" unfolding s using x(2) y by blast
        moreover have "p = (versions_text (united x y), v)" using x(1) y(2) by (simp add: versions_key_text)
        moreover have "v \<in> set (tvs_versions (united x y))" using u(2) [OF x(2) y(1)] x(3) by simp
        ultimately show ?thesis by blast
      next
        case False
        then show ?thesis using x unfolding s by blast
      qed
    next
      case y
      show ?thesis
      proof (cases "versions_key q y \<in> versions_key q ` set xs")
        case True
        then obtain x where x: "x \<in> set xs" "versions_key q x = versions_key q y" by auto
        have "united x y \<in> set (union_lists (get_triple_comparator q a b) xs ys)" unfolding s using y(2) x by blast
        moreover have "p = (versions_text (united x y), v)" using y(1) by simp
        moreover have "v \<in> set (tvs_versions (united x y))" using u(2) [OF x(1) y(2)] y(3) by simp
        ultimately show ?thesis by blast
      next
        case False
        then show ?thesis using y unfolding s by blast
      qed
    qed
    then show "p \<in> facts_of (union_lists (get_triple_comparator q a b) xs ys)" unfolding facts_of_def by blast
  qed
  ultimately show ?thesis using w by (auto simp: lists_def)
qed

section \<open>Adding an iterator\<close>

lemma union_lists_before:
  assumes "\<forall>u\<in>set us. compare_triple_versions c t u > 0"
  shows "union_lists c (t # ts) (us @ vs) = us @ union_lists c (t # ts) vs"
  using assms by (induction us) (simp_all add: union_lists_def)

lemma union_lists_Nil [simp]: "union_lists c [] ys = ys" "union_lists c xs [] = xs"
  by (simp_all add: union_lists_def)

lemma well_listed_append: "well_listed q heap (us @ vs) \<Longrightarrow> well_listed q heap us \<and> well_listed q heap vs"
  by (auto simp: well_listed_def sorted_wrt_append)

lemma well_listed_Cons: "well_listed q heap (x # xs) \<Longrightarrow> well_listed q heap xs \<and> located heap (tvs_dict x) (tvs_triple x)"
  by (auto simp: well_listed_def)

text \<open>How much fuel the loop needs: two rounds for each triple to come, one less when the first goes where
  the position is.\<close>

definition rounds :: "component_order \<Rightarrow> versions list \<Rightarrow> versions list \<Rightarrow> nat" where
  "rounds q P todo = 2 * length P +
     (case (P, todo) of (p # _, y # _) \<Rightarrow> if versions_key q y < versions_key q p then 1 else 0 | _ \<Rightarrow> 0)"

lemma rounds_le: "rounds q P todo \<le> 2 * length P + 1"
  by (auto simp: rounds_def split: list.split)

lemma cb2_loop_result:
  assumes "iterator_source nxt ok rest" "managers_ok heap" "ok it" "pos = length done"
    "well_listed q heap (pending status t (rest it))" "well_listed q heap todo"
    "rounds q (pending status t (rest it)) todo < fuel"
  shows "cb2_loop nxt fuel (get_triple_comparator q a b) status t it pos (done @ todo) =
    Inr (done @ union_lists (get_triple_comparator q a b) (pending status t (rest it)) todo)"
  using assms(3-)
proof (induction fuel arbitrary: status t it pos "done" todo)
  case (Suc fuel)
  define c where "c = get_triple_comparator q a b"
  note less_rounds = order.strict_trans1 [OF rounds_le]
  obtain b1 t1 i1 where 1: "nxt t it = Inr (b1, t1, i1)" "ok i1" "rest it = pending b1 t1 (rest i1)"
    by (rule iterator_source.next_pending [OF assms(1) Suc.prems(1)])
  obtain b2 t2 i2 where 2: "nxt default_triple_versions it = Inr (b2, t2, i2)" "ok i2" "rest it = pending b2 t2 (rest i2)"
    by (rule iterator_source.next_pending [OF assms(1) Suc.prems(1)])
  show ?case
  proof (cases status)
    case False
    then show ?thesis by (simp add: c_def)
  next
    case True
    have P: "pending status t (rest it) = t # rest it" using True by simp
    have tl: "well_listed q heap (rest it)" "located heap (tvs_dict t) (tvs_triple t)"
      using well_listed_Cons Suc.prems(3) unfolding P by blast+
    have r: "rounds q (t # rest it) todo < Suc fuel" using Suc.prems(5) by (simp only: P)
    have len: "2 * length (rest it) + 1 < fuel" using r by (simp add: rounds_def split: list.splits if_splits)
    show ?thesis
    proof (cases todo)
      case Nil
      have "cb2_loop nxt fuel c b2 t2 i2
          (length (done @ [t])) ((done @ [t]) @ []) =
        Inr ((done @ [t]) @ union_lists c (pending b2 t2
          (rest i2)) [])"
        unfolding c_def using tl(1) 2(3) [symmetric] len
        by (intro Suc.IH 2(2)) (auto simp: well_listed_def intro: less_rounds)
      then show ?thesis
        using True Nil Suc.prems(2) 2(1,3) by (simp add: c_def)
    next
      case (Cons y ys)
      have y: "well_listed q heap ys" "located heap (tvs_dict y) (tvs_triple y)"
        using well_listed_Cons Suc.prems(4) unfolding Cons by blast+
      note cmp = versions_compare [OF assms(2) tl(2) y(2), of q a b, folded c_def]
      consider (eq) "compare_triple_versions c t y = 0" | (lt) "compare_triple_versions c t y < 0"
        | (gt) "compare_triple_versions c t y > 0" by linarith
      then show ?thesis
      proof cases
        case eq
        have "cb2_loop nxt fuel c b1 t1 i1 (length (done @ [united t y])) ((done @ [united t y]) @ ys) =
            Inr ((done @ [united t y]) @ union_lists c (pending b1 t1 (rest i1)) ys)"
          unfolding c_def using tl(1) y(1) 1(3) [symmetric] len
          by (intro Suc.IH 1(2)) (auto intro: less_rounds)
        then show ?thesis
          using True Cons eq Suc.prems(2) 1(1,3)
          by (simp add: c_def [symmetric] united_def [symmetric] union_lists_def nth_append list_update_append)
      next
        case lt
        have "cb2_loop nxt fuel c b2 t2 i2
            (length (done @ [t])) ((done @ [t]) @ todo) =
          Inr ((done @ [t]) @ union_lists c (pending b2 t2
            (rest i2)) todo)"
          unfolding c_def using tl(1) Suc.prems(4) 2(3) [symmetric] len
          by (intro Suc.IH 2(2)) (auto intro: less_rounds)
        then show ?thesis
          using True Cons lt Suc.prems(2) 2(1,3)
          by (simp add: c_def [symmetric] union_lists_def nth_append)
      next
        case gt
        obtain us vs where uv: "todo = us @ vs" "\<forall>e\<in>set us. less_triple_versions c e t"
          "vs = [] \<or> \<not> less_triple_versions c (hd vs) t" "lower_bound (\<lambda>e. less_triple_versions c e t) todo = length us"
          by (rule lower_bound_split)
        note w = well_listed_append [OF Suc.prems(4) [unfolded uv(1)]]
        have loc: "located heap (tvs_dict e) (tvs_triple e)" if "e \<in> set todo" for e
          using Suc.prems(4) that by (auto simp: well_listed_def)
        have flip: "less_triple_versions c e t \<longleftrightarrow> compare_triple_versions c t e > 0" if "e \<in> set todo" for e
          using versions_compare [OF assms(2) loc [OF that] tl(2), of q a b, folded c_def]
            versions_compare [OF assms(2) tl(2) loc [OF that], of q a b, folded c_def] by auto
        have "versions_key q t \<noteq> versions_key q y" "\<not> versions_key q t < versions_key q y"
          using cmp(1,2) gt by auto
        then have y_lt: "versions_key q y < versions_key q t" using linorder_neqE by blast
        have "rounds q (t # rest it) vs < fuel"
        proof -
          have "rounds q (t # rest it) vs = 2 * length (t # rest it)"
            using uv(1,3) versions_compare(3) [OF assms(2) loc tl(2), of _ q a b, folded c_def]
            by (cases vs) (auto simp: rounds_def)
          moreover have "rounds q (t # rest it) todo = 2 * length (t # rest it) + 1"
            using y_lt Cons by (simp add: rounds_def)
          ultimately show ?thesis using r by simp
        qed
        then have "cb2_loop nxt fuel c True t it (length (done @ us)) ((done @ us) @ vs) =
            Inr ((done @ us) @ union_lists c (pending True t (rest it)) vs)"
          unfolding c_def using Suc.prems(1,3) w P True by (intro Suc.IH) auto
        moreover have "union_lists c (t # rest it) (us @ vs) = us @ union_lists c (t # rest it) vs"
          using uv(1,2) flip by (intro union_lists_before) auto
        moreover have "lower_bound_from pos (\<lambda>e. less_triple_versions c e t) (done @ todo) = length (done @ us)"
          using uv(4) Suc.prems(2) by (simp add: lower_bound_from_def)
        moreover have "(done @ todo) ! pos = y" "pos \<noteq> length (done @ todo)" using Cons Suc.prems(2) by auto
        ultimately show ?thesis
          using True gt uv(1) by (simp add: c_def [symmetric])
      qed
    qed
  qed
qed simp


lemma cb2_add_iterator_result:
  assumes "iterator_source nxt ok rest" "managers_ok heap" "ok it"
    "lists q heap (rest it) F" "lists q heap (cbi_triples cb) G"
    "cbi_comparator cb = get_triple_comparator q None None" "2 * length (rest it) + 1 < fuel"
  obtains tvs where "cb2_add_iterator nxt fuel it cb = Inr (cb\<lparr> cbi_triples := tvs, cbi_triples_it := 0 \<rparr>)"
    "lists q heap tvs (F \<union> G)"
proof -
  define c where "c = get_triple_comparator q None None"
  define L where "L = rest it"
  note wL = assms(4) [unfolded lists_def, THEN conjunct1, folded L_def] and wT = assms(5) [unfolded lists_def, THEN conjunct1]
  obtain b t s where 1: "nxt default_triple_versions it = Inr (b, t, s)" "ok s" "L = pending b t (rest s)"
    unfolding L_def by (rule iterator_source.next_pending [OF assms(1,3)])
  obtain us vs where uv: "cbi_triples cb = us @ vs" "\<forall>e\<in>set us. less_triple_versions c e t"
    "vs = [] \<or> \<not> less_triple_versions c (hd vs) t"
    "lower_bound (\<lambda>e. less_triple_versions c e t) (cbi_triples cb) = length us"
    by (rule lower_bound_split)
  note w = well_listed_append [OF wT [unfolded uv(1)]]
  have r: "rounds q (pending b t (rest s)) vs < fuel"
    using rounds_le [of q L vs] assms(7) by (simp add: 1(3) [symmetric] L_def)
  have u: "us @ union_lists c L vs = union_lists c L (us @ vs)"
  proof (cases b)
    case True
    then have L: "L = t # rest s" using 1(3) by simp
    have loc: "located heap (tvs_dict t) (tvs_triple t)" using well_listed_Cons wL unfolding L by blast
    have "compare_triple_versions c t e > 0" if e: "e \<in> set us" for e
    proof -
      have le: "located heap (tvs_dict e) (tvs_triple e)" using w e by (auto simp: well_listed_def)
      show ?thesis
        using uv(2) e versions_compare [OF assms(2) le loc, of q None None, folded c_def]
          versions_compare [OF assms(2) loc le, of q None None, folded c_def] by (fastforce simp: not_less)
    qed
    then show ?thesis unfolding L by (intro union_lists_before [symmetric]) blast
  qed (simp add: 1(3))
  have "cb2_loop nxt fuel c b t s (length us) (us @ vs) = Inr (us @ union_lists c L vs)"
    unfolding c_def 1(3) using wL r w unfolding 1(3) by (intro cb2_loop_result [OF assms(1,2) 1(2) refl]) auto
  then have "cb2_add_iterator nxt fuel it cb = Inr (cb\<lparr> cbi_triples := union_lists c L (cbi_triples cb), cbi_triples_it := 0 \<rparr>)"
    using 1(1) uv(1,4) u by (simp add: cb2_add_iterator_def assms(6) c_def)
  then show thesis
    using union_lists_listed [OF assms(2) wL wT, of None None] assms(4,5)
    by (intro that) (auto simp: c_def lists_def L_def)
qed

section \<open>Combined iterators as sources\<close>

definition cbi_rest :: "combined_versions_iterator \<Rightarrow> versions list" where
  "cbi_rest it = drop (cbi_triples_it it) (cbi_triples it)"

lemma cbi_source: "iterator_source cbi_next (\<lambda>_. True) cbi_rest"
  by (rule delivers_source)
    (auto simp: delivers_def cbi_next_def cbi_rest_def Cons_nth_drop_Suc [symmetric] split: list.split)

interpretation cbi: iterator_source cbi_next "\<lambda>_. True" cbi_rest
  by (rule cbi_source)

definition svi_rest :: "sorted_versions_iterator \<Rightarrow> versions list" where
  "svi_rest it = drop (svi_pos it) (svi_triples it)"

lemma svi_source: "iterator_source svi_next (\<lambda>_. True) svi_rest"
  by (rule delivers_source)
    (auto simp: delivers_def svi_next_def svi_rest_def Cons_nth_drop_Suc [symmetric] split: list.split)

interpretation svi: iterator_source svi_next "\<lambda>_. True" svi_rest
  by (rule svi_source)

text \<open>The iterators of the delta chains, each added to the combined one.\<close>

fun add_all :: "(versions, 's) next_fun \<Rightarrow> nat \<Rightarrow> 's list \<Rightarrow> combined_versions_iterator \<Rightarrow> combined_versions_iterator outcome" where
  "add_all nxt fuel [] cb = Inr cb"
| "add_all nxt fuel (it # its) cb = bind_outcome (cb2_add_iterator nxt fuel it cb) (\<lambda>cb. add_all nxt fuel its cb)"

lemma add_all_result:
  assumes "iterator_source nxt ok rest" "managers_ok heap"
    "\<forall>it\<in>set its. ok it \<and> lists q heap (rest it) (M it) \<and> 2 * length (rest it) + 1 < fuel"
    "lists q heap (cbi_triples cb) G" "cbi_comparator cb = get_triple_comparator q None None" "cbi_triples_it cb = 0"
  shows "\<exists>cb'. add_all nxt fuel its cb = Inr cb' \<and> cbi_triples_it cb' = 0 \<and>
    lists q heap (cbi_triples cb') (G \<union> (\<Union>it\<in>set its. M it))"
  using assms(3-)
proof (induction its arbitrary: cb G)
  case (Cons it its)
  obtain tvs where t: "cb2_add_iterator nxt fuel it cb = Inr (cb\<lparr> cbi_triples := tvs, cbi_triples_it := 0 \<rparr>)"
    "lists q heap tvs (M it \<union> G)"
    by (rule cb2_add_iterator_result [OF assms(1,2) _ _ Cons.prems(2,3), of it "M it" fuel]) (use Cons.prems(1) in auto)
  have "\<exists>cb'. add_all nxt fuel its (cb\<lparr> cbi_triples := tvs, cbi_triples_it := 0 \<rparr>) = Inr cb' \<and> cbi_triples_it cb' = 0 \<and>
      lists q heap (cbi_triples cb') ((M it \<union> G) \<union> (\<Union>it\<in>set its. M it))"
    using Cons.prems t(2) by (intro Cons.IH) auto
  then show ?case using t(1) by (auto simp: Un_ac)
qed simp

section \<open>An example\<close>

definition example_deletion :: deletion_value where
  "example_deletion = \<lparr> dv_elements = \<lparr> dv_patches = \<lparr> il_max = INT_MAX, il_intervals = [(1, 3)] \<rparr>,
     dv_local_changes = il_new INT_MAX, dv_positions = [(1, pp_new)] \<rparr>, dv_max_patch_id = 6 \<rparr>"

lemma example_deletion_read: "dv_deserialize (dv_serialize example_deletion) (dv_new 5) = Inr example_deletion"
proof -
  have r: "runs_int32 [(1, 3)]" by (simp add: runs_int32_def INT_MAX_def INT_MIN_def)
  have "length (il_serialize (dv_patches (dv_elements example_deletion))) \<le> 10"
    using il_serialize_length [of "dv_patches (dv_elements example_deletion)"] r
    by (simp add: example_deletion_def il_alloc_size_def get_SLEB128_size_INT_MAX)
  then have "dvi_deserialize (dvi_serialize (dv_elements example_deletion)) dvi_new = Inr (dv_elements example_deletion)"
    by (intro dvi_deserialize_serialize)
      (simp_all add: example_deletion_def il_new_def r runs_int32_def il_serialize_def position_range_def pp_list_def
        pp_new_def INT_MAX_def INT_MIN_def dvi_new_def)
  then show ?thesis by (simp add: dv_deserialize_def dv_serialize_def dv_new_def example_deletion_def)
qed

lemma example_deletion_run:
  "dv_run True [Del_added (dve_new 1 False pp_new), Del_removed 3] (dv_new 5) = Inr example_deletion"
  by code_simp

definition example_versions :: "(triple \<times> int list) list \<Rightarrow> sorted_versions_iterator" where
  "example_versions ts = \<lparr> svi_triples = map (\<lambda>(t, vs). \<lparr> tvs_triple = t, tvs_versions = vs, tvs_dict = example_dict \<rparr>) ts,
     svi_pos = 0 \<rparr>"

section \<open>Properties\<close>

text \<open>C38: The versions of a triple in one delta chain, \<open>eraseDeletedVersions\<close>: when the deletion value in the tree
  was built by a history of additions and removals of versions, the versions returned are those from the
  initial version to the last of the tree in which the history does not say that the triple is deleted, in
  order. That no deletion is before the first local change holds for the values \<open>append\<close> writes.\<close>

theorem versions_of_triple:
  assumes "dv_ascending evs" "\<forall>e\<in>set evs. dv_event_id e \<le> m" "- 1 \<le> m" "m < INT_MAX"
    "\<forall>x\<le>m. deleted_at evs x \<longrightarrow> (case first_added (concat (map local_events evs)) of None \<Rightarrow> True | Some a \<Rightarrow> a \<le> x)"
    "dv_run True evs (dv_new m) = Inr v" "get_deletion_value kc t pt = Inr (Some v)" "pt_max_patch_id pt = m"
    "initial_version \<le> m + 1"
  shows "erase_deleted_versions kc (Some pt) t initial_version =
    Inr (filter (\<lambda>x. \<not> deleted_at evs x) [initial_version..m])"
proof -
  obtain v' ids where v: "dv_run True evs (dv_new m) = Inr v'" "dv_get_size v' = int (length ids)"
    "set ids = {x. x \<le> m \<and> deleted_at evs x}"
    "\<forall>j<length ids. \<exists>e. dv_get_patch_at True (int j) v' = Inr e \<and> el_patch_id e = ids ! j"
    using deletion_elements [OF assms(1-5)] .
  have "erase_loop v 0 (length ids) [initial_version..m] = Inr (filter (\<lambda>x. x \<notin> set ids) [initial_version..m])"
    using v(1,4) assms(6) by (intro erase_loop_filter) auto
  moreover have "filter (\<lambda>x. x \<notin> set ids) [initial_version..m] = filter (\<lambda>x. \<not> deleted_at evs x) [initial_version..m]"
    using v(3) by (intro filter_cong refl) auto
  moreover have "iota_from (m + 1 - initial_version) initial_version = Inr [initial_version..m]"
    using assms(9) by (simp add: iota_from_def)
  ultimately show ?thesis
    using v(1,2) assms(6,7,8) by (simp add: erase_deleted_versions_def)
qed

theorem versions_of_triple_witness:
  "erase_deleted_versions example_kc (Some (empty_tree\<lparr> pt_max_patch_id := 5, pt_store := (empty_store example_manager)
      \<lparr> ts_spo_deletions := (SPO, [(mk_triple 1 1 2, dv_serialize example_deletion)]) \<rparr> \<rparr>)) (mk_triple 1 1 2) 0 = Inr [0, 3, 4, 5]"
proof -
  define evs where "evs = [Del_added (dve_new 1 False pp_new), Del_removed 3]"
  have "erase_deleted_versions example_kc (Some (empty_tree\<lparr> pt_max_patch_id := 5, pt_store := (empty_store example_manager)
      \<lparr> ts_spo_deletions := (SPO, [(mk_triple 1 1 2, dv_serialize example_deletion)]) \<rparr> \<rparr>)) (mk_triple 1 1 2) 0 =
      Inr (filter (\<lambda>x. \<not> deleted_at evs x) [0..5])"
  proof (rule versions_of_triple)
    show "dv_ascending evs" "\<forall>e\<in>set evs. dv_event_id e \<le> 5" "(5 :: int) < INT_MAX"
      by (simp_all add: evs_def dv_ascending_def dve_new_def INT_MAX_def)
    show "\<forall>x\<le>5. deleted_at evs x \<longrightarrow> (case first_added (concat (map local_events evs)) of None \<Rightarrow> True | Some a \<Rightarrow> a \<le> x)"
      by (simp add: evs_def dve_new_def)
    show "dv_run True evs (dv_new 5) = Inr example_deletion" unfolding evs_def by (rule example_deletion_run)
  qed (simp_all add: get_deletion_value_def example_kc_def ordered_tree_def list_tree_def empty_tree_def
      get_default_deletions_tree_def example_deletion_read)
  moreover have "filter (\<lambda>x. \<not> deleted_at evs x) [0..5] = [0, 3, 4, 5]" by (simp add: evs_def upto_rec1 status_at_def dve_new_def)
  ultimately show ?thesis by simp
qed

text \<open>C39: The iterator of the versions of a pattern over several delta chains, as
  \<open>Controller::get_version\<close> fills it: each chain's iterator, which lists triples with the versions they are in in
  the order of the query, is added with \<open>TripleVersionsIteratorCombinedV2::add_iterator\<close>. The combined iterator
  then lists, in that order and each once, the triples of all chains, each with all its versions in order.\<close>

theorem combined_versions_union:
  assumes "iterator_source nxt ok rest" "managers_ok heap"
    "\<forall>it\<in>set its. ok it \<and> lists q heap (rest it) (M it) \<and> 2 * length (rest it) + 1 < fuel"
  shows "\<exists>cb tvs. add_all nxt fuel its (cbi_new q) = Inr cb \<and>
    drain cbi_next (Suc (cbi_get_count cb)) tv cb = Inr tvs \<and> lists q heap tvs (\<Union>it\<in>set its. M it)"
proof -
  have "lists q heap [] {}" by (simp add: lists_def well_listed_def facts_of_def)
  then obtain cb where cb: "add_all nxt fuel its (cbi_new q) = Inr cb" "cbi_triples_it cb = 0"
    "lists q heap (cbi_triples cb) ({} \<union> (\<Union>it\<in>set its. M it))"
    using add_all_result [OF assms, of "cbi_new q" "{}"] by (auto simp: cbi_new_def)
  have r: "cbi_rest cb = cbi_triples cb" using cb(2) by (simp add: cbi_rest_def)
  have "drain cbi_next (Suc (cbi_get_count cb)) tv cb = Inr (cbi_rest cb)"
    by (rule cbi.drain_rest) (simp_all add: r cbi_get_count_def)
  then show ?thesis using cb by (auto simp: r)
qed

theorem combined_versions_union_witness:
  "\<exists>cb tvs. add_all svi_next 9 [example_versions [(mk_triple 1 1 2, [0, 1]), (mk_triple 1 1 3, [0])],
       example_versions [(mk_triple 1 1 3, [2, 3]), (mk_triple 2 1 2, [3])]] (cbi_new SPO) = Inr cb \<and>
     drain cbi_next (Suc (cbi_get_count cb)) default_triple_versions cb = Inr tvs \<and>
     lists SPO example_heap tvs {((''c'', ''p'', ''b''), 3), ((''a'', ''p'', ''d''), 2), ((''a'', ''p'', ''d''), 3),
      ((''a'', ''p'', ''d''), 0), ((''a'', ''p'', ''b''), 0), ((''a'', ''p'', ''b''), 1)}"
proof -
  let ?its = "[example_versions [(mk_triple 1 1 2, [0, 1]), (mk_triple 1 1 3, [0])],
       example_versions [(mk_triple 1 1 3, [2, 3]), (mk_triple 2 1 2, [3])]]"
  have "\<forall>it\<in>set ?its. True \<and> lists SPO example_heap (svi_rest it) (facts_of (svi_rest it)) \<and> 2 * length (svi_rest it) + 1 < 9"
    by (simp add: lists_def well_listed_def example_versions_def svi_rest_def example_located versions_key_def key_of_def
        example_texts)
  from combined_versions_union [OF svi_source example_managers this, of default_triple_versions]
  obtain cb tvs where 1: "add_all svi_next 9 ?its (cbi_new SPO) = Inr cb"
    "drain cbi_next (Suc (cbi_get_count cb)) default_triple_versions cb = Inr tvs"
    "lists SPO example_heap tvs (\<Union>it\<in>set ?its. facts_of (svi_rest it))"
    by blast
  have "(\<Union>it\<in>set ?its. facts_of (svi_rest it)) = {((''c'', ''p'', ''b''), 3), ((''a'', ''p'', ''d''), 2), ((''a'', ''p'', ''d''), 3),
      ((''a'', ''p'', ''d''), 0), ((''a'', ''p'', ''b''), 0), ((''a'', ''p'', ''b''), 1)}"
    by (simp add: facts_of_Cons example_versions_def svi_rest_def versions_text_def example_texts)
  then show ?thesis using 1 by auto
qed

end
