(* ===== verification/Snapshot_Search.thy ===== *)
theory Snapshot_Search
  imports Snapshot_Iterators
begin

text \<open>
  Reading a snapshot: \<open>SnapshotManager::search_with_offset\<close> of \<open>snapshot/snapshot_manager.cc\<close>. A snapshot is
  a file of the HDT library, which is third-party code: \<open>hdt_lib\<close> holds the operations the code calls.
\<close>

section \<open>The HDT library\<close>

text \<open>What \<open>numResultEstimation\<close> says of \<open>estimatedNumResults\<close>, as far as the code looks at it.\<close>

datatype estimation = EXACT | UP_TO | APPROXIMATE | Other_estimation

text \<open>\<open>hdt_go_to\<close> also tells whether it ended without an exception; \<open>hdt_empty\<close> is a new \<open>IteratorTripleID\<close>.\<close>

record ('x, 's) hdt_lib =
  hdt_search :: "'x \<Rightarrow> triple \<Rightarrow> 's outcome"
  hdt_has_next :: "'s \<Rightarrow> bool"
  hdt_next_id :: "'s \<Rightarrow> (triple \<times> 's) outcome"
  hdt_can_go_to :: "'s \<Rightarrow> bool"
  hdt_go_to :: "u64 \<Rightarrow> 's \<Rightarrow> bool \<times> 's"
  hdt_estimated :: "'s \<Rightarrow> int"
  hdt_estimation :: "'s \<Rightarrow> estimation"
  hdt_empty :: 's

text \<open>An \<open>hdt::IteratorTripleID\<close> is one of the library or one of \<open>snapshot/\<close>.\<close>

datatype 's id_iterator = Hdt_iterator 's | Sorted_iterator sorted_triple_iterator

fun ii_has_next :: "('x, 's) hdt_lib \<Rightarrow> 's id_iterator \<Rightarrow> bool" where
  "ii_has_next lib (Hdt_iterator s) = hdt_has_next lib s"
| "ii_has_next lib (Sorted_iterator it) = sti_has_next it"

fun ii_next :: "('x, 's) hdt_lib \<Rightarrow> 's id_iterator \<Rightarrow> (triple \<times> 's id_iterator) outcome" where
  "ii_next lib (Hdt_iterator s) = bind_outcome (hdt_next_id lib s) (\<lambda>(t, s). Inr (t, Hdt_iterator s))"
| "ii_next lib (Sorted_iterator it) = bind_outcome (sti_next it) (\<lambda>(t, it). Inr (t, Sorted_iterator it))"

fun ii_can_go_to :: "('x, 's) hdt_lib \<Rightarrow> 's id_iterator \<Rightarrow> bool" where
  "ii_can_go_to lib (Hdt_iterator s) = hdt_can_go_to lib s"
| "ii_can_go_to lib (Sorted_iterator it) = True"

fun ii_go_to :: "('x, 's) hdt_lib \<Rightarrow> u64 \<Rightarrow> 's id_iterator \<Rightarrow> (bool \<times> 's id_iterator) outcome" where
  "ii_go_to lib pos (Hdt_iterator s) = (let (fine, s) = hdt_go_to lib pos s in Inr (fine, Hdt_iterator s))"
| "ii_go_to lib pos (Sorted_iterator it) =
     bind_outcome (sti_go_to (unat pos) it) (\<lambda>it. Inr (True, Sorted_iterator it))"

fun ii_estimated :: "('x, 's) hdt_lib \<Rightarrow> 's id_iterator \<Rightarrow> int" where
  "ii_estimated lib (Hdt_iterator s) = hdt_estimated lib s"
| "ii_estimated lib (Sorted_iterator it) = int (sti_estimated_num_results it)"

fun ii_estimation :: "('x, 's) hdt_lib \<Rightarrow> 's id_iterator \<Rightarrow> estimation" where
  "ii_estimation lib (Hdt_iterator s) = hdt_estimation lib s"
| "ii_estimation lib (Sorted_iterator it) = EXACT"

section \<open>Searching\<close>

text \<open>The outcomes that are exceptions derived from \<open>std::exception\<close>.\<close>

definition is_exception :: "cpp_error \<Rightarrow> bool" where
  "is_exception e \<longleftrightarrow> e \<in> {Runtime_error, Invalid_argument, Out_of_range, Length_error}"

text \<open>\<open>while (offset-- > 0 && it->hasNext()) it->next();\<close>\<close>

fun skip_ids :: "('x, 's) hdt_lib \<Rightarrow> nat \<Rightarrow> 's id_iterator \<Rightarrow> 's id_iterator outcome" where
  "skip_ids lib 0 it = Inr it"
| "skip_ids lib (Suc offset) it =
     (if ii_has_next lib it then bind_outcome (ii_next lib it) (\<lambda>(t, it). skip_ids lib offset it) else Inr it)"

text \<open>Ids the snapshot does not know become the largest id.\<close>

definition clamp_pattern :: "dict_ptr \<Rightarrow> triple \<Rightarrow> triple" where
  "clamp_pattern dict triple_pattern =
     (case dict of
        None \<Rightarrow> mk_triple (subject triple_pattern) (predicate triple_pattern) (object triple_pattern)
      | Some (p, m) \<Rightarrow>
          let clamp = (\<lambda>i. if i > dm_max_hdt_id m then max_id else i) in
          mk_triple (clamp (subject triple_pattern)) (clamp (predicate triple_pattern)) (clamp (object triple_pattern)))"

text \<open>Any exception means that there is nothing to find. A fresh search is sorted when it is asked for and the
  query order is not the order of the snapshot.\<close>

definition search_with_offset ::
  "('x, 's) hdt_lib \<Rightarrow> nat \<Rightarrow> 'x \<Rightarrow> triple \<Rightarrow> int \<Rightarrow> dict_ptr \<Rightarrow> bool \<Rightarrow> 's id_iterator outcome" where
  "search_with_offset lib fuel hdt triple_pattern offset dict sorted_search =
     (let qr_order = get_query_order triple_pattern;
          result =
            bind_outcome (hdt_search lib hdt (clamp_pattern dict triple_pattern)) (\<lambda>s.
            bind_outcome
              (if sorted_search \<and> qr_order \<noteq> SPO
               then bind_outcome (sti_new (hdt_has_next lib) (hdt_next_id lib) fuel s qr_order dict) (\<lambda>it.
                      Inr (Sorted_iterator it))
               else Inr (Hdt_iterator s)) (\<lambda>it.
            bind_outcome
              (if ii_can_go_to lib it \<and> offset \<noteq> 0
               then bind_outcome (ii_go_to lib (of_int offset) it) (\<lambda>(fine, it).
                      Inr (if fine then 0 else offset, it))
               else Inr (offset, it)) (\<lambda>(offset, it).
            skip_ids lib (nat offset) it)))
      in case result of
           Inl e \<Rightarrow> if is_exception e then Inr (Hdt_iterator (hdt_empty lib)) else Inl e
         | Inr it \<Rightarrow> Inr it)"

text \<open>The loop that counts the triples of an iterator.\<close>

fun count_ids :: "('x, 's) hdt_lib \<Rightarrow> nat \<Rightarrow> 's id_iterator \<Rightarrow> int \<Rightarrow> int outcome" where
  "count_ids lib 0 it count = Inl Diverges"
| "count_ids lib (Suc fuel) it count =
     (if ii_has_next lib it
      then bind_outcome (ii_next lib it) (\<lambda>(t, it). count_ids lib fuel it (count + 1))
      else Inr count)"

end
