(* ===== verification/Materialization.thy ===== *)
theory Materialization
  imports Snapshot_Search
begin

text \<open>
  The triples of one version: \<open>SnapshotPatchIteratorTripleID\<close>
  (\<open>controller/snapshot_patch_iterator_triple_id.{h,cc}\<close>) returns the triples of a snapshot that are not
  deleted in a patch, then the additions of the patch.
\<close>

section \<open>The iterator\<close>

record ('t, 'c, 'h, 'x, 's) snapshot_patch_iterator =
  spi_snapshot_it :: "'s id_iterator option"
  spi_deletion_it :: "'t positioned_triple_iterator option"
  spi_addition_it :: "'t patch_tree_triple_iterator option"
  spi_spo_comparator :: key_comparator
  spi_has_last_deleted_triple :: bool
  spi_last_deleted_triple :: positioned_triple
  spi_snapshot :: 'x
  spi_triple_pattern :: triple
  spi_patch_tree :: "('t, 'c, 'h) patch_tree"
  spi_patch_id :: int
  spi_offset :: int
  spi_deletion_count :: int
  spi_dict :: dict_ptr

text \<open>The constructor does not initialise \<open>has_last_deleted_triple\<close>, nor the position of the last deleted
  triple, which is not read: the flag is an argument here.\<close>

definition spi_new ::
  "bool \<Rightarrow> 's id_iterator \<Rightarrow> 't positioned_triple_iterator option \<Rightarrow> key_comparator \<Rightarrow> 'x \<Rightarrow> triple \<Rightarrow>
   ('t, 'c, 'h) patch_tree \<Rightarrow> int \<Rightarrow> int \<Rightarrow> int \<Rightarrow> dict_ptr \<Rightarrow> ('t, 'c, 'h, 'x, 's) snapshot_patch_iterator" where
  "spi_new has_last snapshot_it deletion_it comparator snapshot triple_pattern patch_tree patch_id offset
      deletions dict =
     \<lparr> spi_snapshot_it = Some snapshot_it,
       spi_deletion_it = map_option (\<lambda>d. d\<lparr> pti_it := reset_triple_pattern_filter (pti_it d) \<rparr>) deletion_it,
       spi_addition_it = None, spi_spo_comparator = comparator, spi_has_last_deleted_triple = has_last,
       spi_last_deleted_triple = \<lparr> pst_triple = default_triple, pst_position = 0 \<rparr>, spi_snapshot = snapshot,
       spi_triple_pattern = triple_pattern, spi_patch_tree = patch_tree, spi_patch_id = patch_id,
       spi_offset = offset, spi_deletion_count = deletions, spi_dict = dict \<rparr>"

text \<open>Move the deletion cursor to where the triple would be, and look for this triple only.\<close>

definition spi_jump ::
  "'t tree_db \<Rightarrow> triple \<Rightarrow> 't positioned_triple_iterator \<Rightarrow> 't positioned_triple_iterator outcome" where
  "spi_jump db t d =
     (case it_deletions (pti_it d) of
        None \<Rightarrow> Inl Undefined_behaviour
      | Some (tree, cursor) \<Rightarrow>
          Inr (d\<lparr> pti_it := set_triple_pattern_filter t
                   ((pti_it d)\<lparr> it_deletions := Some (tree, tree_from db tree t) \<rparr>) \<rparr>))"

text \<open>The inner loop: whether to return the triple of the snapshot. A deletion after the triple is kept for the
  next call.\<close>

fun spi_emits ::
  "'t tree_db \<Rightarrow> nat \<Rightarrow> triple \<Rightarrow> ('t, 'c, 'h, 'x, 's) snapshot_patch_iterator \<Rightarrow>
   (bool \<times> ('t, 'c, 'h, 'x, 's) snapshot_patch_iterator) outcome" where
  "spi_emits db 0 t it = Inl Diverges"
| "spi_emits db (Suc fuel) t it =
     bind_outcome
       (if spi_has_last_deleted_triple it then Inr (True, it)
        else case spi_deletion_it it of
          None \<Rightarrow> Inl Undefined_behaviour
        | Some d \<Rightarrow> bind_outcome (pti_next db fuel (spi_last_deleted_triple it) False False d) (\<lambda>(found, last, d).
            Inr (found, it\<lparr> spi_last_deleted_triple := last, spi_deletion_it := Some d \<rparr>)))
       (\<lambda>(found, it).
     if \<not> found then Inr (True, it)
     else if pst_triple (spi_last_deleted_triple it) = t then Inr (False, it\<lparr> spi_has_last_deleted_triple := False \<rparr>)
     else if key_compare (spi_spo_comparator it) (pst_triple (spi_last_deleted_triple it)) t > 0
     then Inr (True, it\<lparr> spi_has_last_deleted_triple := True \<rparr>)
     else spi_emits db fuel t (it\<lparr> spi_has_last_deleted_triple := False \<rparr>))"

definition spi_check ::
  "'t tree_db \<Rightarrow> nat \<Rightarrow> triple \<Rightarrow> ('t, 'c, 'h, 'x, 's) snapshot_patch_iterator \<Rightarrow>
   (bool \<times> ('t, 'c, 'h, 'x, 's) snapshot_patch_iterator) outcome" where
  "spi_check db fuel t it =
     (case spi_deletion_it it of
        None \<Rightarrow> Inl Undefined_behaviour
      | Some d \<Rightarrow> bind_outcome (spi_jump db t d) (\<lambda>d. spi_emits db fuel t (it\<lparr> spi_deletion_it := Some d \<rparr>)))"

text \<open>The number of triples of the snapshot, and the iterator over the additions that are left after the
  offset.\<close>

definition spi_snapshot_count ::
  "('x, 's) hdt_lib \<Rightarrow> nat \<Rightarrow> 's id_iterator \<Rightarrow> ('t, 'c, 'h, 'x, 's) snapshot_patch_iterator \<Rightarrow> int outcome" where
  "spi_snapshot_count lib fuel s it =
     (let snapshot_count = (if ii_estimation lib s = EXACT then ii_estimated lib s else - 1) in
      if snapshot_count = - 1
      then bind_outcome (search_with_offset lib fuel (spi_snapshot it) (spi_triple_pattern it) 0 (spi_dict it) False)
             (\<lambda>tmp_it. count_ids lib fuel tmp_it 0)
      else Inr snapshot_count)"

definition spi_start_additions ::
  "('x, 's) hdt_lib \<Rightarrow> ('t, 'c, 'h) kyoto \<Rightarrow> nat \<Rightarrow> 's id_iterator \<Rightarrow> ('t, 'c, 'h, 'x, 's) snapshot_patch_iterator \<Rightarrow>
   ('t, 'c, 'h, 'x, 's) snapshot_patch_iterator outcome" where
  "spi_start_additions lib kc fuel s it =
     bind_outcome (spi_snapshot_count lib fuel s it) (\<lambda>snapshot_count.
     bind_outcome (addition_iterator_from kc fuel (spi_offset it - snapshot_count + spi_deletion_count it)
         (spi_patch_id it) (spi_triple_pattern it) (spi_patch_tree it)) (\<lambda>addition_it.
       Inr (it\<lparr> spi_snapshot_it := None, spi_addition_it := Some addition_it \<rparr>)))"

text \<open>\<open>next\<close>: fuel for the triples it passes over.\<close>

fun spi_next ::
  "('x, 's) hdt_lib \<Rightarrow> ('t, 'c, 'h) kyoto \<Rightarrow> nat \<Rightarrow> triple \<Rightarrow> ('t, 'c, 'h, 'x, 's) snapshot_patch_iterator \<Rightarrow>
   (bool \<times> triple \<times> ('t, 'c, 'h, 'x, 's) snapshot_patch_iterator) outcome" where
  "spi_next lib kc 0 t it = Inl Diverges"
| "spi_next lib kc (Suc fuel) t it =
     (if spi_snapshot_it it = None \<and> spi_addition_it it = None then Inr (False, t, it)
      else if spi_snapshot_it it \<noteq> None \<and> ii_has_next lib (the (spi_snapshot_it it)) then
        bind_outcome (ii_next lib (the (spi_snapshot_it it))) (\<lambda>(t, s).
        bind_outcome (spi_check (kc_tree kc) fuel t (it\<lparr> spi_snapshot_it := Some s \<rparr>)) (\<lambda>(emit_triple, it).
          if emit_triple then Inr (True, t, it) else spi_next lib kc fuel t it))
      else
        bind_outcome
          (case spi_snapshot_it it of None \<Rightarrow> Inr it | Some s \<Rightarrow> spi_start_additions lib kc fuel s it) (\<lambda>it.
        case spi_addition_it it of
          None \<Rightarrow> Inl Undefined_behaviour
        | Some a \<Rightarrow> bind_outcome (ptt_next (kc_tree kc) fuel t a) (\<lambda>(b, t, a).
            if b then Inr (True, t, it\<lparr> spi_addition_it := Some a \<rparr>)
            else spi_next lib kc fuel t (it\<lparr> spi_addition_it := None \<rparr>))))"

end
