(* ===== verification/Tree_Walk.thy ===== *)
theory Tree_Walk
  imports Patch_Tree_Merge Delta_Properties
begin

text \<open>
  What the iterators over a patch tree return: a cursor walks through the keys of its tree in their order, so
  \<open>next_addition\<close> returns the additions that pass the filters, one after the other, and a jump to a triple
  followed by \<open>next_deletion\<close> finds a deletion of that triple or none.
\<close>

section \<open>A pattern in its tree\<close>

text \<open>The components of a pattern come first in the order of its tree, so a triple that does not match is on
  the same side of the pattern as of any triple that matches.\<close>

lemma prefix_pattern_side:
  assumes "\<And>r. role_sorted m r" "unat (dm_max_hdt_id m) < 2 ^ 31"
    "c = \<lparr> kc_compare_1 = key_component get1 r1, kc_compare_2 = key_component get2 r2,
           kc_compare_3 = key_component get3 r3, kc_dict = m \<rparr>"
    "get1 x \<in> known_ids m r1" "get2 x \<in> known_ids m r2" "get3 x \<in> known_ids m r3"
    "get1 d \<in> known_ids m r1" "get2 d \<in> known_ids m r2" "get3 d \<in> known_ids m r3"
    "get1 pt = 0 \<longrightarrow> get2 pt = 0" "get2 pt = 0 \<longrightarrow> get3 pt = 0"
    "\<And>get. get \<in> {get1, get2, get3} \<Longrightarrow> get pt \<noteq> 0 \<Longrightarrow> get d = get pt"
  shows "\<not> key_compare c d pt < 0"
    "\<exists>get\<in>{get1, get2, get3}. get pt \<noteq> 0 \<and> get x \<noteq> get pt \<Longrightarrow> key_compare c x pt < 0 \<longleftrightarrow> key_compare c x d < 0"
proof -
  note K = known_comparison [OF assms(1,2)]
  have nz: "i \<noteq> 0 \<and> i \<noteq> max_id" if "i \<in> known_ids m r" for i r
    using that by (auto simp: known_ids_def role_id_def)
  have same: "key_component get r y pt m = dm_compare_component (get y) (get d) r m"
    "key_component get r y d m = dm_compare_component (get y) (get d) r m"
    "dm_compare_component (get y) (get d) r m = 0 \<longleftrightarrow> get y = get d"
    if "get \<in> {get1, get2, get3}" "get pt \<noteq> 0" "get y \<in> known_ids m r" "get d \<in> known_ids m r" for get r y
    using assms(12) [OF that(1,2)] that(2-4) comparison.cmp_zero [OF K that(3,4)]
    by (simp_all add: key_component_known)
  have blank: "key_component get r y pt m = 1" if "get pt = 0" for get r y
    using that by (simp add: key_component_def)
  note s = same [of get1 _ r1] same [of get2 _ r2] same [of get3 _ r3]
  show "\<not> key_compare c d pt < 0"
    using s(1,3) [of d] s(4,6) [of d] s(7,9) [of d] assms(7-9) blank
    by (cases "get1 pt = 0"; cases "get2 pt = 0"; cases "get3 pt = 0")
      (simp_all add: assms(3) key_compare_def Let_def)
  show "key_compare c x pt < 0 \<longleftrightarrow> key_compare c x d < 0"
    if "\<exists>get\<in>{get1, get2, get3}. get pt \<noteq> 0 \<and> get x \<noteq> get pt"
    using that s(1-3) [of x] s(4-6) [of x] s(7-9) [of x] assms(4-11) assms(12) [of get1] assms(12) [of get2] assms(12) [of get3]
    by (cases "get1 pt = 0"; cases "get2 pt = 0"; cases "get3 pt = 0")
      (auto simp: assms(3) key_compare_def Let_def)
qed


lemma pattern_side:
  assumes "\<And>r. role_sorted m r" "unat (dm_max_hdt_id m) < 2 ^ 31" "x \<in> known_keys m" "d \<in> known_keys m"
    "pattern_match_triple d pt"
  shows "\<not> key_compare (order_comparator (get_query_order pt) m) d pt < 0"
    "\<not> pattern_match_triple x pt \<Longrightarrow>
      key_compare (order_comparator (get_query_order pt) m) x pt < 0 \<longleftrightarrow>
      key_compare (order_comparator (get_query_order pt) m) x d < 0"
proof -
  let ?c = "order_comparator (get_query_order pt) m"
  note k = assms(3,4) [unfolded known_keys_def]
  have d: "get pt \<noteq> 0 \<Longrightarrow> get d = get pt" if "get \<in> {subject, predicate, object}" for get
    using assms(5) that by (auto simp: pattern_match_triple_def)
  have x: "\<exists>get\<in>{subject, predicate, object}. get pt \<noteq> 0 \<and> get x \<noteq> get pt" if "\<not> pattern_match_triple x pt"
    using that by (auto simp: pattern_match_triple_def)
  have "\<not> key_compare ?c d pt < 0 \<and> (\<not> pattern_match_triple x pt \<longrightarrow> key_compare ?c x pt < 0 \<longleftrightarrow> key_compare ?c x d < 0)"
  proof -
    consider (spo) "get_query_order pt = SPO" "subject pt = 0 \<longrightarrow> predicate pt = 0" "predicate pt = 0 \<longrightarrow> object pt = 0"
      | (pos) "get_query_order pt = POS" "predicate pt = 0 \<longrightarrow> object pt = 0" "object pt = 0 \<longrightarrow> subject pt = 0"
      | (osp) "get_query_order pt = OSP" "object pt = 0 \<longrightarrow> subject pt = 0" "subject pt = 0 \<longrightarrow> predicate pt = 0"
      by (cases "subject pt = 0"; cases "predicate pt = 0"; cases "object pt = 0")
        (simp_all add: get_query_order_def word_gt_0)
    then show ?thesis
    proof cases
      case spo
      have c: "?c = \<lparr> kc_compare_1 = key_component subject SUBJECT, kc_compare_2 = key_component predicate PREDICATE,
          kc_compare_3 = key_component object OBJECT, kc_dict = m \<rparr>"
        using spo(1) by (simp add: order_comparator_def spo_comparator_def comp_defs)
      show ?thesis
        using prefix_pattern_side [OF assms(1,2) c, of x d pt] k spo(2,3) d x by blast
    next
      case pos
      have c: "?c = \<lparr> kc_compare_1 = key_component predicate PREDICATE, kc_compare_2 = key_component object OBJECT,
          kc_compare_3 = key_component subject SUBJECT, kc_dict = m \<rparr>"
        using pos(1) by (simp add: order_comparator_def pos_comparator_def comp_defs)
      show ?thesis
        using prefix_pattern_side [OF assms(1,2) c, of x d pt] k pos(2,3) d x by blast
    next
      case osp
      have c: "?c = \<lparr> kc_compare_1 = key_component object OBJECT, kc_compare_2 = key_component subject SUBJECT,
          kc_compare_3 = key_component predicate PREDICATE, kc_dict = m \<rparr>"
        using osp(1) by (simp add: order_comparator_def osp_comparator_def comp_defs)
      show ?thesis
        using prefix_pattern_side [OF assms(1,2) c, of x d pt] k osp(2,3) d x by blast
    qed
  qed
  then show "\<not> key_compare ?c d pt < 0"
    "\<not> pattern_match_triple x pt \<Longrightarrow> key_compare ?c x pt < 0 \<longleftrightarrow> key_compare ?c x d < 0"
    by blast+
qed

text \<open>So from the place where the pattern would be, the matches come first.\<close>

lemma matches_first:
  assumes "\<And>r. role_sorted m r" "unat (dm_max_hdt_id m) < 2 ^ 31" "set ks \<subseteq> known_keys m"
    "sorted_wrt (\<lambda>a b. key_compare (order_comparator (get_query_order pt) m) a b < 0) ks"
  shows "\<exists>vs. dropWhile (\<lambda>x. key_compare (order_comparator (get_query_order pt) m) x pt < 0) ks =
      filter (\<lambda>x. pattern_match_triple x pt) ks @ vs \<and> (\<forall>x\<in>set vs. \<not> pattern_match_triple x pt)"
proof -
  define c where "c = key_compare (order_comparator (get_query_order pt) m)"
  define M where "M x \<longleftrightarrow> pattern_match_triple x pt" for x
  note side = pattern_side [OF assms(1,2), where pt = pt, folded c_def M_def]
  have cmp: "comparison c (known_keys m)" unfolding c_def by (rule order_comparison [OF assms(1,2)])
  show ?thesis
  proof (cases "\<exists>x\<in>set ks. M x")
    case False
    then have "filter M ks = []" by (auto simp: filter_empty_conv)
    then show ?thesis using False by (auto simp: M_def dest: set_dropWhileD)
  next
    case True
    then obtain us d vs where s: "ks = us @ d # vs" "M d" "\<forall>x\<in>set us. \<not> M x" using split_list_first_prop by metis
    have kd: "d \<in> known_keys m" using assms(3) s(1) by auto
    have sorted: "\<forall>x\<in>set us. c x d < 0" "\<forall>y\<in>set vs. c d y < 0" "sorted_wrt (\<lambda>a b. c a b < 0) vs"
      using assms(4) by (auto simp: s(1) sorted_wrt_append c_def)
    have us: "\<forall>x\<in>set us. c x pt < 0"
    proof
      fix x assume x: "x \<in> set us"
      then have "x \<in> known_keys m" using assms(3) s(1) by auto
      then show "c x pt < 0" using side(2) [of x d] kd s(2,3) sorted(1) x by blast
    qed
    have "dropWhile (\<lambda>x. c x pt < 0) ks = d # vs"
      using us side(1) [OF kd kd s(2)] by (simp add: s(1) dropWhile_append2)
    moreover have "filter M ks = d # filter M vs" using s by (simp add: filter_empty_conv)
    moreover have "\<forall>y\<in>set (dropWhile M vs). \<not> M y"
    proof (cases "dropWhile M vs")
      case Nil
      show ?thesis unfolding Nil by simp
    next
      case (Cons y ys)
      have y: "\<not> M y" using hd_dropWhile [of M vs] Cons by simp
      have d2: "vs = takeWhile M vs @ y # ys" using Cons takeWhile_dropWhile_id [of M vs] by simp
      have yin: "y \<in> set vs" by (subst d2) simp
      have sub: "set vs \<subseteq> known_keys m" using assms(3) s(1) by auto
      have gt: "\<not> c y d < 0"
        using sorted(2) yin comparison.cmp_asym [OF cmp kd, of y] sub by blast
      have "\<not> M e" if e: "e \<in> set ys" for e
      proof
        assume me: "M e"
        have ein: "e \<in> set vs" by (subst d2) (simp add: e)
        have "sorted_wrt (\<lambda>a b. c a b < 0) (takeWhile M vs @ y # ys)" using sorted(3) d2 by simp
        then have "c y e < 0" using e by (simp add: sorted_wrt_append)
        then have "c y pt < 0" using side(2) [OF _ _ me y] yin ein sub by blast
        then show False using side(2) [OF _ kd s(2) y] yin sub gt by blast
      qed
      then show ?thesis using Cons y by simp
    qed
    moreover have "filter M vs = takeWhile M vs" if "\<forall>y\<in>set (dropWhile M vs). \<not> M y"
    proof -
      have "filter M (takeWhile M vs) = takeWhile M vs" by (auto simp: filter_id_conv dest: set_takeWhileD)
      moreover have "filter M (dropWhile M vs) = []" using that by (simp add: filter_empty_conv)
      ultimately show ?thesis by (metis filter_append takeWhile_dropWhile_id append_Nil2)
    qed
    ultimately have "dropWhile (\<lambda>x. c x pt < 0) ks = filter M ks @ dropWhile M vs" "\<forall>x\<in>set (dropWhile M vs). \<not> M x"
      by simp_all
    then show ?thesis unfolding c_def M_def by blast
  qed
qed

section \<open>Cursors\<close>

locale tree_cursors = comparison cmp A
  for cmp :: "triple \<Rightarrow> triple \<Rightarrow> int" and A +
  fixes db :: "'t tree_db" and keys :: "'t \<Rightarrow> triple list" and valid :: "'t \<Rightarrow> bool"
  assumes laws: "tree_laws db cmp A keys valid"
begin

text \<open>The keys from the one a cursor is at.\<close>

definition tail_keys :: "'t \<Rightarrow> cursor \<Rightarrow> triple list" where
  "tail_keys t c = (case c of None \<Rightarrow> [] | Some k \<Rightarrow> dropWhile (\<lambda>x. x \<noteq> k) (keys t))"

lemma keys_sorted:
  assumes "valid t"
  shows "sorted_wrt (\<lambda>a b. cmp a b < 0) (keys t)" "distinct (keys t)" "set (keys t) \<subseteq> A"
    "k \<in> set (keys t) \<longleftrightarrow> tree_get db t k \<noteq> None"
proof -
  note l = tree_laws_keys [OF laws assms]
  show s: "sorted_wrt (\<lambda>a b. cmp a b < 0) (keys t)" "set (keys t) \<subseteq> A" by (rule l)+
  show "k \<in> set (keys t) \<longleftrightarrow> tree_get db t k \<noteq> None" using l(1) by auto
  have "distinct xs" if "sorted_wrt (\<lambda>a b. cmp a b < 0) xs" "set xs \<subseteq> A" for xs
    using that by (induction xs) fastforce+
  then show "distinct (keys t)" using s by blast
qed

lemma tail_keys_split:
  assumes "valid t" "keys t = xs @ ks" "ks \<noteq> []"
  shows "tail_keys t (Some (hd ks)) = ks"
proof (cases ks)
  case (Cons k ys)
  then have "\<forall>x\<in>set xs. x \<noteq> k" using keys_sorted(2) [OF assms(1)] assms(2) by auto
  then have "dropWhile (\<lambda>x. x \<noteq> k) (xs @ k # ys) = k # ys" by (simp add: dropWhile_append2)
  then show ?thesis using Cons assms(2) by (simp add: tail_keys_def)
qed (use assms(3) in simp)

lemma tail_keys_Nil:
  assumes "valid t" "tail_keys t c = []"
  shows "cursor_get db t c = None"
proof (cases c)
  case (Some k)
  then have "k \<notin> set (keys t)" using assms(2) by (auto simp: tail_keys_def dropWhile_eq_Nil_conv)
  then show ?thesis using keys_sorted(4) [OF assms(1)] Some by (simp add: cursor_get_def)
qed (simp add: cursor_get_def)

lemma tail_keys_Cons:
  assumes "valid t" "tail_keys t c = k # ks"
  obtains raw where "tree_get db t k = Some raw" "cursor_get db t c = Some (k, raw)" "tail_keys t (cursor_step db t c) = ks"
    "k \<in> set (keys t)"
proof -
  obtain k' where c: "c = Some k'" using assms(2) by (cases c) (simp_all add: tail_keys_def)
  have d: "dropWhile (\<lambda>x. x \<noteq> k') (keys t) = k # ks" using assms(2) c by (simp add: tail_keys_def)
  then have k: "k' = k" using hd_dropWhile [of "\<lambda>x. x \<noteq> k'" "keys t"] by simp
  obtain xs where xs: "keys t = xs @ k # ks" using d takeWhile_dropWhile_id [of "\<lambda>x. x \<noteq> k'" "keys t"] by metis
  then have kin: "k \<in> set (keys t)" by simp
  then obtain raw where raw: "tree_get db t k = Some raw" using keys_sorted(4) [OF assms(1)] by blast
  have "tree_after db t k = find (\<lambda>x. True) ks"
    unfolding tree_laws_keys(4) [OF laws assms(1)] xs
    by (rule find_after) (use keys_sorted(1,3) [OF assms(1)] xs comparison_axioms in auto)
  then have "tail_keys t (cursor_step db t c) = ks"
    using tail_keys_split [OF assms(1), of "xs @ [k]" ks] xs c k
    by (cases ks) (simp_all add: cursor_step_def tail_keys_def)
  then show thesis using that raw kin c k by (simp add: cursor_get_def)
qed

lemma tail_keys_from:
  assumes "valid t"
  shows "tail_keys t (tree_from db t k) = dropWhile (\<lambda>x. cmp x k < 0) (keys t)"
proof -
  have f: "tree_from db t k = find (\<lambda>x. \<not> cmp x k < 0) (keys t)"
    using laws assms by (simp add: tree_laws_def)
  show ?thesis
  proof (cases "dropWhile (\<lambda>x. cmp x k < 0) (keys t)")
    case Nil
    then have "tree_from db t k = None" unfolding f by (simp add: find_None_iff)
    then show ?thesis unfolding Nil by (simp add: tail_keys_def)
  next
    case (Cons y ys)
    then have "keys t = takeWhile (\<lambda>x. cmp x k < 0) (keys t) @ y # ys"
      using takeWhile_dropWhile_id [of "\<lambda>x. cmp x k < 0" "keys t"] by simp
    from tail_keys_split [OF assms this] show ?thesis unfolding f by (simp add: find_dropWhile Cons comp_def)
  qed
qed

lemma tail_keys_last:
  assumes "valid t"
  shows "tail_keys t (tree_last db t) = (if keys t = [] then [] else [last (keys t)])"
proof -
  have f: "tree_last db t = find (\<lambda>x. True) (rev (keys t))"
    using laws assms by (simp add: tree_laws_def)
  show ?thesis
  proof (cases "keys t" rule: rev_cases)
    case Nil
    then show ?thesis by (simp add: f tail_keys_def)
  next
    case (snoc ys y)
    then show ?thesis using tail_keys_split [OF assms, of ys "[y]"] by (simp add: f)
  qed
qed

end

section \<open>Additions\<close>

text \<open>A value object as the loops reuse it: reading into it is reading into a new one.\<close>

definition av_fresh :: "int \<Rightarrow> addition_value \<Rightarrow> bool" where
  "av_fresh m v \<longleftrightarrow> av_max_patch_id v = m + 1 \<and> il_max (av_patches v) = INT_MAX \<and> il_max (av_local_changes v) = INT_MAX"

lemma av_fresh_new [simp]: "av_fresh m (av_new m)"
  by (simp add: av_fresh_def av_new_def il_new_def)

lemma il_deserialize_max:
  "il_max l = il_max l' \<Longrightarrow> il_deserialize data l = il_deserialize data l'"
  "il_deserialize data l = Inr l'' \<Longrightarrow> il_max l'' = il_max l"
  by (auto simp: il_deserialize_def bind_outcome_def split: sum.splits)

lemma av_fresh_deserialize:
  assumes "av_fresh m v"
  shows "av_deserialize raw v = av_deserialize raw (av_new m)" "av_deserialize raw v = Inr w \<Longrightarrow> av_fresh m w"
proof -
  have m: "il_max (av_patches v) = il_max (av_patches (av_new m))"
    "il_max (av_local_changes v) = il_max (av_local_changes (av_new m))" "av_max_patch_id v = av_max_patch_id (av_new m)"
    using assms by (simp_all add: av_fresh_def av_new_def il_new_def)
  have c: "il_clear (av_local_changes v) = il_clear (av_local_changes (av_new m))" using m(2) by (simp add: il_clear_def)
  show "av_deserialize raw v = av_deserialize raw (av_new m)"
    unfolding av_deserialize_def il_deserialize_max(1) [OF m(1)] il_deserialize_max(1) [OF m(2)] c using m(3)
    by (intro bind_outcome_cong) (auto simp: Let_def intro!: bind_outcome_cong)
  show "av_deserialize raw v = Inr w \<Longrightarrow> av_fresh m w"
    using assms
    by (auto simp: av_deserialize_def av_fresh_def bind_outcome_eq_Inr Let_def il_clear_def
        dest!: il_deserialize_max(2) split: prod.splits if_splits)
qed

lemma tail_passes:
  assumes "\<forall>x\<in>set (dropWhile P (k # ks)). \<not> P x"
  shows "set (takeWhile P ks) \<subseteq> set (takeWhile P (k # ks))" "set (dropWhile P ks) \<subseteq> set (dropWhile P (k # ks))"
proof -
  have "takeWhile P ks = []" if "\<not> P k"
    using assms that by (cases ks) auto
  then show "set (takeWhile P ks) \<subseteq> set (takeWhile P (k # ks))" by (cases "P k") auto
  show "set (dropWhile P ks) \<subseteq> set (dropWhile P (k # ks))" using set_dropWhileD [of _ P ks] by auto
qed

text \<open>Whether the record of a triple passes the filters of an iterator.\<close>

definition addition_at :: "'t tree_db \<Rightarrow> 't \<Rightarrow> int \<Rightarrow> 't patch_tree_iterator \<Rightarrow> triple \<Rightarrow> bool outcome" where
  "addition_at db tree m it k =
     (case tree_get db tree k of
        None \<Rightarrow> Inr False
      | Some raw \<Rightarrow> bind_outcome (av_deserialize raw (av_new m)) (addition_passes it))"

lemma move_passes [simp]:
  "addition_passes (it\<lparr> it_additions := c \<rparr>) = addition_passes it"
  "addition_at db tree m (it\<lparr> it_additions := c \<rparr>) = addition_at db tree m it"
  "pattern_passes (it\<lparr> it_additions := c \<rparr>) = pattern_passes it"
proof -
  show a: "addition_passes (it\<lparr> it_additions := c \<rparr>) = addition_passes it"
    by (rule ext) (simp add: addition_passes_def cong: if_cong)
  show "addition_at db tree m (it\<lparr> it_additions := c \<rparr>) = addition_at db tree m it"
    by (rule ext) (simp add: addition_at_def a split: option.split)
  show "pattern_passes (it\<lparr> it_additions := c \<rparr>) = pattern_passes it"
    by (rule ext) (simp add: pattern_passes_def)
qed

lemma ex_flag_conj [simp]: "(\<exists>b. \<not> b \<and> P b) \<longleftrightarrow> P False" "(\<exists>b. b \<and> P b) \<longleftrightarrow> P True"
  by (metis (full_types))+

context tree_cursors
begin

text \<open>An iterator over additions from a cursor on, where the matches of its pattern come first and can be
  read.\<close>

definition add_tail :: "'t patch_tree_iterator \<Rightarrow> triple list" where
  "add_tail it = (case it_additions it of None \<Rightarrow> [] | Some (tree, c) \<Rightarrow> tail_keys tree c)"

definition add_ok :: "int \<Rightarrow> nat \<Rightarrow> 't patch_tree_iterator \<Rightarrow> bool" where
  "add_ok m n it \<longleftrightarrow> length (add_tail it) < n \<and>
     (\<exists>tree c. it_additions it = Some (tree, c) \<and> valid tree \<and> \<not> it_reverse it \<and> it_can_early_break it \<and>
       (\<forall>k raw. tree_get db tree k = Some raw \<longrightarrow> (\<exists>v. av_deserialize raw (av_new m) = Inr v)) \<and>
       (\<forall>k\<in>set (takeWhile (pattern_passes it) (tail_keys tree c)). \<exists>b. addition_at db tree m it k = Inr b) \<and>
       (\<forall>k\<in>set (dropWhile (pattern_passes it) (tail_keys tree c)). \<not> pattern_passes it k))"

definition add_rest :: "int \<Rightarrow> 't patch_tree_iterator \<Rightarrow> triple list" where
  "add_rest m it = (case it_additions it of None \<Rightarrow> []
     | Some (tree, c) \<Rightarrow> filter (\<lambda>k. addition_at db tree m it k = Inr True) (takeWhile (pattern_passes it) (add_tail it)))"

lemma next_addition_walk:
  assumes "add_ok m n it" "av_fresh m w" "n \<le> fuel"
  shows "\<exists>b key' w' it'. next_addition db fuel key w it = Inr (b, key', w', it') \<and>
    add_ok m n it' \<and> av_fresh m w' \<and> add_rest m it = pending b key' (add_rest m it') \<and> (\<not> b \<longrightarrow> add_rest m it' = [])"
proof -
  have "length (add_tail it) < fuel" using assms(1,3) by (simp add: add_ok_def)
  then show ?thesis
    using assms(1,2)
  proof (induction fuel arbitrary: key w it)
    case (Suc fuel)
    obtain tree c where it: "it_additions it = Some (tree, c)" "valid tree" "\<not> it_reverse it" "it_can_early_break it"
      "\<forall>k raw. tree_get db tree k = Some raw \<longrightarrow> (\<exists>v. av_deserialize raw (av_new m) = Inr v)"
      "\<forall>k\<in>set (takeWhile (pattern_passes it) (tail_keys tree c)). \<exists>b. addition_at db tree m it k = Inr b"
      "\<forall>k\<in>set (dropWhile (pattern_passes it) (tail_keys tree c)). \<not> pattern_passes it k"
      using Suc.prems(2) by (auto simp: add_ok_def)
    have tl: "add_tail it = tail_keys tree c" using it(1) by (simp add: add_tail_def)
    note len = Suc.prems(2) [unfolded add_ok_def tl, THEN conjunct1]
    show ?case
    proof (cases "tail_keys tree c")
      case Nil
      then show ?thesis
        using tail_keys_Nil [OF it(2) Nil] it(1) Suc.prems(2,3) by (simp add: add_rest_def tl)
    next
      case (Cons k ks)
      obtain raw where raw: "tree_get db tree k = Some raw" "cursor_get db tree c = Some (k, raw)"
        "tail_keys tree (cursor_step db tree c) = ks"
        by (rule tail_keys_Cons [OF it(2) Cons])
      obtain v where v: "av_deserialize raw (av_new m) = Inr v" using it(5) raw(1) by blast
      have v': "av_deserialize raw w = Inr v" "av_fresh m v"
        using av_fresh_deserialize [OF Suc.prems(3), of raw] v by auto
      define it' where "it' = it\<lparr> it_additions := Some (tree, cursor_step db tree c) \<rparr>"
      have st: "it\<lparr> it_additions := Some (move db (it_reverse it) (tree, c)) \<rparr> = it'"
        using it(3) by (simp add: it'_def move_def)
      have tl': "add_tail it' = ks" using raw(3) by (simp add: it'_def add_tail_def)
      have ok': "add_ok m n it'"
        using it(2-5) it(6,7) [unfolded Cons] tail_passes [OF it(7) [unfolded Cons]] len
        unfolding add_ok_def tl' by (simp add: it'_def raw(3) Cons del: takeWhile.simps dropWhile.simps) blast
      show ?thesis
      proof (cases "pattern_passes it k")
        case False
        have "add_rest m it' = []"
          using it(7) Cons False by (cases ks) (auto simp: add_rest_def it'_def tl' [unfolded it'_def])
        then show ?thesis
          using False it(1,4) raw(2) v'(1,2) ok' Cons by (simp add: st add_rest_def tl)
      next
        case True
        obtain b where b: "addition_at db tree m it k = Inr b" using it(6) Cons True by auto
        then have p: "addition_passes it v = Inr b" using raw(1) v by (simp add: addition_at_def)
        have r: "add_rest m it = (if b then k # add_rest m it' else add_rest m it')"
          using b True Cons it(1) by (simp add: add_rest_def tl it'_def tl' [unfolded it'_def])
        show ?thesis
        proof (cases b)
          case True
          then show ?thesis
            using it(1) raw(2) v' p r ok' \<open>pattern_passes it k\<close> by (simp add: st)
        next
          case False
          have "length (add_tail it') < fuel" using Suc.prems(1) Cons by (simp add: tl tl')
          from Suc.IH [OF this ok' v'(2), of k] show ?thesis
            using it(1) raw(2) v' p r False \<open>pattern_passes it k\<close> by (simp add: st)
        qed
      qed
    qed
  qed simp
qed

lemma add_start:
  assumes "valid tree" "it_additions it = Some (tree, c)" "tail_keys tree c = ms @ vs"
    "\<forall>x\<in>set ms. pattern_passes it x" "\<forall>x\<in>set vs. \<not> pattern_passes it x" "\<not> it_reverse it" "it_can_early_break it"
    "\<forall>k raw. tree_get db tree k = Some raw \<longrightarrow> (\<exists>v. av_deserialize raw (av_new m) = Inr v)"
    "\<forall>k\<in>set ms. \<exists>b. addition_at db tree m it k = Inr b" "length (ms @ vs) < n"
  shows "add_ok m n it" "add_rest m it = filter (\<lambda>k. addition_at db tree m it k = Inr True) ms"
proof -
  have t: "takeWhile (pattern_passes it) (ms @ vs) = ms" "dropWhile (pattern_passes it) (ms @ vs) = vs"
    using assms(4,5) by (cases vs; simp add: takeWhile_append2 dropWhile_append2)+
  show "add_ok m n it" using assms t by (simp add: add_ok_def add_tail_def)
  show "add_rest m it = filter (\<lambda>k. addition_at db tree m it k = Inr True) ms"
    using assms(2,3) t by (simp add: add_rest_def add_tail_def)
qed

lemma ptt_source:
  assumes "n \<le> fuel"
  shows "iterator_source (ptt_next db fuel) (\<lambda>p. ptt_max_patch_id p = m \<and> add_ok m n (ptt_it p))
    (\<lambda>p. add_rest m (ptt_it p))"
proof (rule delivers_source, elim conjE)
  fix t and p :: "'t patch_tree_triple_iterator"
  assume m: "ptt_max_patch_id p = m" and ok: "add_ok m n (ptt_it p)"
  obtain b key w it where "next_addition db fuel default_triple (av_new m) (ptt_it p) = Inr (b, key, w, it)"
    "add_ok m n it" "add_rest m (ptt_it p) = pending b key (add_rest m it)" "\<not> b \<longrightarrow> add_rest m it = []"
    using next_addition_walk [OF ok av_fresh_new assms, of default_triple] by blast
  then show "delivers (ptt_next db fuel t p) (\<lambda>p. ptt_max_patch_id p = m \<and> add_ok m n (ptt_it p))
      (\<lambda>p. add_rest m (ptt_it p)) (add_rest m (ptt_it p))"
    by (cases b) (simp_all add: delivers_def ptt_next_def m)
qed

lemma skip_additions_walk:
  assumes "add_ok m n it" "av_fresh m w" "n \<le> fuel"
  shows "\<exists>it'. skip_additions db fuel j key w it = Inr it' \<and> add_ok m n it' \<and> add_rest m it' = drop j (add_rest m it)"
  using assms(1,2)
proof (induction j arbitrary: key w it)
  case (Suc j)
  obtain b key' w' it' where 1: "next_addition db fuel key w it = Inr (b, key', w', it')" "add_ok m n it'" "av_fresh m w'"
    "add_rest m it = pending b key' (add_rest m it')" "\<not> b \<longrightarrow> add_rest m it' = []"
    using next_addition_walk [OF Suc.prems assms(3), of key] by blast
  then show ?case using Suc.IH [OF 1(2,3), of key'] by (cases b) auto
qed simp

end

section \<open>No deletion\<close>

context tree_cursors
begin

lemma no_match_ends:
  assumes "it_deletions it = Some (tree, c)" "valid tree" "\<forall>k\<in>set (tail_keys tree c). \<not> pattern_passes it k"
    "it_can_early_break it" "\<forall>k raw v. tree_get db tree k = Some raw \<longrightarrow> (\<exists>v'. dv_deserialize raw v = Inr v')"
  shows "\<exists>key' w'. next_deletion hp db (Suc fuel) key w silent it = Inr (False, key', w', it)"
proof (cases "tail_keys tree c")
  case Nil
  then show ?thesis using tail_keys_Nil [OF assms(2) Nil] assms(1) by simp
next
  case (Cons k ks)
  obtain raw where raw: "tree_get db tree k = Some raw" "cursor_get db tree c = Some (k, raw)"
    by (rule tail_keys_Cons [OF assms(2) Cons])
  obtain w' where "dv_deserialize raw w = Inr w'" using assms(5) raw(1) by blast
  then show ?thesis using assms(1,3,4) raw(2) Cons by simp
qed

end

text \<open>Association lists in the order of the ids.\<close>

interpretation id_tree: tree_cursors "tc_compare (get_triple_comparator SPO None None)"
  "{t. subject t \<in> small_ids \<and> predicate t \<in> small_ids \<and> object t \<in> small_ids}"
  "list_tree (tc_compare (get_triple_comparator SPO None None))" "map fst"
  "list_tree_valid (tc_compare (get_triple_comparator SPO None None))
     {t. subject t \<in> small_ids \<and> predicate t \<in> small_ids \<and> object t \<in> small_ids}"
  by (intro tree_cursors.intro tree_cursors_axioms.intro null_comparison list_tree_laws)

end
