(* ===== verification/Materialization_Properties.thy ===== *)
theory Materialization_Properties
  imports Versions_Properties Materialization Tree_Walk
begin

text \<open>
  What \<open>SnapshotPatchIteratorTripleID\<close> returns: a cursor over the deletions decides for each triple of the
  snapshot whether it is deleted, and the additions come after the triples of the snapshot.
\<close>

section \<open>The additions of a version\<close>

definition added_in :: "('t, 'c, 'h) kyoto \<Rightarrow> 't \<Rightarrow> ('t, 'c, 'h) patch_tree \<Rightarrow> int \<Rightarrow> triple \<Rightarrow> bool outcome" where
  "added_in kc tree pt patch_id t =
     (case tree_get (kc_tree kc) tree t of
        None \<Rightarrow> Inr False
      | Some raw \<Rightarrow>
          bind_outcome (av_deserialize raw (av_new (pt_max_patch_id pt))) (\<lambda>v.
          bind_outcome (av_is_patch_id patch_id v) (\<lambda>b.
            if b then bind_outcome (av_is_local_change patch_id v) (\<lambda>l. Inr (\<not> l)) else Inr False)))"

text \<open>The additions of a version that match a pattern and are not local changes, in the order of the pattern.\<close>

definition additions_of ::
  "('t, 'c, 'h) kyoto \<Rightarrow> ('t \<Rightarrow> triple list) \<Rightarrow> ('t, 'c, 'h) patch_tree \<Rightarrow> int \<Rightarrow> triple \<Rightarrow> triple list" where
  "additions_of kc keys pt patch_id triple_pattern =
     (let tree = get_additions_tree triple_pattern (pt_store pt) in
      filter (\<lambda>t. pattern_match_triple t triple_pattern \<and> added_in kc tree pt patch_id t = Inr True) (keys tree))"

text \<open>The records of the tree can be read, and for those that match the pattern it is defined whether the version
  has the addition: \<open>is_patch_id\<close> and \<open>is_local_change\<close> are undefined for a version before the first one of
  their interval lists.\<close>

definition additions_readable :: "('t, 'c, 'h) kyoto \<Rightarrow> ('t, 'c, 'h) patch_tree \<Rightarrow> int \<Rightarrow> triple \<Rightarrow> bool" where
  "additions_readable kc pt patch_id triple_pattern \<longleftrightarrow>
     (let tree = get_additions_tree triple_pattern (pt_store pt) in
      (\<forall>k raw. tree_get (kc_tree kc) tree k = Some raw \<longrightarrow> (\<exists>v. av_deserialize raw (av_new (pt_max_patch_id pt)) = Inr v)) \<and>
      (\<forall>k. pattern_match_triple k triple_pattern \<longrightarrow> (\<exists>b. added_in kc tree pt patch_id k = Inr b)))"

definition store_ready ::
  "('t, 'c, 'h) kyoto \<Rightarrow> dictionary_manager \<Rightarrow> ('t \<Rightarrow> triple list) \<Rightarrow> (component_order \<Rightarrow> 't \<Rightarrow> bool) \<Rightarrow>
   ('t, 'c, 'h) patch_tree \<Rightarrow> bool" where
  "store_ready kc m keys valid pt \<longleftrightarrow>
     (\<forall>r. role_sorted m r) \<and> unat (dm_max_hdt_id m) < 2 ^ 31 \<and> store_laws (kc_tree kc) m (known_keys m) keys valid \<and>
     trees_valid valid (pt_store pt)"

lemma store_cursors:
  assumes "store_ready kc m keys valid pt"
  shows "tree_cursors (key_compare (order_comparator order m)) (known_keys m) (kc_tree kc) keys (valid order)"
proof (intro tree_cursors.intro tree_cursors_axioms.intro)
  show "comparison (key_compare (order_comparator order m)) (known_keys m)"
    using assms by (intro order_comparison) (simp_all add: store_ready_def)
  show "tree_laws (kc_tree kc) (key_compare (order_comparator order m)) (known_keys m) keys (valid order)"
    using assms by (simp add: store_ready_def store_laws_def)
qed

lemma query_tree_valid:
  assumes "trees_valid valid st"
  shows "valid (get_query_order triple_pattern) (get_additions_tree triple_pattern st)"
  using assms by (simp add: trees_valid_def get_additions_tree_def get_query_order_def Let_def)

lemma addition_iterator_from_rest:
  fixes kc :: "('t, 'c, 'h) kyoto"
  assumes "store_ready kc m keys valid pt" "additions_readable kc pt patch_id triple_pattern"
    "get_addition_count (kc_count kc) patch_id triple_pattern (pt_store pt) \<in>
      {0, int (length (additions_of kc keys pt patch_id triple_pattern))}"
    "length (keys (get_additions_tree triple_pattern (pt_store pt))) < n" "n \<le> fuel"
  shows "\<exists>p. addition_iterator_from kc fuel offset patch_id triple_pattern pt = Inr p \<and>
    ptt_max_patch_id p = pt_max_patch_id pt \<and>
    tree_cursors.add_ok (kc_tree kc) keys (valid (get_query_order triple_pattern)) (pt_max_patch_id pt) n (ptt_it p) \<and>
    tree_cursors.add_rest (kc_tree kc) keys (pt_max_patch_id pt) (ptt_it p) =
      drop (nat offset) (additions_of kc keys pt patch_id triple_pattern)"
proof -
  define order where "order = get_query_order triple_pattern"
  define tree where "tree = get_additions_tree triple_pattern (pt_store pt)"
  define L where "L = additions_of kc keys pt patch_id triple_pattern"
  define it where "it = set_filter_local_changes True (set_triple_pattern_filter triple_pattern (set_patch_filter patch_id True
      (it_new None (Some (tree, tree_from (kc_tree kc) tree triple_pattern)) (get_spo_comparator (pt_store pt)))))"
  define M where "M x \<longleftrightarrow> pattern_match_triple x triple_pattern" for x
  note cur = store_cursors [OF assms(1), of order]
  have v: "valid order tree"
    unfolding order_def tree_def
    using assms(1) query_tree_valid [of valid "pt_store pt" triple_pattern] by (simp add: store_ready_def)
  have rs: "\<And>r. role_sorted m r" "unat (dm_max_hdt_id m) < 2 ^ 31" using assms(1) by (simp_all add: store_ready_def)
  note ks = tree_cursors.keys_sorted [OF cur v]
  have pass: "pattern_passes (it\<lparr> it_additions := c \<rparr>) = M" "addition_at (kc_tree kc) tree (pt_max_patch_id pt) (it\<lparr> it_additions := c \<rparr>) = added_in kc tree pt patch_id"
    "\<not> it_reverse (it\<lparr> it_additions := c \<rparr>)" "it_can_early_break (it\<lparr> it_additions := c \<rparr>)" for c
    by (auto simp: fun_eq_iff it_def pattern_passes_def set_filter_local_changes_def set_triple_pattern_filter_def
        set_patch_filter_def it_new_def is_all_matching_pattern_alt M_def addition_at_def added_in_def addition_passes_def
        split: option.splits intro!: bind_outcome_cong)
  have rd: "\<forall>k raw. tree_get (kc_tree kc) tree k = Some raw \<longrightarrow> (\<exists>v. av_deserialize raw (av_new (pt_max_patch_id pt)) = Inr v)"
    "M k \<Longrightarrow> \<exists>b. added_in kc tree pt patch_id k = Inr b" for k
    using assms(2) by (simp_all add: additions_readable_def Let_def tree_def [symmetric] M_def)
  define db where "db = kc_tree kc"
  define mx where "mx = pt_max_patch_id pt"
  define at where "at c = it\<lparr> it_additions := Some (tree, c) \<rparr>" for c
  define add where "add t \<longleftrightarrow> added_in kc tree pt patch_id t = Inr True" for t
  have started: "tree_cursors.add_ok db keys (valid order) mx n (at c)"
    "tree_cursors.add_rest db keys mx (at c) = filter add ms"
    if "tree_cursors.tail_keys keys tree c = ms @ ws" "\<forall>x\<in>set ms. M x" "\<forall>x\<in>set ws. \<not> M x" "length (ms @ ws) < n" for c ms ws
  proof -
    have a: "it_additions (at c) = Some (tree, c)" by (simp add: at_def)
    note st = tree_cursors.add_start [OF cur v a that(1), of mx n, folded db_def]
    have p: "pattern_passes (at c) = M" "addition_at db tree mx (at c) = added_in kc tree pt patch_id"
      "\<not> it_reverse (at c)" "it_can_early_break (at c)"
      using pass [of "Some (tree, c)"] by (simp_all add: at_def db_def mx_def)
    have r: "\<forall>k raw. tree_get db tree k = Some raw \<longrightarrow> (\<exists>v. av_deserialize raw (av_new mx) = Inr v)"
      "\<forall>k\<in>set ms. \<exists>b. added_in kc tree pt patch_id k = Inr b"
      using rd that(2) by (simp_all add: db_def mx_def)
    show "tree_cursors.add_ok db keys (valid order) mx n (at c)"
      by (rule st(1)) (use that(2-4) p r in simp_all)
    have "tree_cursors.add_rest db keys mx (at c) = filter (\<lambda>k. addition_at db tree mx (at c) k = Inr True) ms"
      by (rule st(2)) (use that(2-4) p r in simp_all)
    then show "tree_cursors.add_rest db keys mx (at c) = filter add ms" by (simp add: p add_def [abs_def])
  qed
  have L: "L = filter add (filter M (keys tree))"
    by (simp add: L_def additions_of_def Let_def tree_def [symmetric] M_def [abs_def] add_def [abs_def] conj_commute)
  obtain vs where vs: "tree_cursors.tail_keys keys tree (tree_from db tree triple_pattern) = filter M (keys tree) @ vs"
    "\<forall>x\<in>set vs. \<not> M x"
    using matches_first [OF rs ks(3), of triple_pattern] ks(1) tree_cursors.tail_keys_from [OF cur v, of triple_pattern]
    by (auto simp: order_def M_def [abs_def] db_def)
  have "length (filter M (keys tree) @ vs) \<le> length (keys tree)"
    using tree_cursors.tail_keys_from [OF cur v, of triple_pattern] vs(1) length_dropWhile_le unfolding db_def by metis
  then have len: "length (filter M (keys tree) @ vs) < n" using assms(4) by (simp add: tree_def)
  have it: "it = at (tree_from db tree triple_pattern)"
    by (simp add: it_def at_def it_new_def set_filter_local_changes_def set_triple_pattern_filter_def set_patch_filter_def db_def)
  have first: "tree_cursors.add_ok db keys (valid order) mx n it" "tree_cursors.add_rest db keys mx it = L"
    unfolding it L by (rule started [OF vs(1) _ vs(2) len], simp)+
  define it' where "it' = at (tree_last db tree)"
  have last: "tree_cursors.add_ok db keys (valid order) mx n it'" "length (tree_cursors.add_rest db keys mx it') \<le> 1"
  proof -
    define l where "l = tree_cursors.tail_keys keys tree (tree_last db tree)"
    have l1: "length l \<le> 1" "length l \<le> length (keys tree)"
      using tree_cursors.tail_keys_last [OF cur v] by (simp_all add: l_def db_def Suc_le_eq)
    have l: "tree_cursors.tail_keys keys tree (tree_last db tree) = takeWhile M l @ dropWhile M l" by (simp add: l_def)
    have n: "length (takeWhile M l @ dropWhile M l) < n" using l1(2) assms(4) by (simp add: tree_def)
    have m: "\<forall>x\<in>set (takeWhile M l). M x" by (auto dest: set_takeWhileD)
    have d: "\<forall>x\<in>set (dropWhile M l). \<not> M x" using l1(1) by (cases l) simp_all
    show "tree_cursors.add_ok db keys (valid order) mx n it'"
      unfolding it'_def by (rule started [OF l m d n])
    show "length (tree_cursors.add_rest db keys mx it') \<le> 1"
      unfolding it'_def started(2) [OF l m d n]
      using length_filter_le [of add "takeWhile M l"] length_takeWhile_le [of M l] l1(1) by linarith
  qed
  define it0 where "it0 = (let count = get_addition_count (kc_count kc) patch_id triple_pattern (pt_store pt) in
    if count \<noteq> 0 \<and> count \<le> offset then it' else it)"
  have e: "addition_iterator_from kc fuel offset patch_id triple_pattern pt =
      bind_outcome (skip_additions db fuel (nat offset) default_triple (av_new mx) it0) (\<lambda>it.
        Inr \<lparr> ptt_it = it, ptt_triple_pattern = triple_pattern, ptt_max_patch_id = mx \<rparr>)"
    by (simp add: addition_iterator_from_def Let_def tree_def [symmetric] it_def [symmetric] it0_def it'_def at_def db_def mx_def)
  have "tree_cursors.add_ok db keys (valid order) mx n it0" using first(1) last(1) by (simp add: it0_def Let_def)
  from tree_cursors.skip_additions_walk [OF cur [folded db_def] this av_fresh_new assms(5), of "nat offset" default_triple]
  obtain it2 where 2: "skip_additions db fuel (nat offset) default_triple (av_new mx) it0 = Inr it2"
    "tree_cursors.add_ok db keys (valid order) mx n it2"
    "tree_cursors.add_rest db keys mx it2 = drop (nat offset) (tree_cursors.add_rest db keys mx it0)"
    by blast
  have "Suc 0 \<le> nat offset" if "L \<noteq> []" "int (length L) \<le> offset" using that by (cases L) auto
  then have "drop (nat offset) (tree_cursors.add_rest db keys mx it0) = drop (nat offset) L"
    using first(2) last(2) assms(3)
    by (auto simp: it0_def Let_def L_def [symmetric] intro: order_trans [of _ "Suc 0"])
  then show ?thesis using 2 e by (simp add: db_def mx_def order_def L_def)
qed

section \<open>Deletions\<close>

text \<open>Whether the deletion value of a triple says that it is deleted in a version, other than as a local change.\<close>

definition deleted_in :: "('t, 'c, 'h) kyoto \<Rightarrow> ('t, 'c, 'h) patch_tree \<Rightarrow> int \<Rightarrow> triple \<Rightarrow> bool outcome" where
  "deleted_in kc pt patch_id t =
     (case tree_get (kc_tree kc) (get_default_deletions_tree (pt_store pt)) t of
        None \<Rightarrow> Inr False
      | Some raw \<Rightarrow>
          bind_outcome (dv_deserialize raw (dv_new patch_id)) (\<lambda>v.
            if dv_get_patchvalue_index patch_id v \<ge> 0
            then bind_outcome (dv_is_local_change True patch_id v) (\<lambda>l. Inr (\<not> l)) else Inr False))"

definition deletions_readable :: "('t, 'c, 'h) kyoto \<Rightarrow> ('t, 'c, 'h) patch_tree \<Rightarrow> bool" where
  "deletions_readable kc pt \<longleftrightarrow>
     (\<forall>k raw v. tree_get (kc_tree kc) (get_default_deletions_tree (pt_store pt)) k = Some raw \<longrightarrow>
        (\<exists>v'. dv_deserialize raw v = Inr v'))"

text \<open>The deletion iterator of a version, wherever its cursor is.\<close>

definition del_ok :: "'t \<Rightarrow> int \<Rightarrow> 't positioned_triple_iterator \<Rightarrow> bool" where
  "del_ok tree patch_id d \<longleftrightarrow> pti_patch_id d = patch_id \<and> (\<exists>c. it_deletions (pti_it d) = Some (tree, c)) \<and>
     it_is_patch_id_filter (pti_it d) \<and> it_is_patch_id_filter_exact (pti_it d) \<and> it_patch_id_filter (pti_it d) = patch_id \<and>
     it_is_filter_local_changes (pti_it d) \<and> \<not> it_reverse (pti_it d) \<and> it_can_early_break (pti_it d)"

lemma known_key_matches:
  assumes "t \<in> known_keys m"
  shows "pattern_match_triple k t \<longleftrightarrow> k = t" "\<not> is_all_matching_pattern t"
proof -
  have "subject t \<noteq> 0" "predicate t \<noteq> 0" "object t \<noteq> 0"
    using assms by (auto simp: known_keys_def known_ids_def role_id_def)
  then show "pattern_match_triple k t \<longleftrightarrow> k = t" "\<not> is_all_matching_pattern t"
    by (cases k; cases t; auto simp: pattern_match_triple_def is_all_matching_pattern_def)+
qed

lemma default_before:
  assumes "t \<in> known_keys m"
  shows "default_triple \<noteq> t" "key_compare (get_spo_comparator st) default_triple t < 0"
proof -
  have "subject t \<noteq> 0" "subject t \<noteq> max_id" using assms by (auto simp: known_keys_def known_ids_def role_id_def)
  then show "default_triple \<noteq> t" "key_compare (get_spo_comparator st) default_triple t < 0"
    by (auto simp: key_compare_def get_spo_comparator_def spo_comparator_def comp_s_def key_component_def default_triple_def
        max_id_def)
qed

lemma jump_decides:
  assumes "store_ready kc m keys valid pt" "deletions_readable kc pt" "t \<in> known_keys m"
    "del_ok (get_default_deletions_tree (pt_store pt)) patch_id d" "deleted_in kc pt patch_id t = Inr b" "2 \<le> fuel"
  shows "\<exists>d1 new d2. spi_jump (kc_tree kc) t d = Inr d1 \<and>
    pti_next (kc_tree kc) fuel old False False d1 = Inr (b, new, d2) \<and> (b \<longrightarrow> pst_triple new = t) \<and>
    del_ok (get_default_deletions_tree (pt_store pt)) patch_id d2"
proof -
  define tree where "tree = get_default_deletions_tree (pt_store pt)"
  define db where "db = kc_tree kc"
  define cmp where "cmp = key_compare (order_comparator SPO m)"
  note cur = store_cursors [OF assms(1), of SPO, folded cmp_def db_def]
  have v: "valid SPO tree"
    using assms(1) by (simp add: tree_def store_ready_def trees_valid_def get_default_deletions_tree_def)
  note rd = assms(2) [unfolded deletions_readable_def, folded tree_def db_def]
  obtain f where f: "fuel = Suc (Suc f)" using assms(6) by (metis add_2_eq_Suc le_Suc_ex)
  note ends = tree_cursors.no_match_ends [OF cur _ v _ _ rd]
  define it where "it = set_triple_pattern_filter t ((pti_it d)\<lparr> it_deletions := Some (tree, tree_from db tree t) \<rparr>)"
  have it: "it_deletions it = Some (tree, tree_from db tree t)" "it_can_early_break it" "\<not> it_reverse it"
    "pattern_passes (it\<lparr> it_deletions := c \<rparr>) k \<longleftrightarrow> k = t" "pattern_passes it k \<longleftrightarrow> k = t"
    "deletion_passes True it w = (if dv_get_patchvalue_index patch_id w \<ge> 0
       then bind_outcome (dv_is_local_change True patch_id w) (\<lambda>l. Inr (\<not> l)) else Inr False)" for c k w
    using assms(4) known_key_matches [OF assms(3)]
    by (simp_all add: it_def set_triple_pattern_filter_def del_ok_def pattern_passes_def deletion_passes_def)
  have ok: "del_ok tree patch_id (d\<lparr> pti_it := it\<lparr> it_deletions := Some (tree, c) \<rparr> \<rparr>)" "del_ok tree patch_id (d\<lparr> pti_it := it \<rparr>)" for c
    using assms(4) known_key_matches [OF assms(3)] by (simp_all add: it_def set_triple_pattern_filter_def del_ok_def)
  have j: "spi_jump db t d = Inr (d\<lparr> pti_it := it \<rparr>)"
    using assms(4) by (auto simp: spi_jump_def del_ok_def it_def tree_def)
  have tl: "tree_cursors.tail_keys keys tree (tree_from db tree t) = dropWhile (\<lambda>x. cmp x t < 0) (keys tree)"
    by (rule tree_cursors.tail_keys_from [OF cur v])
  note ks = tree_cursors.keys_sorted [OF cur v]
  have "\<exists>key w it'. next_deletion True db fuel default_triple (dv_new patch_id) False it = Inr (b, key, w, it') \<and>
      (b \<longrightarrow> key = t) \<and> del_ok tree patch_id (d\<lparr> pti_it := it' \<rparr>)"
  proof (cases "t \<in> set (keys tree)")
    case False
    then have "tree_get db tree t = None" using ks(4) by blast
    then have "b = False" using assms(5) by (simp add: deleted_in_def tree_def db_def)
    moreover have "\<forall>k\<in>set (tree_cursors.tail_keys keys tree (tree_from db tree t)). \<not> pattern_passes it k"
      unfolding tl using False by (auto simp: it(5) dest: set_dropWhileD)
    ultimately show ?thesis using ends [OF it(1) _ it(2)] ok(2) f by fastforce
  next
    case True
    then obtain us vs where us: "keys tree = us @ t # vs" by (metis split_list)
    then have "\<forall>x\<in>set us. cmp x t < 0" "t \<notin> set vs" using ks(1,2) by (auto simp: sorted_wrt_append)
    moreover have "\<not> cmp t t < 0"
      using comparison.cmp_self [of cmp "known_keys m" t] tree_cursors.axioms(1) [OF cur] assms(3) by simp
    ultimately have tv: "tree_cursors.tail_keys keys tree (tree_from db tree t) = t # vs" "t \<notin> set vs"
      unfolding tl us by (simp_all add: dropWhile_append2)
    obtain raw where raw: "tree_get db tree t = Some raw" "cursor_get db tree (tree_from db tree t) = Some (t, raw)"
      "tree_cursors.tail_keys keys tree (cursor_step db tree (tree_from db tree t)) = vs"
      by (rule tree_cursors.tail_keys_Cons [OF cur v tv(1)])
    obtain w where w: "dv_deserialize raw (dv_new patch_id) = Inr w" using rd raw(1) by blast
    have p: "deletion_passes True it w = Inr b"
      using assms(5) w raw(1) by (simp add: deleted_in_def tree_def db_def it(6))
    define it' where "it' = it\<lparr> it_deletions := Some (tree, cursor_step db tree (tree_from db tree t)) \<rparr>"
    have st: "it\<lparr> it_deletions := Some (move db (it_reverse it) (tree, tree_from db tree t)) \<rparr> = it'"
      using it(3) by (simp add: it'_def move_def)
    have n: "next_deletion True db fuel default_triple (dv_new patch_id) False it =
        (if b then Inr (True, t, w, it') else next_deletion True db (Suc f) t w False it')"
      using it(1,5) raw(2) w p by (simp add: f st)
    have "\<forall>k\<in>set (tree_cursors.tail_keys keys tree (cursor_step db tree (tree_from db tree t))). \<not> pattern_passes it' k"
      using tv(2) by (auto simp: raw(3) it'_def it(4))
    moreover have "it_deletions it' = Some (tree, cursor_step db tree (tree_from db tree t))" "it_can_early_break it'"
      using it(2) by (simp_all add: it'_def)
    ultimately obtain key' w' where "next_deletion True db (Suc f) t w False it' = Inr (False, key', w', it')"
      using ends by metis
    then show ?thesis using n ok(1) by (cases b) (simp_all add: it'_def)
  qed
  then obtain key w it' where n: "next_deletion True db fuel default_triple (dv_new patch_id) False it = Inr (b, key, w, it')"
    "b \<longrightarrow> key = t" "del_ok tree patch_id (d\<lparr> pti_it := it' \<rparr>)" by blast
  have "pti_patch_id d = patch_id" using assms(4) by (simp add: del_ok_def)
  then have "pti_next db fuel old False False (d\<lparr> pti_it := it \<rparr>) =
      Inr (b, if b then old\<lparr> pst_triple := t \<rparr> else old, d\<lparr> pti_it := it' \<rparr>)"
    using n(1,2) by (cases b) (simp_all add: pti_next_def)
  then show ?thesis using j n(3) unfolding tree_def db_def by (cases b) auto
qed

text \<open>The flag \<open>has_last_deleted_triple\<close> has no initial value. When it is set at first, the triple it stands for
  is the default one, which is before every triple, and it is cleared.\<close>

definition last_ok :: "('t, 'c) triple_store \<Rightarrow> ('t, 'c, 'h, 'x, 's) snapshot_patch_iterator \<Rightarrow> bool" where
  "last_ok st it \<longleftrightarrow>
     (spi_has_last_deleted_triple it \<longrightarrow>
        pst_triple (spi_last_deleted_triple it) = default_triple \<and> spi_spo_comparator it = get_spo_comparator st)"

lemma spi_check_decides:
  assumes "store_ready kc m keys valid pt" "deletions_readable kc pt" "t \<in> known_keys m"
    "spi_deletion_it it = Some d" "del_ok (get_default_deletions_tree (pt_store pt)) patch_id d"
    "last_ok (pt_store pt) it" "deleted_in kc pt patch_id t = Inr b" "4 \<le> fuel"
  shows "\<exists>new d'. spi_check (kc_tree kc) fuel t it =
      Inr (\<not> b, it\<lparr> spi_last_deleted_triple := new, spi_deletion_it := Some d', spi_has_last_deleted_triple := False \<rparr>) \<and>
    del_ok (get_default_deletions_tree (pt_store pt)) patch_id d'"
proof -
  obtain f where f: "fuel = Suc (Suc f)" "2 \<le> f" using assms(8) by (cases fuel; cases "fuel - 1") auto
  note j = jump_decides [OF assms(1-3,5,7), where old = "spi_last_deleted_triple it"]
  obtain d1 where d1: "spi_jump (kc_tree kc) t d = Inr d1" using j [of 2] by auto
  define it1 where "it1 = it\<lparr> spi_deletion_it := Some d1, spi_has_last_deleted_triple := False \<rparr>"
  have e: "\<exists>new d'. spi_emits (kc_tree kc) (Suc n) t it1 =
      Inr (\<not> b, it\<lparr> spi_last_deleted_triple := new, spi_deletion_it := Some d', spi_has_last_deleted_triple := False \<rparr>) \<and>
      del_ok (get_default_deletions_tree (pt_store pt)) patch_id d'" if n: "2 \<le> n" for n
  proof -
    obtain new d2 where "pti_next (kc_tree kc) n (spi_last_deleted_triple it) False False d1 = Inr (b, new, d2)"
      "b \<longrightarrow> pst_triple new = t" "del_ok (get_default_deletions_tree (pt_store pt)) patch_id d2"
      using j [OF n] by (auto simp: d1)
    then show ?thesis by (cases b; intro exI [of _ new] exI [of _ d2]) (simp_all add: it1_def)
  qed
  have "spi_check (kc_tree kc) fuel t it =
      (if spi_has_last_deleted_triple it then spi_emits (kc_tree kc) (Suc f) t it1 else spi_emits (kc_tree kc) fuel t it1)"
  proof (cases "spi_has_last_deleted_triple it")
    case True
    then show ?thesis
      using assms(4,6) d1 default_before(1) [OF assms(3)] default_before(2) [OF assms(3), of "pt_store pt"]
      by (simp add: spi_check_def last_ok_def it1_def f(1))
  next
    case False
    then have "it1 = it\<lparr> spi_deletion_it := Some d1 \<rparr>" by (simp add: it1_def)
    then show ?thesis using False assms(4) d1 by (simp add: spi_check_def del: spi_emits.simps)
  qed
  then show ?thesis using e [OF f(2)] e [of "Suc f"] f by (simp split: if_splits)
qed

section \<open>One version\<close>

text \<open>What an iterator over a version still has to return.\<close>

definition spi_rest ::
  "('t, 'c, 'h) kyoto \<Rightarrow> ('t \<Rightarrow> triple list) \<Rightarrow> ('t, 'c, 'h) patch_tree \<Rightarrow> int \<Rightarrow> ('s id_iterator \<Rightarrow> triple list) \<Rightarrow> triple list \<Rightarrow>
   ('t, 'c, 'h, 'x, 's) snapshot_patch_iterator \<Rightarrow> triple list" where
  "spi_rest kc keys pt patch_id rest additions it =
     (case spi_snapshot_it it of
        Some s \<Rightarrow> filter (\<lambda>t. deleted_in kc pt patch_id t = Inr False) (rest s) @ additions
      | None \<Rightarrow> (case spi_addition_it it of
          None \<Rightarrow> []
        | Some a \<Rightarrow> tree_cursors.add_rest (kc_tree kc) keys (pt_max_patch_id pt) (ptt_it a)))"

definition spi_ok ::
  "('t, 'c, 'h) kyoto \<Rightarrow> dictionary_manager \<Rightarrow> ('t \<Rightarrow> triple list) \<Rightarrow> (component_order \<Rightarrow> 't \<Rightarrow> bool) \<Rightarrow>
   ('t, 'c, 'h) patch_tree \<Rightarrow> int \<Rightarrow> triple \<Rightarrow> int \<Rightarrow> ('s id_iterator \<Rightarrow> bool) \<Rightarrow> ('s id_iterator \<Rightarrow> triple list) \<Rightarrow> nat \<Rightarrow> nat \<Rightarrow>
   ('t, 'c, 'h, 'x, 's) snapshot_patch_iterator \<Rightarrow> bool" where
  "spi_ok kc m keys valid pt patch_id triple_pattern k ok rest n r it \<longleftrightarrow>
     (case spi_snapshot_it it of
        Some s \<Rightarrow> ok s \<and> length (rest s) \<le> r \<and> set (rest s) \<subseteq> known_keys m \<and> last_ok (pt_store pt) it \<and>
          (\<forall>t\<in>set (rest s). \<exists>b. deleted_in kc pt patch_id t = Inr b) \<and>
          (\<exists>d. spi_deletion_it it = Some d \<and> del_ok (get_default_deletions_tree (pt_store pt)) patch_id d) \<and>
          spi_patch_tree it = pt \<and> spi_patch_id it = patch_id \<and> spi_triple_pattern it = triple_pattern \<and>
          spi_offset it + spi_deletion_count it = k
      | None \<Rightarrow> (case spi_addition_it it of
          None \<Rightarrow> True
        | Some a \<Rightarrow> ptt_max_patch_id a = pt_max_patch_id pt \<and>
            tree_cursors.add_ok (kc_tree kc) keys (valid (get_query_order triple_pattern)) (pt_max_patch_id pt) n (ptt_it a)))"

lemma additions_deliver:
  fixes kc :: "('t, 'c, 'h) kyoto" and lib :: "('x, 's) hdt_lib" and it :: "('t, 'c, 'h, 'x, 's) snapshot_patch_iterator"
  assumes "store_ready kc m keys valid pt" "spi_snapshot_it it = None" "spi_addition_it it = Some a"
    "spi_ok kc m keys valid pt patch_id triple_pattern k ok rest n r it" "n \<le> fuel" "0 < fuel"
  shows "delivers (bind_outcome (ptt_next (kc_tree kc) fuel t a) (\<lambda>(b, t, a).
        if b then Inr (True, t, it\<lparr> spi_addition_it := Some a \<rparr>)
        else spi_next lib kc fuel t (it\<lparr> spi_addition_it := None \<rparr>)))
    (spi_ok kc m keys valid pt patch_id triple_pattern k ok rest n r) (spi_rest kc keys pt patch_id rest additions)
    (spi_rest kc keys pt patch_id rest additions it)"
proof -
  note cur = store_cursors [OF assms(1), of "get_query_order triple_pattern"]
  note src = tree_cursors.ptt_source [OF cur assms(5), of "pt_max_patch_id pt"]
  obtain f where f: "fuel = Suc f" using assms(6) by (cases fuel) auto
  have a: "ptt_max_patch_id a = pt_max_patch_id pt \<and>
      tree_cursors.add_ok (kc_tree kc) keys (valid (get_query_order triple_pattern)) (pt_max_patch_id pt) n (ptt_it a)"
    using assms(2-4) by (simp add: spi_ok_def)
  obtain b t' a' where 1: "ptt_next (kc_tree kc) fuel t a = Inr (b, t', a')"
    "ptt_max_patch_id a' = pt_max_patch_id pt \<and>
      tree_cursors.add_ok (kc_tree kc) keys (valid (get_query_order triple_pattern)) (pt_max_patch_id pt) n (ptt_it a')"
    "tree_cursors.add_rest (kc_tree kc) keys (pt_max_patch_id pt) (ptt_it a) =
     pending b t' (tree_cursors.add_rest (kc_tree kc) keys (pt_max_patch_id pt) (ptt_it a'))"
    by (rule iterator_source.next_pending [OF src a])
  show ?thesis
  proof (cases b)
    case True
    then show ?thesis
      using 1 assms(2,3) by (auto intro!: delivers_intros simp: spi_ok_def spi_rest_def)
  next
    case False
    have "spi_next lib kc fuel t' (it\<lparr> spi_addition_it := None \<rparr>) = Inr (False, t', it\<lparr> spi_addition_it := None \<rparr>)"
      using assms(2) by (simp add: f)
    then show ?thesis
      using 1 False assms(2,3) by (auto intro!: delivers_intros simp: spi_ok_def spi_rest_def)
  qed
qed

lemma spi_next_delivers:
  fixes kc :: "('t, 'c, 'h) kyoto" and lib :: "('x, 's) hdt_lib" and it :: "('t, 'c, 'h, 'x, 's) snapshot_patch_iterator"
  assumes "store_ready kc m keys valid pt" "additions_readable kc pt patch_id triple_pattern"
    "deletions_readable kc pt"
    "get_addition_count (kc_count kc) patch_id triple_pattern (pt_store pt) \<in>
      {0, int (length (additions_of kc keys pt patch_id triple_pattern))}"
    "length (keys (get_additions_tree triple_pattern (pt_store pt))) < n"
    "triple_id_iterator (ii_has_next lib) (ii_next lib) ok rest"
    "\<And>s. ok s \<Longrightarrow> ii_estimation lib s = EXACT \<and> ii_estimated lib s = num" "0 \<le> num"
    "additions = drop (nat (k - num)) (additions_of kc keys pt patch_id triple_pattern)"
    "spi_ok kc m keys valid pt patch_id triple_pattern k ok rest n r it"
    "case spi_snapshot_it it of Some s \<Rightarrow> length (rest s) + n + 4 \<le> fuel | None \<Rightarrow> n + 2 \<le> fuel"
  shows "delivers (spi_next lib kc fuel t it) (spi_ok kc m keys valid pt patch_id triple_pattern k ok rest n r)
    (spi_rest kc keys pt patch_id rest additions) (spi_rest kc keys pt patch_id rest additions it)"
  using assms(10,11)
proof (induction fuel arbitrary: t it)
  case 0
  then show ?case by (simp split: option.splits)
next
  case (Suc fuel)
  note ok = Suc.prems(1)
  show ?case
  proof (cases "spi_snapshot_it it")
    case None
    show ?thesis
    proof (cases "spi_addition_it it")
      case None2: None
      then show ?thesis using None ok by (auto intro!: delivers_intros simp: spi_rest_def)
    next
      case (Some a)
      have "n \<le> fuel" "0 < fuel" using Suc.prems(2) None by simp_all
      from additions_deliver [OF assms(1) None Some ok this, where lib = lib and t = t and additions = additions]
      show ?thesis using None Some by simp
    qed
  next
    case (Some s)
    obtain d where s: "ok s" "length (rest s) \<le> r" "set (rest s) \<subseteq> known_keys m" "last_ok (pt_store pt) it"
      "spi_deletion_it it = Some d" "del_ok (get_default_deletions_tree (pt_store pt)) patch_id d"
      "spi_patch_tree it = pt" "spi_patch_id it = patch_id" "spi_triple_pattern it = triple_pattern"
      "spi_offset it + spi_deletion_count it = k" "\<forall>t\<in>set (rest s). \<exists>b. deleted_in kc pt patch_id t = Inr b"
      using ok Some by (auto simp: spi_ok_def)
    have len: "length (rest s) + n + 3 \<le> fuel" using Suc.prems(2) Some by simp
    show ?thesis
    proof (rule triple_id_iterator.next_cases [OF assms(6) s(1)])
      fix t1 s1
      assume 1: "ii_has_next lib s" "ii_next lib s = Inr (t1, s1)" "ok s1" "rest s = t1 # rest s1"
      obtain b where b: "deleted_in kc pt patch_id t1 = Inr b" using s(11) 1(4) by auto
      have f3: "4 \<le> fuel" and t1: "t1 \<in> known_keys m" using len s(3) 1(4) by simp_all
      have "last_ok (pt_store pt) (it\<lparr> spi_snapshot_it := Some s1 \<rparr>)" "spi_deletion_it (it\<lparr> spi_snapshot_it := Some s1 \<rparr>) = Some d"
        using s(4,5) by (simp_all add: last_ok_def)
      then obtain new d' where c: "spi_check (kc_tree kc) fuel t1 (it\<lparr> spi_snapshot_it := Some s1 \<rparr>) =
          Inr (\<not> b, (it\<lparr> spi_snapshot_it := Some s1 \<rparr>)\<lparr> spi_last_deleted_triple := new, spi_deletion_it := Some d',
            spi_has_last_deleted_triple := False \<rparr>)" "del_ok (get_default_deletions_tree (pt_store pt)) patch_id d'"
        using spi_check_decides [OF assms(1,3) t1 _ s(6) _ b f3] by blast
      define it' where "it' = (it\<lparr> spi_snapshot_it := Some s1 \<rparr>)\<lparr> spi_last_deleted_triple := new, spi_deletion_it := Some d',
          spi_has_last_deleted_triple := False \<rparr>"
      have ok': "spi_ok kc m keys valid pt patch_id triple_pattern k ok rest n r it'"
        using s 1(3,4) c(2) by (simp add: spi_ok_def it'_def last_ok_def)
      have n: "spi_next lib kc (Suc fuel) t it = (if b then spi_next lib kc fuel t1 it' else Inr (True, t1, it'))"
        using Some 1(1,2) c(1) by (simp add: it'_def)
      have r: "spi_rest kc keys pt patch_id rest additions it =
          (if b then spi_rest kc keys pt patch_id rest additions it' else t1 # spi_rest kc keys pt patch_id rest additions it')"
        using Some 1(4) b by (simp add: spi_rest_def it'_def)
      show ?thesis
      proof (cases b)
        case True
        have "delivers (spi_next lib kc fuel t1 it') (spi_ok kc m keys valid pt patch_id triple_pattern k ok rest n r)
            (spi_rest kc keys pt patch_id rest additions) (spi_rest kc keys pt patch_id rest additions it')"
          by (rule Suc.IH [OF ok']) (use len 1(4) in \<open>simp add: it'_def\<close>)
        then show ?thesis unfolding n r using True by simp
      next
        case False
        then show ?thesis unfolding n r using ok' by (auto intro!: delivers_intros)
      qed
    next
      assume 1: "\<not> ii_has_next lib s" "rest s = []"
      have count: "spi_snapshot_count lib fuel s it = Inr num"
        using assms(7) [OF s(1)] assms(8) by (simp add: spi_snapshot_count_def)
      have nf: "n \<le> fuel" "0 < fuel" using len by simp_all
      obtain p where p: "addition_iterator_from kc fuel (k - num) patch_id triple_pattern pt = Inr p"
        "ptt_max_patch_id p = pt_max_patch_id pt"
        "tree_cursors.add_ok (kc_tree kc) keys (valid (get_query_order triple_pattern)) (pt_max_patch_id pt) n (ptt_it p)"
        "tree_cursors.add_rest (kc_tree kc) keys (pt_max_patch_id pt) (ptt_it p) = additions"
        using addition_iterator_from_rest [OF assms(1,2,4,5) nf(1), of "k - num"] assms(9) by blast
      define it' where "it' = it\<lparr> spi_snapshot_it := None, spi_addition_it := Some p \<rparr>"
      have e: "spi_offset it - num + spi_deletion_count it = k - num" using s(10) by simp
      have st: "spi_start_additions lib kc fuel s it = Inr it'"
        by (simp only: spi_start_additions_def count s(7-9) bind_outcome_simps e p(1) it'_def)
      have it': "spi_snapshot_it it' = None" "spi_addition_it it' = Some p"
        "spi_ok kc m keys valid pt patch_id triple_pattern k ok rest n r it'"
        "spi_rest kc keys pt patch_id rest additions it = spi_rest kc keys pt patch_id rest additions it'"
        using p(2-4) Some 1(2) by (simp_all add: it'_def spi_ok_def spi_rest_def)
      from additions_deliver [OF assms(1) it'(1-3) nf, where lib = lib and t = t and additions = additions]
      show ?thesis using Some 1(1) st it'(2,4) by simp
    qed
  qed
qed

section \<open>The iterators over a sorted result\<close>

definition sorted_ok :: "int \<Rightarrow> 's id_iterator \<Rightarrow> bool" where
  "sorted_ok num s \<longleftrightarrow>
     (case s of Hdt_iterator _ \<Rightarrow> False
      | Sorted_iterator it \<Rightarrow> sti_pos it \<le> length (sti_triples it) \<and> int (length (sti_triples it)) = num)"

definition sorted_rest :: "'s id_iterator \<Rightarrow> triple list" where
  "sorted_rest s = (case s of Hdt_iterator _ \<Rightarrow> [] | Sorted_iterator it \<Rightarrow> sti_rest it)"

lemma sorted_iterator_source:
  fixes lib :: "('x, 's) hdt_lib"
  shows "triple_id_iterator (ii_has_next lib) (ii_next lib) (sorted_ok num) sorted_rest"
proof
  fix s :: "'s id_iterator" and x xs
  assume ok: "sorted_ok num s"
  then obtain it where it: "s = Sorted_iterator it" "sti_pos it \<le> length (sti_triples it)" "int (length (sti_triples it)) = num"
    by (cases s) (simp_all add: sorted_ok_def)
  show "ii_has_next lib s \<longleftrightarrow> sorted_rest s \<noteq> []" using sti.has_next_rest [OF it(2)] by (simp add: it(1) sorted_rest_def)
  assume r: "sorted_rest s = x # xs"
  then have lt: "sti_pos it < length (sti_triples it)" by (simp add: it(1) sorted_rest_def sti_rest_def) (metis drop_eq_Nil linorder_not_le list.distinct(1))
  then show "\<exists>s'. ii_next lib s = Inr (x, s') \<and> sorted_ok num s' \<and> sorted_rest s' = xs"
    using r it(3) by (simp add: it(1) sorted_rest_def sorted_ok_def sti_next_def sti_rest_def Cons_nth_drop_Suc [symmetric])
qed

section \<open>An example\<close>

text \<open>A tree in which version 1 deletes one triple and adds another.\<close>

definition example_version ::
  "(component_order \<times> (triple \<times> byte list) list, (triple_version \<times> int) list, (u64 \<times> int) list) patch_tree" where
  "example_version = empty_tree\<lparr> pt_max_patch_id := 5, pt_store := (empty_store example_manager)
     \<lparr> ts_spo_deletions := (SPO, [(mk_triple 1 1 2, dv_serialize example_deletion)]),
       ts_spo_additions := (SPO, [(mk_triple 2 1 2, av_serialize (first_addition 1 False))]) \<rparr> \<rparr>"

lemma example_version_trees:
  "tree_get (kc_tree example_kc) (get_default_deletions_tree (pt_store example_version)) =
     [mk_triple 1 1 2 \<mapsto> dv_serialize example_deletion]"
  "get_additions_tree (mk_triple 0 0 0) (pt_store example_version) =
     (SPO, [(mk_triple 2 1 2, av_serialize (first_addition 1 False))])"
  "tree_get (kc_tree example_kc) (SPO, [(mk_triple 2 1 2, raw)]) = [mk_triple 2 1 2 \<mapsto> raw]"
  "pt_max_patch_id example_version = 5"
  by (simp_all add: example_version_def example_kc_def ordered_tree_def list_tree_def get_default_deletions_tree_def
      get_additions_tree_def get_query_order_def Let_def)

lemma dvi_deserialize_any:
  assumes "dvi_deserialize raw l = Inr x"
  shows "\<exists>y. dvi_deserialize raw l' = Inr y"
proof -
  obtain a b where d: "decode_le 8 raw = Inr a" "decode_le 8 (drop 8 raw) = Inr b"
    using assms unfolding dvi_deserialize_def bind_outcome_eq_Inr by blast
  define n k where "n = unat a" and "k = unat b"
  note read = assms [unfolded dvi_deserialize_def d bind_outcome_simps Let_def, folded n_def k_def]
  have len: "\<not> length raw < 16 + n + k" using read by (auto split: if_splits)
  note read = read [unfolded if_not_P [OF len] bind_outcome_eq_Inr]
  obtain p q r where "il_deserialize (take n (drop 16 raw)) (il_clear (dv_patches l)) = Inr p"
    "il_deserialize (take k (drop (16 + n) raw)) (il_clear (dv_local_changes l)) = Inr q"
    and pos: "(if length (drop (16 + n + k) raw) > 0 then delta_deserialize_position_vec (drop (16 + n + k) raw)
       else Inr (dv_positions l)) = Inr r"
    using read by blast
  then obtain p' q' where
    "il_deserialize (take n (drop 16 raw)) (il_clear (dv_patches l')) = Inr p'"
    "il_deserialize (take k (drop (16 + n) raw)) (il_clear (dv_local_changes l')) = Inr q'"
    using il_deserialize_any by meson
  moreover obtain r' where "(if length (drop (16 + n + k) raw) > 0
      then delta_deserialize_position_vec (drop (16 + n + k) raw) else Inr (dv_positions l')) = Inr r'"
    using pos by (cases "length (drop (16 + n + k) raw) > 0") simp_all
  ultimately show ?thesis
    unfolding dvi_deserialize_def d bind_outcome_simps Let_def n_def [symmetric] k_def [symmetric] if_not_P [OF len] by simp
qed

lemma dv_deserialize_any: "dv_deserialize raw w = Inr x \<Longrightarrow> \<exists>y. dv_deserialize raw w' = Inr y"
  using dvi_deserialize_any [of raw "dv_elements w" _ "dv_elements w'"]
  by (auto simp: dv_deserialize_def bind_outcome_eq_Inr)

lemma example_deletion_values:
  "dv_get_patchvalue_index 1 (example_deletion\<lparr> dv_max_patch_id := 2 \<rparr>) \<ge> 0"
  "dv_is_local_change True 1 (example_deletion\<lparr> dv_max_patch_id := 2 \<rparr>) = Inr False"
  by code_simp+

lemma example_deleted:
  "deleted_in example_kc example_version 1 t = Inr (t = mk_triple 1 1 2)"
proof -
  have "dvi_deserialize (dvi_serialize (dv_elements example_deletion)) dvi_new = Inr (dv_elements example_deletion)"
    using example_deletion_read
    by (auto simp: dv_deserialize_def dv_serialize_def dv_new_def bind_outcome_eq_Inr dest: arg_cong [where f = dv_elements])
  then have "dv_deserialize (dv_serialize example_deletion) (dv_new 1) = Inr (example_deletion\<lparr> dv_max_patch_id := 2 \<rparr>)"
    by (simp add: dv_deserialize_def dv_serialize_def dv_new_def)
  then show ?thesis
    using example_deletion_values by (simp add: deleted_in_def example_version_trees)
qed

lemma example_added:
  "added_in example_kc (SPO, [(mk_triple 2 1 2, av_serialize (first_addition 1 False))]) example_version 1 t = Inr (t = mk_triple 2 1 2)"
  using first_addition_read [of 1 False 5] il_is_in_first(1) [of 1] il_is_in_first(2) [of 1]
  by (auto simp: added_in_def example_version_trees INT_MAX_def av_is_patch_id_def av_is_local_change_def first_addition_def)

section \<open>Properties\<close>

text \<open>C40: The triples of a version: over an iterator of the snapshot and the deletions of the patch tree for a
  version, \<open>SnapshotPatchIteratorTripleID\<close> returns the triples of the snapshot that are not deleted in the
  version, in the order of the snapshot, then the additions of the version that match the pattern, without
  the first ones when the offset is past the snapshot's triples, and then nothing more, whatever the value of
  the flag \<open>has_last_deleted_triple\<close>, which the constructor does not set. This is for versions for which the
  look-ups are defined: the ones not before the first version that adds a matching triple of the tree, nor
  before the first local change of a record the look-up asks for one (for the others \<open>IntervalList::is_in\<close>
  steps before \<open>begin()\<close>). The count of additions, when one is stored, has to be right, the snapshot's estimate
  has to be exact, its triples known to the dictionary, and the records of the trees readable.\<close>

theorem version_materialized:
  fixes kc :: "('t, 'c, 'h) kyoto" and lib :: "('x, 's) hdt_lib"
  assumes "store_ready kc m keys valid pt" "additions_readable kc pt patch_id triple_pattern"
    "deletions_readable kc pt" "\<forall>t\<in>set (rest snapshot_it). \<exists>b. deleted_in kc pt patch_id t = Inr b" "0 \<le> patch_id"
    "get_addition_count (kc_count kc) patch_id triple_pattern (pt_store pt) \<in>
      {0, int (length (additions_of kc keys pt patch_id triple_pattern))}"
    "triple_id_iterator (ii_has_next lib) (ii_next lib) ok rest"
    "\<forall>s. ok s \<longrightarrow> ii_estimation lib s = EXACT \<and> ii_estimated lib s = num" "0 \<le> num"
    "ok snapshot_it" "set (rest snapshot_it) \<subseteq> known_keys m"
    "length (rest snapshot_it) + length (keys (get_additions_tree triple_pattern (pt_store pt))) + 5 \<le> fuel"
    "d = deletion_iterator_from kc from patch_id triple_pattern pt"
  shows "drain (spi_next lib kc fuel) fuel t
      (spi_new has_last snapshot_it (Some (d\<lparr> pti_it := set_early_break True (pti_it d) \<rparr>)) (get_spo_comparator (pt_store pt))
        snapshot triple_pattern pt patch_id offset deletions dict) =
    Inr (filter (\<lambda>t. deleted_in kc pt patch_id t = Inr False) (rest snapshot_it) @
         drop (nat (offset + deletions - num)) (additions_of kc keys pt patch_id triple_pattern))"
proof -
  define additions where "additions = drop (nat (offset + deletions - num)) (additions_of kc keys pt patch_id triple_pattern)"
  define n where "n = Suc (length (keys (get_additions_tree triple_pattern (pt_store pt))))"
  define r where "r = length (rest snapshot_it)"
  define it where "it = spi_new has_last snapshot_it (Some (d\<lparr> pti_it := set_early_break True (pti_it d) \<rparr>))
    (get_spo_comparator (pt_store pt)) snapshot triple_pattern pt patch_id offset deletions dict"
  define good :: "('t, 'c, 'h, 'x, 's) snapshot_patch_iterator \<Rightarrow> bool" where "good = spi_ok kc m keys valid pt patch_id triple_pattern (offset + deletions) ok rest n r"
  have "iterator_source (spi_next lib kc fuel) good (spi_rest kc keys pt patch_id rest additions)"
    unfolding good_def
  proof (rule delivers_source)
    fix t and it :: "('t, 'c, 'h, 'x, 's) snapshot_patch_iterator"
    assume g: "spi_ok kc m keys valid pt patch_id triple_pattern (offset + deletions) ok rest n r it"
    have "case spi_snapshot_it it of Some s \<Rightarrow> length (rest s) + n + 4 \<le> fuel | None \<Rightarrow> n + 2 \<le> fuel"
      using g assms(12) by (auto simp: spi_ok_def n_def r_def split: option.splits)
    then show "delivers (spi_next lib kc fuel t it)
        (spi_ok kc m keys valid pt patch_id triple_pattern (offset + deletions) ok rest n r)
        (spi_rest kc keys pt patch_id rest additions) (spi_rest kc keys pt patch_id rest additions it)"
      using assms(8) by (intro spi_next_delivers [OF assms(1-3,6) _ assms(7) _ assms(9) additions_def g]) (simp_all add: n_def)
  qed
  moreover have "good it"
    using assms(4,5,10,11)
    by (simp add: good_def spi_ok_def it_def spi_new_def r_def del_ok_def last_ok_def assms(13) deletion_iterator_from_def Let_def
        set_early_break_def set_filter_local_changes_def set_triple_pattern_filter_def set_patch_filter_def it_new_def
        reset_triple_pattern_filter_def)
  moreover have it: "spi_rest kc keys pt patch_id rest additions it =
      filter (\<lambda>t. deleted_in kc pt patch_id t = Inr False) (rest snapshot_it) @ additions"
    by (simp add: spi_rest_def it_def spi_new_def)
  moreover have "length (spi_rest kc keys pt patch_id rest additions it) < fuel"
  proof -
    have "length additions \<le> length (keys (get_additions_tree triple_pattern (pt_store pt)))"
      by (simp add: additions_def additions_of_def Let_def le_diff_conv le_trans [OF length_filter_le])
    moreover have "length (filter (\<lambda>t. deleted_in kc pt patch_id t = Inr False) (rest snapshot_it)) \<le> length (rest snapshot_it)"
      by (rule length_filter_le)
    ultimately show ?thesis unfolding it length_append using assms(12) by linarith
  qed
  ultimately have "drain (spi_next lib kc fuel) fuel t it = Inr (spi_rest kc keys pt patch_id rest additions it)"
    by (intro iterator_source.drain_rest)
  then show ?thesis unfolding it unfolding it_def additions_def .
qed

text \<open>A library whose operations are not called: the iterator is a sorted one.\<close>

definition example_lib :: "(unit, unit) hdt_lib" where
  "example_lib = \<lparr> hdt_search = (\<lambda>_ _. Inl Runtime_error), hdt_has_next = (\<lambda>_. False),
     hdt_next_id = (\<lambda>_. Inl Runtime_error), hdt_can_go_to = (\<lambda>_. False), hdt_go_to = (\<lambda>_ s. (False, s)),
     hdt_estimated = (\<lambda>_. 0), hdt_estimation = (\<lambda>_. EXACT), hdt_empty = () \<rparr>"

theorem version_materialized_witness:
  "drain (spi_next example_lib example_kc 9) 9 default_triple
     (let d = deletion_iterator_from example_kc (mk_triple 1 1 2) 1 (mk_triple 0 0 0) example_version in
      spi_new True (Sorted_iterator (example_ids [mk_triple 1 1 2, mk_triple 1 1 3]))
        (Some (d\<lparr> pti_it := set_early_break True (pti_it d) \<rparr>)) (get_spo_comparator (pt_store example_version))
        () (mk_triple 0 0 0) example_version 1 0 1 example_dict) =
   Inr [mk_triple 1 1 3, mk_triple 2 1 2]"
proof -
  let ?p = "mk_triple 0 0 0"
  let ?s = "Sorted_iterator (example_ids [mk_triple 1 1 2, mk_triple 1 1 3])"
  have ready: "store_ready example_kc example_manager example_keys example_valid example_version"
    using example_laws example_sorted example_bound example_known
    by (simp add: store_ready_def trees_valid_def example_kc_def example_version_def empty_store_def ordered_tree_valid_def
        list_tree_valid_def)
  have a: "additions_readable example_kc example_version 1 ?p"
    using first_addition_read [of 1 False 5]
    by (auto simp: additions_readable_def example_version_trees example_added INT_MAX_def)
  have d: "deletions_readable example_kc example_version"
    using dv_deserialize_any [OF example_deletion_read] by (auto simp: deletions_readable_def example_version_trees)
  have adds: "additions_of example_kc example_keys example_version 1 ?p = [mk_triple 2 1 2]"
    by (simp add: additions_of_def example_version_trees example_added)
  have c: "get_addition_count (kc_count example_kc) 1 ?p (pt_store example_version) = 0"
    by (simp add: get_addition_count_def example_kc_def list_hash_def example_version_def empty_store_def)
  have estimate: "\<forall>s. sorted_ok 2 s \<longrightarrow> ii_estimation example_lib s = EXACT \<and> ii_estimated example_lib s = 2"
  proof (intro allI impI)
    fix s :: "unit id_iterator"
    assume "sorted_ok 2 s"
    then show "ii_estimation example_lib s = EXACT \<and> ii_estimated example_lib s = 2"
      by (cases s) (simp_all add: sorted_ok_def sti_estimated_num_results_def)
  qed
  have s: "sorted_ok 2 ?s" "sorted_rest ?s = [mk_triple 1 1 2, mk_triple 1 1 3]"
    by (simp_all add: sorted_ok_def sorted_rest_def example_rest)
  have known: "set (sorted_rest ?s) \<subseteq> known_keys example_manager" using example_known by (simp add: s)
  show ?thesis
    unfolding Let_def
    using version_materialized [OF ready a d _ _ _ sorted_iterator_source estimate _ s(1) known _ refl,
        where has_last = True and offset = 0 and deletions = 1 and fuel = 9]
    by (simp add: adds c s(2) example_version_trees example_deleted)
qed

end
