(* ===== verification/Spec2Isabelle.thy ===== *)
theory Spec2Isabelle
  imports Append_Properties Materialization_Properties
begin

text \<open>
  OSTRICH is a versioned RDF store. A version is a set of triples; some versions are stored whole, as HDT
  snapshots, the ones after a snapshot as changes to it, in a patch tree. This is a model of the C++ sources under
  \<open>src/main/cpp\<close>, in the build with \<open>COMPRESSED_ADD_VALUES\<close> and \<open>COMPRESSED_DEL_VALUES\<close>, with the properties that
  make it correct.

  \<^bold>\<open>The program.\<close> Terms are numbers a dictionary manager hands out (\<open>dictionary/dictionary_manager\<close>): HDT ids for
  the terms of the snapshot, ids with the top bit set for terms added later. A triple is three ids
  (\<open>patch/triple\<close>). A patch (\<open>patch/patch\<close>, \<open>patch/patch_element\<close>) is a sorted list of elements, each an addition or a
  deletion. A patch tree (\<open>patch/patch_tree\<close>) keeps, for all versions since a snapshot, one record for each triple
  ever deleted and one for each triple ever added, in Kyoto Cabinet trees ordered by three permutations
  (\<open>patch/triple_store\<close>, \<open>patch/patch_tree_key_comparator\<close>). The value of a record says in which versions the
  triple was deleted or added relative to the snapshot, as interval lists (\<open>patch/interval_list\<close>,
  \<open>patch/patch_tree_addition_value\<close>, \<open>patch/patch_tree_deletion_value\<close>), and for a deletion its positions in the
  seven kinds of triple pattern. \<open>PatchTree::append\<close> merges a patch with the deletion and the addition tree in
  one pass. Queries read the trees with filtering iterators (\<open>patch/patch_tree_iterator\<close>); the iterators of
  \<open>controller/\<close> and \<open>snapshot/\<close> combine them across snapshots.

  \<^bold>\<open>Theories.\<close> In the order the components call each other:
  \<^item> \<open>Ostrich_Prelude\<close>: outcomes (an error or a result), bytes, the locale \<open>codec\<close> of byte formats.
  \<^item> \<open>Variable_Size_Integer\<close>: \<open>patch/variable_size_integer.h\<close>, LEB128 integers.
  \<^item> \<open>Triple\<close>: \<open>patch/triple\<close>, ids, string triples, triple versions and triple deltas.
  \<^item> \<open>Interval_List\<close>, \<open>Version_History\<close>: \<open>patch/interval_list.h\<close>; the set of versions an interval list stands for.
  \<^item> \<open>Addition_Value\<close>, \<open>Patch_Positions\<close>, \<open>Deletion_Value\<close>, \<open>Patch_Tree_Value\<close>: the values of tree records.
  \<^item> \<open>Dictionary_Manager\<close>, \<open>Key_Comparators\<close>: ids and strings, and the orders of triples; the locales \<open>comparison\<close>
    and \<open>component_comparisons\<close> say what an order is.
  \<^item> \<open>Kyoto_Cabinet\<close>: the operations of the database library, which is not part of the sources, with their
    documented laws as locales, and an association list that has them.
  \<^item> \<open>Patch\<close>, \<open>Triple_Store\<close>, \<open>Patch_Tree\<close>: patches, the six trees with the addition counts, \<open>append\<close> and \<open>contains\<close>.
  \<^item> \<open>Patch_Tree_Merge\<close>, \<open>Append_Correctness\<close>, \<open>Append_Properties\<close>: \<open>append\<close> against a reference that visits each triple
    of the patch and the trees once, in order.
  \<^item> \<open>Patch_Tree_Iterator\<close>, \<open>Patch_Tree_Queries\<close>: the iterators over a patch tree, and what \<open>PatchTree\<close> answers with
    them: reconstruction of a patch, deletion and addition counts, metadata.
  \<^item> \<open>Iterator_Source\<close>, \<open>Snapshot_Iterators\<close>: the interface \<open>bool next(T*)\<close> as a locale over the list of the
    elements to come, and the iterators of \<open>snapshot/\<close>.
  \<^item> \<open>Delta_Semantics\<close>, \<open>Delta_Iterators\<close>, \<open>Delta_Properties\<close>: \<open>controller/triple_delta_iterator\<close>, the deltas
    between versions.
  \<^item> \<open>Versions_Iterators\<close>, \<open>Versions_Properties\<close>: \<open>controller/triple_versions_iterator\<close>, the triples with the versions
    they are in.
  \<^item> \<open>Snapshot_Search\<close>, \<open>Materialization\<close>: \<open>SnapshotManager::search_with_offset\<close> and
    \<open>controller/snapshot_patch_iterator_triple_id\<close>, the triples of one version.
  \<^item> \<open>Tree_Walk\<close>, \<open>Materialization_Properties\<close>: a cursor with filters returns the records that pass them, in order
    (locale \<open>tree_cursors\<close>), and with that, what the iterator over a version returns.

  \<^bold>\<open>Conventions.\<close> A class is a record, a method a function of its name that returns the changed record; an
  exception, undefined behaviour or a loop without progress is an \<open>Inl\<close> outcome. A size, an index or a patch id
  is an integer where the code does not depend on its width; ids and encoded numbers are words. Loops over
  databases and iterators take fuel: \<open>append\<close> returns \<open>None\<close> without it, the iterators \<open>Diverges\<close>.
  \<open>append_terminates\<close> gives the fuel that is enough for a patch and a tree, more than the number of different triples
  in the patch and the two trees (\<open>card (triples_of kc es pt)\<close>); the theorems about deltas ask for more than the elements of all sources together.

  \<^bold>\<open>What is shown.\<close> Byte formats read back what was written (\<open>ULEB128_roundtrip\<close> to \<open>deletion_value_roundtrip\<close>).
  The interval lists and the values built on them keep the set of versions their history of operations
  gives (\<open>il_addition_correct\<close>, \<open>addition_value_history\<close>, \<open>deletion_value_history\<close>, \<open>v2_container_history\<close>), and a
  tree value tells whether its triple is in a version (\<open>tree_value_presence\<close>). The comparators are orders
  (\<open>key_comparator_orders\<close>, \<open>compare_component_order\<close>) and put the matches of a pattern next to each other
  (\<open>query_order_contiguous\<close>). Patches stay sorted and joining two is adding one to the other
  (\<open>patch_sorted_add\<close>, \<open>join_sorted_adds_all\<close>). \<open>append\<close> is the reference merge, ends, keeps the trees consistent,
  stores new triples and refuses a version it has (\<open>append_is_visits\<close> to \<open>append_refuses\<close>). The iterators over
  deltas return what leads from one version to another (\<open>plain_diff_leads\<close> to \<open>delta_across_chains\<close>), the versions
  of a triple are those it is not deleted in (\<open>versions_of_triple\<close>), and the combined iterator lists the union of
  what the delta chains list (\<open>combined_versions_union\<close>). The triples of a version are those of the snapshot that
  are not deleted in it, then its additions (\<open>version_materialized\<close>). The laws about
  libraries are hypotheses; each theorem with hypotheses has an example, \<open>_witness\<close>, where they hold.

  \<^bold>\<open>Not modelled.\<close> The command line programs and the evaluator (\<open>insert.cc\<close>, \<open>query_*.cc\<close>, \<open>evaluate/\<close>), progress
  listeners, statistics and locks are input, output and timing. \<open>controller/controller\<close>, \<open>snapshot/snapshot_manager\<close>
  and the other managers open HDT files and databases and choose between the parts above. Destructors and memory
  management are left out, apart from what the findings of the manifest say of them.
\<close>

end
